(* ===== verification/Prelude.thy ===== *)
theory Prelude
  imports "HOL-Library.Word"
begin

text \<open>
  Shared vocabulary of the development: machine integers at the widths the C code uses, the
  layout of C memory as lists, NUL-terminated strings, and the lemmas about them that several
  components need.  Collections: \<open>byte_simps\<close> rewrites bit operations on words and naturals
  to arithmetic; \<open>mem_simps\<close> computes with memory blocks.
\<close>

unbundle bit_operations_syntax

named_theorems byte_simps \<open>bit operations as arithmetic\<close>
named_theorems mem_simps \<open>memory blocks\<close>

section \<open>Machine integers\<close>

type_synonym byte = "8 word"
type_synonym u32 = "32 word"
type_synonym u64 = "64 word"

lemma unat_and_mask [byte_simps]: "unat (w AND mask n) = unat (w::'a::len word) mod 2 ^ n"
  by (metis take_bit_eq_mask take_bit_eq_mod unsigned_take_bit_eq)

lemma unat_drop_bit [byte_simps]: "unat (drop_bit n (w::'a::len word)) = unat w div 2 ^ n"
  by (metis unat_drop_bit_eq drop_bit_eq_div)

lemma unat_push_bit_lt:
  "unat w * 2 ^ n < 2 ^ LENGTH('a) \<Longrightarrow> unat (push_bit n (w::'a::len word)) = unat w * 2 ^ n"
  by (metis push_bit_eq_mult take_bit_nat_eq_self unsigned_push_bit_eq)

lemma word_and_127: "(w::'a::len word) AND 127 = w AND mask 7"
  by (simp add: mask_eq_exp_minus_1)

lemma unat_and_127 [byte_simps]: "unat ((w::'a::len word) AND 127) = unat w mod 128"
  by (simp add: word_and_127 unat_and_mask)

lemma word_unat_eqI: "unat (v::'a::len word) = unat w \<Longrightarrow> v = w"
  by (rule unsigned_word_eqI)

lemma unat_u64_lt: "unat (w::u64) < 18446744073709551616"
  using unsigned_less [of w] by simp

lemma nat_and_mask [byte_simps]: "(n::nat) AND mask k = n mod 2 ^ k"
  by (metis take_bit_eq_mask take_bit_eq_mod)

lemma nat_and_127 [byte_simps]: "(n::nat) AND 127 = n mod 128"
  using nat_and_mask [of n 7] by (simp add: mask_eq_exp_minus_1)

lemma nat_and_255 [byte_simps]: "(n::nat) AND 255 = n mod 256"
  using nat_and_mask [of n 8] by (simp add: mask_eq_exp_minus_1)

lemma nat_bit_lt: "(a::nat) < 2 ^ k \<Longrightarrow> bit a n \<Longrightarrow> n < k"
  by (metis bit_take_bit_iff take_bit_nat_eq_self)

lemma nat_or_add: "(a::nat) < 2 ^ k \<Longrightarrow> a OR push_bit k b = a + push_bit k b"
  by (rule disjunctive_add_eq_or [symmetric])
    (auto simp: bit_eq_iff bit_simps dest: nat_bit_lt)

lemma unat_byte_lt [simp]: "unat (c::byte) < 256"
  using unsigned_less [of c] by simp

lemma unat_of_nat_byte [byte_simps]: "unat (of_nat n :: byte) = n mod 256"
  by (simp add: unat_of_nat)

lemma byte_bit7: "(c::byte) AND 128 \<noteq> 0 \<longleftrightarrow> bit c 7"
  using and_exp_eq_0_iff_not_bit [of c 7] by simp

lemma byte_bit7_ge: "bit (c::byte) 7 \<longleftrightarrow> 128 \<le> unat c"
proof -
  have "bit c 7 \<longleftrightarrow> bit (unat c) 7"
    by (simp add: bit_unsigned_iff)
  also have "\<dots> \<longleftrightarrow> odd (unat c div 128)"
    by (simp add: bit_iff_odd)
  also have "\<dots> \<longleftrightarrow> 128 \<le> unat c"
    using unat_byte_lt [of c] div_nat_eqI [of 128 1 "unat c"] by (cases "128 \<le> unat c") simp_all
  finally show ?thesis .
qed

lemma byte_top [byte_simps]: "(c::byte) AND 128 = 0 \<longleftrightarrow> unat c < 128"
  using byte_bit7 [of c] byte_bit7_ge [of c] by auto

section \<open>NUL-terminated strings\<close>

text \<open>
  A \<open>char *\<close> that points into a NUL-terminated string is the list of the characters from
  there to the terminator, which is not part of the list: reading at the end of the list gives
  NUL, and the code never steps past it.
\<close>

abbreviation NUL :: char where "NUL \<equiv> CHR 0x00"

fun cur :: "string \<Rightarrow> char" where
  "cur [] = NUL"
| "cur (c # _) = c"

definition cstr :: "string \<Rightarrow> bool" where
  "cstr s \<longleftrightarrow> NUL \<notin> set s"

lemma cstr_simps [simp]:
  "cstr []" "cstr (c # s) \<longleftrightarrow> c \<noteq> NUL \<and> cstr s" "cstr (s @ t) \<longleftrightarrow> cstr s \<and> cstr t"
  by (auto simp: cstr_def)

lemma cur_eq_NUL: "cstr s \<Longrightarrow> cur s = NUL \<longleftrightarrow> s = []"
  by (cases s) auto

end
