(* ===== verification/Varint.thy ===== *)
theory Varint
  imports Prelude
begin

text \<open>
  \<^verbatim>\<open>varint.c\<close>: the variable-width integers of the index file format.  Each
  byte carries seven bits, most significant group first, and the top bit says that another byte
  follows.  A continuation also adds one, so that every value has exactly one encoding.
\<close>

definition MSB7 :: "u64 \<Rightarrow> u64" where
  "MSB7 x = x AND push_bit 57 (NOT 0)"

text \<open>
  \<open>decode_varint\<close> reads through the pointer \<open>*bufp\<close>; here the buffer is the list of the
  bytes from there on.  \<open>None\<close> is a read past the end of that list (the C function has no
  length to check against); an overflow returns 0 and leaves the pointer where it was.
\<close>

fun decode_varint_loop :: "byte list \<Rightarrow> byte \<Rightarrow> u64 \<Rightarrow> byte list \<Rightarrow> (u64 \<times> byte list) option" where
  "decode_varint_loop start c val buf =
     (if c AND 128 = 0 then Some (val, buf)
      else
        let val = val + 1 in
        if val = 0 \<or> MSB7 val \<noteq> 0 then Some (0, start)
        else case buf of
            [] \<Rightarrow> None
          | c # buf \<Rightarrow> decode_varint_loop start c (push_bit 7 val + ucast (c AND 127)) buf)"

definition decode_varint :: "byte list \<Rightarrow> (u64 \<times> byte list) option" where
  "decode_varint bufp =
     (case bufp of
        [] \<Rightarrow> None
      | c # buf \<Rightarrow> decode_varint_loop bufp c (ucast (c AND 127)) buf)"

lemma varint_step_less: "drop_bit 7 (v::u64) \<noteq> 0 \<Longrightarrow> unat (drop_bit 7 v - 1) < unat v"
proof -
  assume nz: "drop_bit 7 v \<noteq> 0"
  then have "unat (drop_bit 7 v - 1) = unat (drop_bit 7 v) - 1"
    by (metis unat_minus_one)
  moreover have "0 < unat (drop_bit 7 v)"
    using nz by (simp add: unat_gt_0)
  moreover have "unat (drop_bit 7 v) \<le> unat v"
    by (simp add: unat_drop_bit)
  ultimately show ?thesis by simp
qed

text \<open>
  \<open>encode_varint\<close> fills the 16-byte array from its end; the accumulator is the filled part
  \<open>varint[pos..15]\<close>.
\<close>

function encode_varint_loop :: "u64 \<Rightarrow> byte list \<Rightarrow> byte list" where
  "encode_varint_loop value varint =
     (let value = drop_bit 7 value in
      if value = 0 then varint
      else
        let value = value - 1 in
        encode_varint_loop value ((128 OR ucast (value AND 127)) # varint))"
  by pat_completeness auto
termination
  by (relation "measure (\<lambda>(v, _). unat v)") (auto simp: varint_step_less)

declare decode_varint_loop.simps [simp del] encode_varint_loop.simps [simp del]

definition encode_varint :: "u64 \<Rightarrow> byte list" where
  "encode_varint value = encode_varint_loop value [ucast (value AND 127)]"

section \<open>Arithmetic of the two steps\<close>

lemma unat_ucast_up [byte_simps]: "unat (ucast (c::byte) :: u64) = unat c"
proof -
  have "unat c < 2 ^ 64"
    by (rule less_trans [OF unat_byte_lt]) simp
  then show ?thesis by (simp add: unsigned_ucast_eq take_bit_nat_eq_self)
qed

lemma unat_ucast_down [byte_simps]: "unat (ucast (v::u64) :: byte) = unat v mod 256"
  by (simp add: unsigned_ucast_eq take_bit_eq_mod)

lemma MSB7_eq_0: "MSB7 v = 0 \<longleftrightarrow> unat v < 2 ^ 57"
proof -
  have le: "unat v div 2 ^ 57 * 2 ^ 57 \<le> unat v"
    by simp
  also have "unat v < 2 ^ 64"
    using unsigned_less [of v] by simp
  finally have lt: "unat (drop_bit 57 v) * 2 ^ 57 < 2 ^ LENGTH(64)"
    by (simp add: unat_drop_bit)
  have "MSB7 v = push_bit 57 (drop_bit 57 v)"
    unfolding MSB7_def by (rule bit_word_eqI) (auto simp: bit_simps)
  then have "unat (MSB7 v) = unat v div 2 ^ 57 * 2 ^ 57"
    using unat_push_bit_lt [OF lt] by (simp add: unat_drop_bit)
  then have "MSB7 v = 0 \<longleftrightarrow> unat v div 2 ^ 57 * 2 ^ 57 = 0"
    by (metis unat_eq_0)
  then show ?thesis
    by (simp add: div_eq_0_iff)
qed

lemma low7_or: "unat (128 OR ucast (v AND 127) :: byte) = 128 + unat (v::u64) mod 128"
proof -
  have c: "(128 :: byte) = push_bit 7 1" by simp
  have "unat (128 OR ucast (v AND 127) :: byte) = unat (128::byte) OR unat (ucast (v AND 127) :: byte)"
    by (rule unsigned_or_eq)
  also have "\<dots> = (unat v mod 128) OR push_bit 7 1"
    by (simp add: byte_simps or.commute mod_mod_cancel)
  also have "\<dots> = unat v mod 128 + push_bit 7 1"
    by (rule nat_or_add) simp
  finally show ?thesis by simp
qed

lemma varint_join:
  assumes "unat (v::u64) < 2 ^ 57"
  shows "unat (push_bit 7 v + ucast ((c::byte) AND 127)) = unat v * 128 + unat c mod 128"
proof -
  have p: "unat (push_bit 7 v) = unat v * 128"
    using assms by (subst unat_push_bit_lt) simp_all
  have "unat v < 144115188075855872" "unat c mod 128 < 128"
    using assms by simp_all
  then have "unat v * 128 + unat c mod 128 < 2 ^ 64"
    by simp
  then show ?thesis
    by (simp add: unat_word_ariths p byte_simps)
qed


lemma varint_split:
  "ucast ((c::byte) AND 127) = (w::u64) AND 127 \<longleftrightarrow> unat c mod 128 = unat w mod 128"
  by (simp add: word_unat_eq_iff byte_simps)

section \<open>Decoding inverts encoding\<close>

lemma encode_varint_loop_append:
  "encode_varint_loop v (xs @ ys) = encode_varint_loop v xs @ ys"
proof (induction v xs rule: encode_varint_loop.induct)
  case (1 v xs)
  show ?case
  proof (cases "drop_bit 7 v = 0")
    case True
    then show ?thesis by (simp add: encode_varint_loop.simps)
  next
    case False
    with 1 show ?thesis
      by (simp add: encode_varint_loop.simps [of v] Let_def)
  qed
qed

abbreviation varint_prefix :: "u64 \<Rightarrow> byte list" where
  "varint_prefix v \<equiv> encode_varint_loop v []"

abbreviation varint_cont :: "u64 \<Rightarrow> byte" where
  "varint_cont v \<equiv> 128 OR ucast (v AND 127)"

lemma varint_prefix_0: "drop_bit 7 v = 0 \<Longrightarrow> varint_prefix v = []"
  by (simp add: encode_varint_loop.simps)

lemma varint_prefix_step:
  "drop_bit 7 v \<noteq> 0 \<Longrightarrow>
   varint_prefix v = varint_prefix (drop_bit 7 v - 1) @ [varint_cont (drop_bit 7 v - 1)]"
  using encode_varint_loop_append [of "drop_bit 7 v - 1" "[]" "[varint_cont (drop_bit 7 v - 1)]"]
  by (simp add: encode_varint_loop.simps [of v] Let_def)

lemma encode_varint_prefix: "encode_varint v = varint_prefix v @ [ucast (v AND 127)]"
  using encode_varint_loop_append [of v "[]" "[ucast (v AND 127)]"]
  by (simp add: encode_varint_def)

lemma unat_drop7_lt: "unat (drop_bit 7 (w::u64)) < 2 ^ 57"
proof -
  have "unat w < 2 ^ 57 * 128"
    using unat_u64_lt [of w] by simp
  then have "unat w div 128 < 2 ^ 57"
    by (rule less_mult_imp_div_less)
  then show ?thesis by (simp add: unat_drop_bit)
qed

text \<open>
  One turn of the decoding loop, in terms of the value \<open>w\<close> it produces: the pending value is
  \<open>drop_bit 7 w - 1\<close> and the overflow test passes because \<open>drop_bit 7 w < 2^57\<close>.
\<close>

lemma varint_cont_top [simp]: "varint_cont v AND 128 \<noteq> 0"
  using low7_or [of v] byte_top [of "varint_cont v"] by simp

lemma decode_step_word:
  assumes nz: "drop_bit 7 (w::u64) \<noteq> 0" and c: "unat (c::byte) mod 128 = unat w mod 128"
  shows "push_bit 7 (drop_bit 7 w) + ucast (c AND 127) = w"
proof -
  have "unat (push_bit 7 (drop_bit 7 w) + ucast (c AND 127)) = unat w"
    using varint_join [OF unat_drop7_lt, of w c] c by (simp add: unat_drop_bit)
  then show ?thesis by (rule word_unat_eqI)
qed

lemma decode_step:
  assumes nz: "drop_bit 7 w \<noteq> 0" and c: "unat (c::byte) mod 128 = unat w mod 128"
    and cont: "d AND 128 \<noteq> 0"
  shows "decode_varint_loop start d (drop_bit 7 w - 1) (c # buf) = decode_varint_loop start c w buf"
proof -
  have "MSB7 (drop_bit 7 w) = 0"
    using unat_drop7_lt [of w] by (simp add: MSB7_eq_0)
  then show ?thesis
    using nz cont decode_step_word [OF nz c] by (simp add: decode_varint_loop.simps [of start d] Let_def)
qed

lemma decode_varint_prefix:
  "drop_bit 7 v \<noteq> 0 \<Longrightarrow>
   decode_varint (varint_prefix v @ rest) =
     decode_varint_loop (varint_prefix v @ rest) (varint_cont (drop_bit 7 v - 1)) (drop_bit 7 v - 1) rest"
proof (induction "unat v" arbitrary: v rest rule: less_induct)
  case less
  let ?w = "drop_bit 7 v - 1"
  have pre: "varint_prefix v @ rest = varint_prefix ?w @ varint_cont ?w # rest"
    using varint_prefix_step [OF less.prems] by simp
  show ?case
  proof (cases "drop_bit 7 ?w = 0")
    case True
    then have "unat ?w div 128 = 0"
      using unat_drop_bit [of 7 ?w] by simp
    then have "unat ?w < 128"
      by (simp add: div_eq_0_iff)
    then have "unat (ucast (varint_cont ?w AND 127) :: u64) = unat ?w"
      by (simp only: unat_ucast_up unat_and_127 low7_or) simp
    then have "ucast (varint_cont ?w AND 127) = ?w"
      by (rule word_unat_eqI)
    then show ?thesis unfolding pre
      using True by (simp add: varint_prefix_0 decode_varint_def)
  next
    case False
    have "unat ?w < unat v" using varint_step_less [OF less.prems] .
    from less.hyps [OF this False, of "varint_cont ?w # rest"]
    show ?thesis unfolding pre
      using decode_step [OF False, of "varint_cont ?w"] by (simp add: low7_or)
  qed
qed


lemma varint_last:
  shows "ucast (ucast (v AND 127) AND 127 :: byte) = (v::u64) AND 127"
    and "(ucast (v AND 127) :: byte) AND 128 = 0"
    and "unat (ucast (v AND 127) :: byte) mod 128 = unat v mod 128"
proof -
  show u: "unat (ucast (v AND 127) :: byte) mod 128 = unat v mod 128"
    by (simp add: byte_simps mod_mod_cancel)
  then show "ucast (ucast (v AND 127) AND 127 :: byte) = (v::u64) AND 127"
    by (simp only: varint_split)
  show "(ucast (v AND 127) :: byte) AND 128 = 0"
    by (simp add: byte_simps mod_mod_cancel)
qed

text \<open>C9: Round trip: \<open>decode_varint\<close> reads back every 64-bit value that \<open>encode_varint\<close> wrote and stops
  exactly at the bytes that follow it.\<close>

theorem decode_encode_varint: "decode_varint (encode_varint v @ rest) = Some (v, rest)"
proof (cases "drop_bit 7 v = 0")
  case True
  then have "unat v div 128 = 0"
    using unat_drop_bit [of 7 v] by simp
  then have "v AND 127 = v"
    by (simp add: word_unat_eq_iff byte_simps div_eq_0_iff)
  with True show ?thesis
    using varint_last [of v]
    by (simp add: encode_varint_prefix varint_prefix_0 decode_varint_def decode_varint_loop.simps)
next
  case False
  let ?c = "ucast (v AND 127) :: byte"
  have "decode_varint (encode_varint v @ rest) = decode_varint (varint_prefix v @ ?c # rest)"
    by (simp add: encode_varint_prefix)
  also have "\<dots> = decode_varint_loop (varint_prefix v @ ?c # rest) ?c v rest"
    using decode_varint_prefix [OF False] decode_step [OF False varint_last(3)] by simp
  also have "\<dots> = Some (v, rest)"
    using varint_last(2) [of v] by (simp add: decode_varint_loop.simps)
  finally show ?thesis .
qed

lemma length_varint_prefix:
  "unat v < 128 ^ n \<Longrightarrow> 0 < n \<Longrightarrow> length (varint_prefix v) < n"
proof (induction n arbitrary: v)
  case 0
  then show ?case by simp
next
  case (Suc n)
  show ?case
  proof (cases "drop_bit 7 v = 0")
    case True
    then show ?thesis by (simp add: varint_prefix_0)
  next
    case False
    let ?w = "drop_bit 7 v - 1"
    have pos: "0 < unat (drop_bit 7 v)"
      using False by (simp add: unat_gt_0)
    have small: "unat (drop_bit 7 v) < 128 ^ n"
      using Suc.prems(1) by (simp add: unat_drop_bit less_mult_imp_div_less mult.commute)
    then have "n \<noteq> 0" using pos by (cases n) simp_all
    moreover have "unat ?w < 128 ^ n"
      using False small by (metis unat_minus_one less_imp_diff_less)
    ultimately have "length (varint_prefix ?w) < n"
      using Suc.IH by simp
    then show ?thesis
      using varint_prefix_step [OF False] by simp
  qed
qed

text \<open>The encoding of a 64-bit value takes between one and ten bytes, so it fits the callers'
  16-byte buffers.\<close>

theorem length_encode_varint: "length (encode_varint v) \<in> {1..10}"
proof -
  have "unat v < 128 ^ 10"
    by (rule less_trans [OF unat_u64_lt]) simp
  then have "length (varint_prefix v) < 10"
    by (rule length_varint_prefix) simp
  then show ?thesis by (simp add: encode_varint_prefix)
qed

section \<open>Encoding inverts decoding\<close>

lemma decode_varint_loop_canonical:
  "decode_varint_loop start c val buf = Some (v, rest) \<Longrightarrow> length rest < length start \<Longrightarrow>
   start = varint_prefix val @ c # buf \<Longrightarrow> unat c mod 128 = unat val mod 128 \<Longrightarrow>
   start = encode_varint v @ rest"
proof (induction start c val buf rule: decode_varint_loop.induct)
  case (1 start c val buf)
  show ?case
  proof (cases "c AND 128 = 0")
    case True
    then have "unat c < 128" by (simp add: byte_simps)
    then have "unat c = unat (ucast (val AND 127) :: byte)"
      using "1.prems"(4) by (simp add: byte_simps mod_mod_cancel)
    then have "c = ucast (val AND 127)" by (rule word_unat_eqI)
    with True 1 show ?thesis
      by (simp add: decode_varint_loop.simps encode_varint_prefix)
  next
    case False
    define w where "w = val + 1"
    have ok: "w \<noteq> 0" "MSB7 w = 0"
      using "1.prems"(1,2) False by (auto simp: decode_varint_loop.simps [of start] Let_def w_def split: if_splits)
    then obtain d buf' where buf: "buf = d # buf'"
      using "1.prems"(1) False by (cases buf) (auto simp: decode_varint_loop.simps [of start] Let_def w_def)
    define val' where "val' = push_bit 7 w + ucast (d AND 127)"
    have "unat w < 2 ^ 57" using ok(2) by (simp add: MSB7_eq_0)
    then have val': "unat val' = unat w * 128 + unat d mod 128"
      unfolding val'_def by (rule varint_join)
    then have dv: "drop_bit 7 val' = w"
      by (simp add: word_unat_eq_iff unat_drop_bit)
    have "unat c = unat (varint_cont val)"
      using False "1.prems"(4) unat_byte_lt [of c]
      by (simp add: byte_simps low7_or le_mod_geq)
    then have c: "c = varint_cont val" by (rule word_unat_eqI)
    have "varint_prefix val' = varint_prefix val @ [c]"
      using varint_prefix_step [of val'] ok(1) dv c by (simp add: w_def)
    then have "start = varint_prefix val' @ d # buf'"
      using "1.prems"(3) buf by simp
    moreover have "decode_varint_loop start d val' buf' = Some (v, rest)"
      using "1.prems"(1) False ok buf
      by (simp add: decode_varint_loop.simps [of start c] Let_def w_def val'_def)
    ultimately show ?thesis
      using "1.IH" [OF False w_def] ok buf "1.prems"(2) val' by (simp add: val'_def)
  qed
qed

lemma decode_varint_loop_rest:
  "decode_varint_loop start c val buf = Some (v, rest) \<Longrightarrow> length buf < length start \<Longrightarrow>
   rest = start \<or> length rest < length start"
proof (induction start c val buf rule: decode_varint_loop.induct)
  case (1 start c val buf)
  then show ?case
    by (simp add: decode_varint_loop.simps [of start c] Let_def split: if_splits list.splits)
qed

text \<open>C10: The encoding is canonical: whenever \<open>decode_varint\<close> accepts (it advances the pointer), the bytes
  it consumed are the ones \<open>encode_varint\<close> writes for that value; an overlong value is
  rejected and leaves the pointer where it was.\<close>

theorem decode_varint_canonical:
  assumes "decode_varint bs = Some (v, rest)" and "rest \<noteq> bs"
  shows "bs = encode_varint v @ rest"
proof -
  obtain c buf where bs: "bs = c # buf"
    using assms(1) by (cases bs) (auto simp: decode_varint_def)
  let ?val = "ucast (c AND 127) :: u64"
  have loop: "decode_varint_loop bs c ?val buf = Some (v, rest)"
    using assms(1) bs by (simp add: decode_varint_def)
  then have "length rest < length bs"
    using decode_varint_loop_rest assms(2) bs by fastforce
  moreover have "unat (drop_bit 7 ?val) = unat (0::u64)"
    by (simp add: unat_drop_bit byte_simps)
  then have "drop_bit 7 ?val = 0"
    by (rule word_unat_eqI)
  then have "bs = varint_prefix ?val @ c # buf"
    using bs by (simp add: varint_prefix_0)
  moreover have "unat c mod 128 = unat ?val mod 128"
    by (simp add: byte_simps)
  ultimately show ?thesis
    using decode_varint_loop_canonical [OF loop] by blast
qed

lemma decode_varint_canonical_witness:
  "[0x80, 0x00, 0x2a] = encode_varint 128 @ [0x2a]"
  using decode_varint_canonical [of "[0x80, 0x00, 0x2a]" 128 "[0x2a]"]
  by (simp add: decode_varint_def decode_varint_loop.simps MSB7_eq_0)

end
