(* ===== verification/Base85.thy ===== *)
theory Base85
  imports Prelude
begin

text \<open>
  \<^verbatim>\<open>base85.c\<close>: the text encoding of binary patches.  Four bytes become five
  letters, a 32-bit big-endian value written in base 85; a short last group is padded with zero
  bytes, and the byte count tells the decoder where to stop.
\<close>

definition en85 :: string where
  "en85 = ''0123456789ABCDEFGHIJKLMNOPQRSTUVWXYZabcdefghijklmnopqrstuvwxyz!#$%&()*+-;<=>?@^_`{|}~''"

text \<open>The inverse table: \<open>prep_base85\<close> stores \<open>i + 1\<close> at the letter \<open>en85[i]\<close>.\<close>

fun prep_base85 :: "string \<Rightarrow> int \<Rightarrow> (char \<Rightarrow> int) \<Rightarrow> (char \<Rightarrow> int)" where
  "prep_base85 [] i tab = tab"
| "prep_base85 (ch # chs) i tab = prep_base85 chs (i + 1) (tab(ch := i + 1))"

definition de85 :: "char \<Rightarrow> int" where
  "de85 = prep_base85 en85 0 (\<lambda>_. 0)"

datatype base85_error = Invalid_alphabet char | Invalid_sequence

section \<open>Encoding\<close>

text \<open>
  The loop over \<open>cnt = 24, 16, 8, 0\<close> that fills \<open>acc\<close>, left early when the data is used up;
  the data list carries its own length, \<open>bytes\<close>.
\<close>

fun encode_85_acc :: "nat list \<Rightarrow> u32 \<Rightarrow> byte list \<Rightarrow> u32 \<times> byte list" where
  "encode_85_acc (cnt # cnts) acc (ch # data) =
     (let acc = acc OR push_bit cnt (ucast ch) in
      if data = [] then (acc, []) else encode_85_acc cnts acc data)"
| "encode_85_acc _ acc data = (acc, data)"

text \<open>The loop over \<open>cnt = 4, ..., 0\<close> that writes \<open>buf[cnt]\<close>, last letter first.\<close>

fun encode_85_digits :: "nat \<Rightarrow> u32 \<Rightarrow> string \<Rightarrow> string" where
  "encode_85_digits 0 acc buf = buf"
| "encode_85_digits (Suc cnt) acc buf =
     encode_85_digits cnt (acc div 85) (en85 ! unat (acc mod 85) # buf)"

lemma encode_85_acc_shrinks:
  "data \<noteq> [] \<Longrightarrow> length (snd (encode_85_acc (c # cs) acc data)) < length data"
proof (induction cs arbitrary: c acc data)
  case Nil
  then show ?case by (cases data) (auto simp: Let_def)
next
  case (Cons c' cs)
  then show ?case
    by (cases data) (auto simp: Let_def less_SucI simp del: encode_85_acc.simps simp: encode_85_acc.simps(1) [of c])
qed

function encode_85 :: "byte list \<Rightarrow> string" where
  "encode_85 data =
     (if data = [] then []
      else
        let (acc, data) = encode_85_acc [24, 16, 8, 0] 0 data in
        encode_85_digits 5 acc [] @ encode_85 data)"
  by pat_completeness auto
termination
  by (relation "measure length")
    (use encode_85_acc_shrinks in \<open>auto simp del: encode_85_acc.simps, metis snd_conv\<close>)

declare encode_85.simps [simp del]

section \<open>Decoding\<close>

text \<open>
  Four letters are accumulated without an overflow check, which cannot happen yet; the fifth is
  added under two checks against \<open>0xffffffff\<close>.
\<close>

fun decode_85_digits :: "nat \<Rightarrow> u32 \<Rightarrow> string \<Rightarrow> base85_error + u32 \<times> string" where
  "decode_85_digits 0 acc buffer = Inr (acc, buffer)"
| "decode_85_digits (Suc cnt) acc buffer =
     (let ch = cur buffer; de = de85 ch - 1 in
      if de < 0 then Inl (Invalid_alphabet ch)
      else decode_85_digits cnt (acc * 85 + of_int de) (tl buffer))"

definition decode_85_group :: "string \<Rightarrow> base85_error + u32 \<times> string" where
  "decode_85_group buffer =
     (case decode_85_digits 4 0 buffer of
        Inl e \<Rightarrow> Inl e
      | Inr (acc, buffer) \<Rightarrow>
          let ch = cur buffer; de = de85 ch - 1 in
          if de < 0 then Inl (Invalid_alphabet ch)
          else if 0xffffffff div 85 < acc \<or> 0xffffffff - of_int de < acc * 85
          then Inl Invalid_sequence
          else Inr (acc * 85 + of_int de, tl buffer))"

text \<open>The bytes of a group leave from the top, by rotating \<open>acc\<close>.\<close>

fun decode_85_bytes :: "nat \<Rightarrow> u32 \<Rightarrow> byte list" where
  "decode_85_bytes 0 acc = []"
| "decode_85_bytes (Suc cnt) acc =
     (let acc = push_bit 8 acc OR drop_bit 24 acc in ucast acc # decode_85_bytes cnt acc)"

function decode_85 :: "string \<Rightarrow> nat \<Rightarrow> base85_error + byte list" where
  "decode_85 buffer len =
     (if len = 0 then Inr []
      else case decode_85_group buffer of
          Inl e \<Rightarrow> Inl e
        | Inr (acc, buffer) \<Rightarrow>
            let cnt = (if len < 4 then len else 4) in
            map_sum id (\<lambda>rest. decode_85_bytes cnt acc @ rest) (decode_85 buffer (len - cnt)))"
  by pat_completeness auto
termination
  by (relation "measure snd") auto

declare decode_85.simps [simp del]

section \<open>The alphabet\<close>

lemma distinct_en85: "distinct en85" and length_en85: "length en85 = 85"
  by (simp_all add: en85_def)

lemma prep_base85_notin: "ch \<notin> set chs \<Longrightarrow> prep_base85 chs i tab ch = tab ch"
  by (induction chs i tab rule: prep_base85.induct) auto

lemma prep_base85_nth:
  "distinct chs \<Longrightarrow> k < length chs \<Longrightarrow> prep_base85 chs i tab (chs ! k) = i + int k + 1"
proof (induction chs i tab arbitrary: k rule: prep_base85.induct)
  case (2 ch chs i tab)
  show ?case
  proof (cases k)
    case 0
    with 2 show ?thesis by (simp add: prep_base85_notin)
  next
    case (Suc j)
    with 2 show ?thesis by (simp del: fun_upd_apply)
  qed
qed simp

lemma de85_en85: "k < 85 \<Longrightarrow> de85 (en85 ! k) = int k + 1"
  using prep_base85_nth [OF distinct_en85, of k 0 "\<lambda>_. 0"] by (simp add: de85_def length_en85)

section \<open>The five digits of a group\<close>

lemma encode_85_digits_append:
  "encode_85_digits n acc buf @ rest = encode_85_digits n acc (buf @ rest)"
  by (induction n acc buf rule: encode_85_digits.induct) simp_all

lemma decode_85_digits_encode:
  "decode_85_digits (n + m) a (encode_85_digits n acc buf) =
   decode_85_digits m (a * 85 ^ n + of_nat (unat acc mod 85 ^ n)) buf"
proof (induction n arbitrary: acc buf m)
  case 0
  then show ?case by simp
next
  case (Suc n)
  let ?d = "unat acc mod 85" and ?q = "unat acc div 85"
  have "unat acc mod (85 * 85 ^ n) = 85 * (?q mod 85 ^ n) + ?d"
    by (rule mod_mult2_eq)
  then have step: "a * 85 ^ Suc n + of_nat (unat acc mod 85 ^ Suc n) =
      (a * 85 ^ n + of_nat (?q mod 85 ^ n)) * 85 + (of_nat ?d :: u32)"
    by (simp add: algebra_simps)
  have u: "unat (acc mod 85) = ?d" "unat (acc div 85) = ?q"
    by (simp_all add: unat_mod_distrib unat_div_distrib)
  have "decode_85_digits (n + Suc m) a (encode_85_digits n (acc div 85) (en85 ! ?d # buf)) =
      decode_85_digits (Suc m) (a * 85 ^ n + of_nat (?q mod 85 ^ n)) (en85 ! ?d # buf)"
    using Suc.IH [of "Suc m" "acc div 85" "en85 ! ?d # buf"] by (simp only: u)
  also have "\<dots> = decode_85_digits m (a * 85 ^ Suc n + of_nat (unat acc mod 85 ^ Suc n)) buf"
    using de85_en85 [of ?d] by (simp only: step) (simp add: Let_def)
  finally show ?case
    by (simp add: u)
qed

lemma u32_digit_split:
  fixes acc :: u32
  shows "unat (acc div 85) = unat acc div 85"
    and "unat (acc div 85 * 85) = unat acc div 85 * 85"
    and "acc div 85 * 85 + of_nat (unat acc mod 85) = acc"
    and "unat (0xffffffff - of_nat (unat acc mod 85) :: u32) = 0xffffffff - unat acc mod 85"
proof -
  let ?d = "unat acc mod 85"
  have lt: "unat acc < 4294967296"
    using unsigned_less [of acc] by simp
  show q: "unat (acc div 85) = unat acc div 85"
    by (simp add: unat_div_distrib)
  have "unat acc div 85 * 85 \<le> unat acc"
    by simp
  then have "unat acc div 85 * 85 < 4294967296"
    using lt by linarith
  then show m: "unat (acc div 85 * 85) = unat acc div 85 * 85"
    by (simp add: unat_word_ariths q)
  have d: "unat (of_nat ?d :: u32) = ?d"
    by (simp add: unat_of_nat)
  have "unat (acc div 85 * 85 + of_nat ?d) = (unat acc div 85 * 85 + ?d) mod 2 ^ 32"
    by (subst unat_word_ariths(1)) (simp only: m d, simp)
  also have "\<dots> = unat acc"
    using lt by simp
  finally show "acc div 85 * 85 + of_nat ?d = acc"
    by (rule word_unat_eqI)
  have le: "?d \<le> 84"
    using mod_less_divisor [of 85 "unat acc"] by simp
  then have "(of_nat ?d :: u32) \<le> 0xffffffff"
    by (simp only: word_le_nat_alt d) simp
  then have "unat (0xffffffff - of_nat ?d :: u32) = unat (0xffffffff :: u32) - unat (of_nat ?d :: u32)"
    by (rule unat_sub)
  then show "unat (0xffffffff - of_nat ?d :: u32) = 0xffffffff - ?d"
    by (simp only: d) simp
qed

lemma decode_85_group_encode:
  "decode_85_group (encode_85_digits 5 acc [] @ rest) = Inr (acc, rest)"
proof -
  let ?d = "unat acc mod 85" and ?q = "acc div 85"
  have lt: "unat acc < 4294967296"
    using unsigned_less [of acc] by simp
  have q: "unat acc div 85 < 85 ^ 4"
    using lt by simp
  then have uq: "unat ?q mod 85 ^ 4 = unat ?q"
    by (simp only: u32_digit_split(1)) simp
  have five: "(5::nat) = Suc 4" by simp
  have "encode_85_digits 5 acc [] @ rest = encode_85_digits 4 ?q (en85 ! ?d # rest)"
    unfolding five encode_85_digits.simps by (simp add: encode_85_digits_append unat_mod_distrib)
  moreover have "decode_85_digits (4 + 0) 0 (encode_85_digits 4 ?q (en85 ! ?d # rest)) =
      decode_85_digits 0 (0 * 85 ^ 4 + of_nat (unat ?q mod 85 ^ 4)) (en85 ! ?d # rest)"
    by (rule decode_85_digits_encode)
  ultimately have digits:
    "decode_85_digits 4 0 (encode_85_digits 5 acc [] @ rest) = Inr (?q, en85 ! ?d # rest)"
    using uq by simp
  have "unat acc div 85 \<le> 50529027" "unat acc div 85 * 85 \<le> 0xffffffff - ?d"
    using lt div_mult_mod_eq [of "unat acc" 85] by (simp, linarith)
  then have "\<not> (0xffffffff div 85 < ?q)" "\<not> (0xffffffff - of_nat ?d < ?q * 85)"
    by (simp_all only: word_less_nat_alt u32_digit_split) simp_all
  then show ?thesis
    using de85_en85 [of ?d] u32_digit_split(3) [of acc]
    by (simp add: decode_85_group_def digits Let_def)
qed

section \<open>The bytes of a group\<close>

definition byte_at :: "nat \<Rightarrow> u32 \<Rightarrow> byte" where
  "byte_at c acc = ucast (drop_bit c acc)"

lemma bit_byte_at: "bit (byte_at c acc) n \<longleftrightarrow> n < 8 \<and> bit acc (n + c)"
  by (auto simp: byte_at_def bit_simps add.commute [of c] dest: bit_imp_le_length)

lemma byte_at_or_same:
  "c + 8 \<le> 32 \<Longrightarrow> byte_at c (acc OR push_bit c (ucast ch)) = byte_at c acc OR ch"
  by (rule bit_word_eqI) (auto simp: bit_byte_at bit_or_iff bit_push_bit_iff bit_ucast_iff)

lemma byte_at_or_other:
  "c \<ge> c' + 8 \<or> c' \<ge> c + 8 \<Longrightarrow>
   byte_at c (acc OR push_bit c' (ucast (ch::byte))) = byte_at c acc"
  by (rule bit_word_eqI)
    (auto simp: bit_byte_at bit_or_iff bit_push_bit_iff bit_ucast_iff dest: bit_imp_le_length)

lemma byte_at_0 [simp]: "byte_at c 0 = 0"
  by (rule bit_word_eqI) (simp add: bit_byte_at)

lemma byte_at_push: "c + 8 \<le> 32 \<Longrightarrow> byte_at c (push_bit c (ucast ch)) = ch"
  using byte_at_or_same [of c 0 ch] by simp

lemma byte_at_push_other:
  "c \<ge> c' + 8 \<or> c' \<ge> c + 8 \<Longrightarrow> byte_at c (push_bit c' (ucast (ch::byte))) = 0"
  using byte_at_or_other [of c' c 0 ch] by simp

lemma rotate_8: "push_bit 8 acc OR drop_bit 24 acc = (word_rotl 8 acc :: u32)"
  by (rule bit_word_eqI) (auto simp: bit_or_iff bit_push_bit_iff bit_drop_bit_eq bit_word_rotl_iff
    mod_if add.commute [of 24] dest: bit_imp_le_length)

lemma word_rotl_rotl: "word_rotl m (word_rotl n w) = word_rotl (m + n) w"
  by (metis word_rot_gal word_rotr_word_rotr_eq add.commute)

lemma decode_85_bytes_rotl:
  "decode_85_bytes n acc = map (\<lambda>k. ucast (word_rotl (8 * Suc k) acc)) [0..<n]"
proof (induction n arbitrary: acc)
  case 0
  then show ?case by simp
next
  case (Suc n)
  have "decode_85_bytes (Suc n) acc = ucast (word_rotl 8 acc) # decode_85_bytes n (word_rotl 8 acc)"
    by (simp add: rotate_8 Let_def)
  also have "\<dots> = map (\<lambda>k. ucast (word_rotl (8 * Suc k) acc)) (0 # map Suc [0..<n])"
    by (simp add: Suc word_rotl_rotl add.commute)
  finally show ?case
    by (simp only: upt_conv_Cons [of 0 "Suc n"] map_Suc_upt zero_less_Suc)
qed

lemma ucast_rotl_byte: "k < 4 \<Longrightarrow> ucast (word_rotl (8 * Suc k) acc) = byte_at (24 - 8 * k) acc"
  by (cases "k = 3"; rule bit_word_eqI)
    (auto simp: bit_byte_at bit_ucast_iff bit_word_rotl_iff mod_if)

lemma decode_85_bytes_byte_at:
  "n \<le> 4 \<Longrightarrow> decode_85_bytes n acc = map (\<lambda>k. byte_at (24 - 8 * k) acc) [0..<n]"
  by (simp add: decode_85_bytes_rotl ucast_rotl_byte del: mult_Suc_right)


lemmas byte_at_simps = byte_at_push byte_at_push_other byte_at_or_same byte_at_or_other
  byte_at_or_same [of 0, simplified] byte_at_or_other [of 0, simplified]

lemma upt_4: "[0..<4] = [0, 1, 2, 3::nat]" "[0..<3] = [0, 1, 2::nat]" "[0..<2] = [0, 1::nat]"
  by (simp_all add: upt_rec)

lemma encode_85_acc_bytes:
  assumes "data \<noteq> []" and "encode_85_acc [24, 16, 8, 0] 0 data = (acc, rest)"
  defines "cnt \<equiv> if length data < 4 then length data else 4"
  shows "decode_85_bytes cnt acc = take 4 data" and "rest = drop 4 data"
proof -
  consider a where "data = [a]" | a b where "data = [a, b]" | a b c where "data = [a, b, c]"
    | a b c d rest' where "data = a # b # c # d # rest'"
    using assms(1) by (metis list.exhaust)
  then have "decode_85_bytes cnt acc = take 4 data \<and> rest = drop 4 data"
  proof cases
    case 1
    then show ?thesis
      using assms(2) by (auto simp: cnt_def decode_85_bytes_byte_at byte_at_simps Let_def simp del: decode_85_bytes.simps)
  next
    case 2
    then show ?thesis
      using assms(2) by (auto simp: cnt_def decode_85_bytes_byte_at byte_at_simps Let_def upt_4 simp del: decode_85_bytes.simps)
  next
    case 3
    then show ?thesis
      using assms(2) by (auto simp: cnt_def decode_85_bytes_byte_at byte_at_simps Let_def upt_4 simp del: decode_85_bytes.simps)
  next
    case 4
    then show ?thesis
      using assms(2) by (auto simp: cnt_def decode_85_bytes_byte_at byte_at_simps Let_def upt_4
          split: if_splits simp del: decode_85_bytes.simps)
  qed
  then show "decode_85_bytes cnt acc = take 4 data" and "rest = drop 4 data"
    by simp_all
qed

text \<open>C8: Round trip: decoding the base-85 text of any byte string, with its length, gives it back.\<close>

theorem decode_encode_85: "decode_85 (encode_85 data) (length data) = Inr data"
proof (induction data rule: encode_85.induct)
  case (1 data)
  show ?case
  proof (cases "data = []")
    case True
    then show ?thesis by (simp add: decode_85.simps)
  next
    case False
    obtain acc rest where acc: "encode_85_acc [24, 16, 8, 0] 0 data = (acc, rest)"
      by fastforce
    define cnt where "cnt = (if length data < 4 then length data else 4)"
    have bytes: "decode_85_bytes cnt acc = take 4 data" and rest: "rest = drop 4 data"
      using encode_85_acc_bytes [OF False acc] unfolding cnt_def by blast+
    have "decode_85 (encode_85 rest) (length rest) = Inr rest"
      using 1 False acc by simp
    moreover have "encode_85 data = encode_85_digits 5 acc [] @ encode_85 rest"
      using False acc by (subst encode_85.simps) simp
    moreover have "length data - cnt = length rest"
      using rest by (auto simp: cnt_def)
    ultimately have "decode_85 (encode_85 data) (length data) =
        Inr (decode_85_bytes cnt acc @ rest)"
      using False
      by (subst decode_85.simps)
        (simp add: decode_85_group_encode cnt_def Let_def del: decode_85_bytes.simps)
    then show ?thesis
      by (simp add: bytes rest)
  qed
qed

lemma length_encode_85_digits: "length (encode_85_digits n acc buf) = n + length buf"
  by (induction n acc buf rule: encode_85_digits.induct) auto

text \<open>Whatever the text, \<open>decode_85\<close> either reports an error or delivers exactly \<open>len\<close> bytes, so it
  never writes past a destination of that size.\<close>

theorem decode_85_length: "decode_85 buffer len = Inr data \<Longrightarrow> length data = len"
proof (induction buffer len arbitrary: data rule: decode_85.induct)
  case (1 buffer len)
  have len: "length (decode_85_bytes n acc) = n" for n acc
    by (induction n arbitrary: acc) (auto simp: Let_def)
  show ?case
  proof (cases "len = 0")
    case True
    with 1 show ?thesis by (simp add: decode_85.simps)
  next
    case False
    with "1.prems" obtain acc buffer' where g: "decode_85_group buffer = Inr (acc, buffer')"
      by (subst (asm) decode_85.simps) (auto split: sum.splits prod.splits)
    then obtain rest where "decode_85 buffer' (len - (if len < 4 then len else 4)) = Inr rest"
      and "data = decode_85_bytes (if len < 4 then len else 4) acc @ rest"
      using "1.prems" False
      by (subst (asm) decode_85.simps) (auto simp: Let_def map_sum_def split: sum.splits)
    then show ?thesis
      using "1.IH" [OF False g refl refl] len by (auto split: if_splits)
  qed
qed

lemma decode_85_length_witness:
  "decode_85 (encode_85 [1, 2, 3]) 3 = Inr [1, 2, 3] \<and> length [1, 2, 3 :: byte] = 3"
proof -
  have "decode_85 (encode_85 [1, 2, 3]) 3 = Inr [1, 2, 3]"
    by code_simp
  with decode_85_length [of "encode_85 [1, 2, 3]" 3 "[1, 2, 3]"] show ?thesis by simp
qed

end
