(* ===== verification/Rabin.thy ===== *)
theory Rabin
  imports Prelude
begin

text \<open>
  The rolling hash of \<^verbatim>\<open>diff-delta.c\<close>: a Rabin fingerprint of a 16-byte window modulo a
  polynomial of degree 31.  \<open>rabin_T\<close> and \<open>rabin_U\<close> are the tables \<open>T\<close> and \<open>U\<close> of the source;
  \<open>rabin_T\<close> reduces the eight bits shifted out at the top, \<open>rabin_U\<close> removes the byte that
  leaves the window.
\<close>

definition rabin_T :: "u32 list" where
  "rabin_T = [
    0x00000000, 0xab59b4d1, 0x56b369a2, 0xfdeadd73, 0x063f6795, 0xad66d344, 0x508c0e37,
    0xfbd5bae6, 0x0c7ecf2a, 0xa7277bfb, 0x5acda688, 0xf1941259, 0x0a41a8bf, 0xa1181c6e,
    0x5cf2c11d, 0xf7ab75cc, 0x18fd9e54, 0xb3a42a85, 0x4e4ef7f6, 0xe5174327, 0x1ec2f9c1,
    0xb59b4d10, 0x48719063, 0xe32824b2, 0x1483517e, 0xbfdae5af, 0x423038dc, 0xe9698c0d,
    0x12bc36eb, 0xb9e5823a, 0x440f5f49, 0xef56eb98, 0x31fb3ca8, 0x9aa28879, 0x6748550a,
    0xcc11e1db, 0x37c45b3d, 0x9c9defec, 0x6177329f, 0xca2e864e, 0x3d85f382, 0x96dc4753,
    0x6b369a20, 0xc06f2ef1, 0x3bba9417, 0x90e320c6, 0x6d09fdb5, 0xc6504964, 0x2906a2fc,
    0x825f162d, 0x7fb5cb5e, 0xd4ec7f8f, 0x2f39c569, 0x846071b8, 0x798aaccb, 0xd2d3181a,
    0x25786dd6, 0x8e21d907, 0x73cb0474, 0xd892b0a5, 0x23470a43, 0x881ebe92, 0x75f463e1,
    0xdeadd730, 0x63f67950, 0xc8afcd81, 0x354510f2, 0x9e1ca423, 0x65c91ec5, 0xce90aa14,
    0x337a7767, 0x9823c3b6, 0x6f88b67a, 0xc4d102ab, 0x393bdfd8, 0x92626b09, 0x69b7d1ef,
    0xc2ee653e, 0x3f04b84d, 0x945d0c9c, 0x7b0be704, 0xd05253d5, 0x2db88ea6, 0x86e13a77,
    0x7d348091, 0xd66d3440, 0x2b87e933, 0x80de5de2, 0x7775282e, 0xdc2c9cff, 0x21c6418c,
    0x8a9ff55d, 0x714a4fbb, 0xda13fb6a, 0x27f92619, 0x8ca092c8, 0x520d45f8, 0xf954f129,
    0x04be2c5a, 0xafe7988b, 0x5432226d, 0xff6b96bc, 0x02814bcf, 0xa9d8ff1e, 0x5e738ad2,
    0xf52a3e03, 0x08c0e370, 0xa39957a1, 0x584ced47, 0xf3155996, 0x0eff84e5, 0xa5a63034,
    0x4af0dbac, 0xe1a96f7d, 0x1c43b20e, 0xb71a06df, 0x4ccfbc39, 0xe79608e8, 0x1a7cd59b,
    0xb125614a, 0x468e1486, 0xedd7a057, 0x103d7d24, 0xbb64c9f5, 0x40b17313, 0xebe8c7c2,
    0x16021ab1, 0xbd5bae60, 0x6cb54671, 0xc7ecf2a0, 0x3a062fd3, 0x915f9b02, 0x6a8a21e4,
    0xc1d39535, 0x3c394846, 0x9760fc97, 0x60cb895b, 0xcb923d8a, 0x3678e0f9, 0x9d215428,
    0x66f4eece, 0xcdad5a1f, 0x3047876c, 0x9b1e33bd, 0x7448d825, 0xdf116cf4, 0x22fbb187,
    0x89a20556, 0x7277bfb0, 0xd92e0b61, 0x24c4d612, 0x8f9d62c3, 0x7836170f, 0xd36fa3de,
    0x2e857ead, 0x85dcca7c, 0x7e09709a, 0xd550c44b, 0x28ba1938, 0x83e3ade9, 0x5d4e7ad9,
    0xf617ce08, 0x0bfd137b, 0xa0a4a7aa, 0x5b711d4c, 0xf028a99d, 0x0dc274ee, 0xa69bc03f,
    0x5130b5f3, 0xfa690122, 0x0783dc51, 0xacda6880, 0x570fd266, 0xfc5666b7, 0x01bcbbc4,
    0xaae50f15, 0x45b3e48d, 0xeeea505c, 0x13008d2f, 0xb85939fe, 0x438c8318, 0xe8d537c9,
    0x153feaba, 0xbe665e6b, 0x49cd2ba7, 0xe2949f76, 0x1f7e4205, 0xb427f6d4, 0x4ff24c32,
    0xe4abf8e3, 0x19412590, 0xb2189141, 0x0f433f21, 0xa41a8bf0, 0x59f05683, 0xf2a9e252,
    0x097c58b4, 0xa225ec65, 0x5fcf3116, 0xf49685c7, 0x033df00b, 0xa86444da, 0x558e99a9,
    0xfed72d78, 0x0502979e, 0xae5b234f, 0x53b1fe3c, 0xf8e84aed, 0x17bea175, 0xbce715a4,
    0x410dc8d7, 0xea547c06, 0x1181c6e0, 0xbad87231, 0x4732af42, 0xec6b1b93, 0x1bc06e5f,
    0xb099da8e, 0x4d7307fd, 0xe62ab32c, 0x1dff09ca, 0xb6a6bd1b, 0x4b4c6068, 0xe015d4b9,
    0x3eb80389, 0x95e1b758, 0x680b6a2b, 0xc352defa, 0x3887641c, 0x93ded0cd, 0x6e340dbe,
    0xc56db96f, 0x32c6cca3, 0x999f7872, 0x6475a501, 0xcf2c11d0, 0x34f9ab36, 0x9fa01fe7,
    0x624ac294, 0xc9137645, 0x26459ddd, 0x8d1c290c, 0x70f6f47f, 0xdbaf40ae, 0x207afa48,
    0x8b234e99, 0x76c993ea, 0xdd90273b, 0x2a3b52f7, 0x8162e626, 0x7c883b55, 0xd7d18f84,
    0x2c043562, 0x875d81b3, 0x7ab75cc0, 0xd1eee811]"

definition rabin_U :: "u32 list" where
  "rabin_U = [
    0x00000000, 0x7eb5200d, 0x5633f4cb, 0x2886d4c6, 0x073e5d47, 0x798b7d4a, 0x510da98c,
    0x2fb88981, 0x0e7cba8e, 0x70c99a83, 0x584f4e45, 0x26fa6e48, 0x0942e7c9, 0x77f7c7c4,
    0x5f711302, 0x21c4330f, 0x1cf9751c, 0x624c5511, 0x4aca81d7, 0x347fa1da, 0x1bc7285b,
    0x65720856, 0x4df4dc90, 0x3341fc9d, 0x1285cf92, 0x6c30ef9f, 0x44b63b59, 0x3a031b54,
    0x15bb92d5, 0x6b0eb2d8, 0x4388661e, 0x3d3d4613, 0x39f2ea38, 0x4747ca35, 0x6fc11ef3,
    0x11743efe, 0x3eccb77f, 0x40799772, 0x68ff43b4, 0x164a63b9, 0x378e50b6, 0x493b70bb,
    0x61bda47d, 0x1f088470, 0x30b00df1, 0x4e052dfc, 0x6683f93a, 0x1836d937, 0x250b9f24,
    0x5bbebf29, 0x73386bef, 0x0d8d4be2, 0x2235c263, 0x5c80e26e, 0x740636a8, 0x0ab316a5,
    0x2b7725aa, 0x55c205a7, 0x7d44d161, 0x03f1f16c, 0x2c4978ed, 0x52fc58e0, 0x7a7a8c26,
    0x04cfac2b, 0x73e5d470, 0x0d50f47d, 0x25d620bb, 0x5b6300b6, 0x74db8937, 0x0a6ea93a,
    0x22e87dfc, 0x5c5d5df1, 0x7d996efe, 0x032c4ef3, 0x2baa9a35, 0x551fba38, 0x7aa733b9,
    0x041213b4, 0x2c94c772, 0x5221e77f, 0x6f1ca16c, 0x11a98161, 0x392f55a7, 0x479a75aa,
    0x6822fc2b, 0x1697dc26, 0x3e1108e0, 0x40a428ed, 0x61601be2, 0x1fd53bef, 0x3753ef29,
    0x49e6cf24, 0x665e46a5, 0x18eb66a8, 0x306db26e, 0x4ed89263, 0x4a173e48, 0x34a21e45,
    0x1c24ca83, 0x6291ea8e, 0x4d29630f, 0x339c4302, 0x1b1a97c4, 0x65afb7c9, 0x446b84c6,
    0x3adea4cb, 0x1258700d, 0x6ced5000, 0x4355d981, 0x3de0f98c, 0x15662d4a, 0x6bd30d47,
    0x56ee4b54, 0x285b6b59, 0x00ddbf9f, 0x7e689f92, 0x51d01613, 0x2f65361e, 0x07e3e2d8,
    0x7956c2d5, 0x5892f1da, 0x2627d1d7, 0x0ea10511, 0x7014251c, 0x5facac9d, 0x21198c90,
    0x099f5856, 0x772a785b, 0x4c921c31, 0x32273c3c, 0x1aa1e8fa, 0x6414c8f7, 0x4bac4176,
    0x3519617b, 0x1d9fb5bd, 0x632a95b0, 0x42eea6bf, 0x3c5b86b2, 0x14dd5274, 0x6a687279,
    0x45d0fbf8, 0x3b65dbf5, 0x13e30f33, 0x6d562f3e, 0x506b692d, 0x2ede4920, 0x06589de6,
    0x78edbdeb, 0x5755346a, 0x29e01467, 0x0166c0a1, 0x7fd3e0ac, 0x5e17d3a3, 0x20a2f3ae,
    0x08242768, 0x76910765, 0x59298ee4, 0x279caee9, 0x0f1a7a2f, 0x71af5a22, 0x7560f609,
    0x0bd5d604, 0x235302c2, 0x5de622cf, 0x725eab4e, 0x0ceb8b43, 0x246d5f85, 0x5ad87f88,
    0x7b1c4c87, 0x05a96c8a, 0x2d2fb84c, 0x539a9841, 0x7c2211c0, 0x029731cd, 0x2a11e50b,
    0x54a4c506, 0x69998315, 0x172ca318, 0x3faa77de, 0x411f57d3, 0x6ea7de52, 0x1012fe5f,
    0x38942a99, 0x46210a94, 0x67e5399b, 0x19501996, 0x31d6cd50, 0x4f63ed5d, 0x60db64dc,
    0x1e6e44d1, 0x36e89017, 0x485db01a, 0x3f77c841, 0x41c2e84c, 0x69443c8a, 0x17f11c87,
    0x38499506, 0x46fcb50b, 0x6e7a61cd, 0x10cf41c0, 0x310b72cf, 0x4fbe52c2, 0x67388604,
    0x198da609, 0x36352f88, 0x48800f85, 0x6006db43, 0x1eb3fb4e, 0x238ebd5d, 0x5d3b9d50,
    0x75bd4996, 0x0b08699b, 0x24b0e01a, 0x5a05c017, 0x728314d1, 0x0c3634dc, 0x2df207d3,
    0x534727de, 0x7bc1f318, 0x0574d315, 0x2acc5a94, 0x54797a99, 0x7cffae5f, 0x024a8e52,
    0x06852279, 0x78300274, 0x50b6d6b2, 0x2e03f6bf, 0x01bb7f3e, 0x7f0e5f33, 0x57888bf5,
    0x293dabf8, 0x08f998f7, 0x764cb8fa, 0x5eca6c3c, 0x207f4c31, 0x0fc7c5b0, 0x7172e5bd,
    0x59f4317b, 0x27411176, 0x1a7c5765, 0x64c97768, 0x4c4fa3ae, 0x32fa83a3, 0x1d420a22,
    0x63f72a2f, 0x4b71fee9, 0x35c4dee4, 0x1400edeb, 0x6ab5cde6, 0x42331920, 0x3c86392d,
    0x133eb0ac, 0x6d8b90a1, 0x450d4467, 0x3bb8646a]"

definition RABIN_SHIFT :: nat where "RABIN_SHIFT = 23"
definition RABIN_WINDOW :: nat where "RABIN_WINDOW = 16"

definition rabin_append :: "u32 \<Rightarrow> byte \<Rightarrow> u32" where
  "rabin_append val c = (push_bit 8 val OR ucast c) XOR rabin_T ! unat (drop_bit RABIN_SHIFT val)"

text \<open>The hash of a block from scratch, \<open>val = 0\<close> and then one step per byte.\<close>

definition rabin_hash :: "byte list \<Rightarrow> u32" where
  "rabin_hash cs = foldl rabin_append 0 cs"

text \<open>One byte out, one byte in.\<close>

definition rabin_roll :: "u32 \<Rightarrow> byte \<Rightarrow> byte \<Rightarrow> u32" where
  "rabin_roll val old new = rabin_append (val XOR rabin_U ! unat old) new"

section \<open>The tables are linear\<close>

text \<open>
  Both tables are the span over GF(2) of their entries at the powers of two, listed from the
  highest; the checks below run over all 256 entries.
\<close>

fun span :: "u32 list \<Rightarrow> u32 list" where
  "span [] = [0]"
| "span (b # bs) = span bs @ map ((XOR) b) (span bs)"

lemma length_span: "length (span bs) = 2 ^ length bs"
  by (induction bs) auto

lemma nth_span_Cons:
  assumes "i < 2 ^ Suc (length bs)"
  shows "span (b # bs) ! i = (if bit i (length bs) then b else 0) XOR span bs ! take_bit (length bs) i"
proof (cases "i < 2 ^ length bs")
  case True
  then have "\<not> bit i (length bs)" "take_bit (length bs) i = i"
    using nat_bit_lt by (blast, simp add: take_bit_nat_eq_self)
  with True show ?thesis by (simp add: nth_append length_span)
next
  case False
  define j where "j = i - 2 ^ length bs"
  have j: "i = 2 ^ length bs + j" "j < 2 ^ length bs"
    using False assms by (auto simp: j_def)
  then have "bit i (length bs)" "take_bit (length bs) i = j"
    by (simp_all add: bit_iff_odd take_bit_eq_mod div_add_self1)
  with j show ?thesis by (simp add: nth_append length_span)
qed

lemma span_xor:
  "i < 2 ^ length bs \<Longrightarrow> j < 2 ^ length bs \<Longrightarrow>
   span bs ! (i XOR j) = span bs ! i XOR span bs ! j"
proof (induction bs arbitrary: i j)
  case Nil
  then show ?case by simp
next
  case (Cons b bs)
  have lt: "i XOR j < 2 ^ Suc (length bs)"
    using Cons.prems by (metis length_Cons take_bit_nat_eq_self_iff take_bit_xor)
  have "span bs ! take_bit (length bs) (i XOR j) =
      span bs ! take_bit (length bs) i XOR span bs ! take_bit (length bs) j"
    using Cons.IH [of "take_bit (length bs) i" "take_bit (length bs) j"] by (simp add: take_bit_xor)
  then show ?case
    using Cons.prems lt by (simp add: nth_span_Cons bit_xor_iff xor.assoc xor.left_commute del: span.simps)
qed

definition rabin_basis :: "u32 list \<Rightarrow> u32 list" where
  "rabin_basis tab = map (\<lambda>i. tab ! i) [128, 64, 32, 16, 8, 4, 2, 1]"

lemma rabin_T_span: "rabin_T = span (rabin_basis rabin_T)"
  by code_simp

lemma rabin_U_span: "rabin_U = span (rabin_basis rabin_U)"
  by code_simp


lemma length_rabin_tables: "length rabin_T = 256" "length rabin_U = 256"
  by (simp_all add: rabin_T_def rabin_U_def)

lemma length_rabin_basis: "length (rabin_basis tab) = 8"
  by (simp add: rabin_basis_def)

lemma rabin_T_xor:
  assumes "i < 256" "j < 256"
  shows "rabin_T ! (i XOR j) = rabin_T ! i XOR rabin_T ! j"
proof -
  have "span (rabin_basis rabin_T) ! (i XOR j) =
      span (rabin_basis rabin_T) ! i XOR span (rabin_basis rabin_T) ! j"
    by (rule span_xor) (simp_all add: length_rabin_basis assms)
  then show ?thesis by (simp only: rabin_T_span [symmetric])
qed

lemma rabin_T_tops: "map (\<lambda>t. bit t 31) rabin_T = map odd [0..<256]"
  by code_simp

lemma rabin_T_top: "i < 256 \<Longrightarrow> bit (rabin_T ! i) 31 \<longleftrightarrow> odd i"
  using rabin_T_tops by (metis (no_types, lifting) add_0 length_map length_rabin_tables(1) length_upt nth_map nth_upt diff_zero)

lemma rabin_T_0: "rabin_T ! 0 = 0"
  by (simp add: rabin_T_def)

lemma span_hom:
  assumes "\<And>i j. i < 2 ^ n \<Longrightarrow> j < 2 ^ n \<Longrightarrow> h (i XOR j) = h i XOR h j" "i < 2 ^ n"
  shows "span (map (\<lambda>k. h (2 ^ k)) (rev [0..<n])) ! i = h i"
  using assms
proof (induction n arbitrary: i)
  case 0
  then have "h 0 = h 0 XOR h 0" by (metis less_one power_0 xor.right_neutral)
  with 0 show ?case by simp
next
  case (Suc n)
  let ?bs = "map (\<lambda>k. h (2 ^ k)) (rev [0..<n])"
  have "h 0 = h 0 XOR h 0"
    using Suc.prems(1) [of 0 0] by simp
  then have h0: "h 0 = 0" by simp
  have IH: "span ?bs ! take_bit n i = h (take_bit n i)"
    by (rule Suc.IH) (use Suc.prems(1) in \<open>simp_all add: take_bit_nat_less_exp\<close>)
  have split: "i = (if bit i n then 2 ^ n else 0) XOR take_bit n i"
  proof (rule bit_eqI)
    fix k
    have "bit i k \<Longrightarrow> k < Suc n"
      using Suc.prems(2) by (rule nat_bit_lt)
    then show "bit i k \<longleftrightarrow> bit ((if bit i n then 2 ^ n else 0) XOR take_bit n i) k"
      by (cases "k = n") (auto simp: bit_xor_iff bit_exp_iff bit_take_bit_iff)
  qed
  have "h i = h ((if bit i n then 2 ^ n else 0) XOR take_bit n i)"
    using split by simp
  also have "\<dots> = h (if bit i n then 2 ^ n else 0) XOR h (take_bit n i)"
    by (rule Suc.prems(1)) (auto intro: less_trans [OF take_bit_nat_less_exp])
  finally have "h i = h (if bit i n then 2 ^ n else 0) XOR h (take_bit n i)" .
  then show ?case
    using nth_span_Cons [of i ?bs "h (2 ^ n)"] Suc.prems(2) IH h0
    by (auto simp del: span.simps)
qed

section \<open>The hash stays below \<open>2^31\<close>, so the tables are never read out of range\<close>

lemma rabin_index: "\<not> bit (v::u32) 31 \<Longrightarrow> unat (drop_bit RABIN_SHIFT v) < 256"
proof -
  assume "\<not> bit v 31"
  then have "n < 32 \<Longrightarrow> bit v n \<Longrightarrow> n < 31" for n
    by (cases "n = 31") simp_all
  then have "take_bit 31 v = v"
    by (intro bit_word_eqI) (auto simp: bit_take_bit_iff)
  then have "unat v < 2 ^ 31"
    by (metis take_bit_nat_less_exp unsigned_take_bit_eq)
  then have "unat v < 256 * 2 ^ 23" by simp
  then have "unat v div 2 ^ 23 < 256" by (rule less_mult_imp_div_less)
  then show ?thesis by (simp add: RABIN_SHIFT_def unat_drop_bit)
qed

lemma rabin_append_top:
  assumes "\<not> bit v 31"
  shows "\<not> bit (rabin_append v c) 31"
proof -
  have "bit (unat (drop_bit 23 v)) 0 \<longleftrightarrow> bit v 23"
    by (simp add: bit_unsigned_iff bit_drop_bit_eq del: bit_0)
  then have "odd (unat (drop_bit RABIN_SHIFT v)) \<longleftrightarrow> bit v 23"
    by (simp add: RABIN_SHIFT_def bit_0)
  then show ?thesis
    using rabin_T_top [OF rabin_index [OF assms]]
    by (auto simp: rabin_append_def bit_simps dest: bit_imp_le_length)
qed

lemma rabin_append_xor:
  assumes "\<not> bit v 31" "\<not> bit w 31"
  shows "rabin_append (v XOR w) (c XOR d) = rabin_append v c XOR rabin_append w d"
proof -
  have or: "push_bit 8 u OR ucast (e::byte) = push_bit 8 u XOR ucast e" for u :: u32 and e
    by (rule bit_word_eqI) (auto simp: bit_simps dest: bit_imp_le_length)
  have shift: "push_bit 8 (v XOR w) = push_bit 8 v XOR push_bit 8 w"
    by (simp add: push_bit_xor)
  have uc: "ucast (c XOR d) = (ucast c XOR ucast d :: u32)"
    by (simp add: unsigned_xor_eq)
  have "rabin_T ! unat (drop_bit RABIN_SHIFT (v XOR w)) =
      rabin_T ! unat (drop_bit RABIN_SHIFT v) XOR rabin_T ! unat (drop_bit RABIN_SHIFT w)"
    using rabin_T_xor [OF assms [THEN rabin_index]] by (simp add: drop_bit_xor unsigned_xor_eq)
  then show ?thesis
    unfolding rabin_append_def or
    unfolding shift uc by (simp only: ac_simps)
qed

lemma rabin_append_0: "rabin_append 0 c = ucast c"
  by (simp add: rabin_append_def rabin_T_0)

lemma rabin_hash_from_top: "\<not> bit v 31 \<Longrightarrow> \<not> bit (foldl rabin_append v cs) 31"
  by (induction cs arbitrary: v) (simp_all add: rabin_append_top)

lemma rabin_hash_from_xor:
  "\<not> bit v 31 \<Longrightarrow> \<not> bit w 31 \<Longrightarrow> length zs = length cs \<Longrightarrow> set zs \<subseteq> {0} \<Longrightarrow>
   foldl rabin_append (v XOR w) cs = foldl rabin_append v cs XOR foldl rabin_append w zs"
proof (induction cs arbitrary: v w zs)
  case Nil
  then show ?case by simp
next
  case (Cons c cs)
  then obtain zs' where zs: "zs = 0 # zs'" "length zs' = length cs" "set zs' \<subseteq> {0}"
    by (cases zs) auto
  have "rabin_append (v XOR w) c = rabin_append v c XOR rabin_append w 0"
    using rabin_append_xor [OF Cons.prems(1,2), of c 0] by simp
  with Cons.IH [OF rabin_append_top [OF Cons.prems(1)] rabin_append_top [OF Cons.prems(2)] zs(2,3)] zs(1)
  show ?case by simp
qed

text \<open>Bit 31 of a fingerprint is never set, so \<open>val >> RABIN_SHIFT\<close> is always an index into the
  256 entries of \<open>T\<close>.\<close>

theorem rabin_hash_bound: "\<not> bit (rabin_hash cs) 31"
  by (simp add: rabin_hash_def rabin_hash_from_top)

section \<open>Rolling the window is recomputing the hash\<close>

definition rabin_out :: "nat \<Rightarrow> u32" where
  "rabin_out i = foldl rabin_append (of_nat i) (replicate 15 0)"

lemma unat_of_nat_u32_small: "i < 256 \<Longrightarrow> unat (of_nat i :: u32) = i"
  by (simp add: unat_of_nat)

lemma not_bit_31_small: "i < 256 \<Longrightarrow> \<not> bit (of_nat i :: u32) 31"
proof
  assume i: "i < 256" and "bit (of_nat i :: u32) 31"
  then have "bit (unat (of_nat i :: u32)) 31"
    by (simp only: bit_unsigned_iff possible_bit_def) simp
  then have "bit i 31"
    by (simp only: unat_of_nat_u32_small [OF i])
  then have "31 < (8::nat)"
    using nat_bit_lt [of i 8 31] i by simp
  then show False by simp
qed

lemma rabin_out_xor:
  assumes "i < 2 ^ 8" "j < 2 ^ 8"
  shows "rabin_out (i XOR j) = rabin_out i XOR rabin_out j"
proof -
  have "i XOR j < 2 ^ 8"
    using assms by (metis take_bit_nat_eq_self_iff take_bit_xor)
  then have "(of_nat (i XOR j) :: u32) = of_nat i XOR of_nat j"
    using assms by (intro word_unat_eqI) (simp add: unat_of_nat_u32_small unsigned_xor_eq)
  then show ?thesis
    using rabin_hash_from_xor [of "of_nat i" "of_nat j" "replicate 15 0" "replicate 15 0"]
      not_bit_31_small assms
    by (simp add: rabin_out_def)
qed

lemma replicate_15: "replicate 15 x = [x, x, x, x, x, x, x, x, x, x, x, x, x, x, x]"
  by (simp add: numeral_eq_Suc)

lemma rabin_U_basis:
  "rabin_out 1 = rabin_U ! 1" "rabin_out 2 = rabin_U ! 2"
  "rabin_out 4 = rabin_U ! 4" "rabin_out 8 = rabin_U ! 8"
  "rabin_out 16 = rabin_U ! 16" "rabin_out 32 = rabin_U ! 32"
  "rabin_out 64 = rabin_U ! 64" "rabin_out 128 = rabin_U ! 128"
  by (simp_all add: rabin_out_def rabin_append_def RABIN_SHIFT_def rabin_T_def replicate_15 rabin_U_def)

lemma rabin_U_nth:
  assumes "i < 256"
  shows "rabin_U ! i = rabin_out i"
proof -
  have "span (map (\<lambda>k. rabin_out (2 ^ k)) (rev [0..<8])) ! i = rabin_out i"
    using assms by (intro span_hom rabin_out_xor) simp_all
  moreover have "map (\<lambda>k. rabin_out (2 ^ k)) (rev [0..<8]) = rabin_basis rabin_U"
    by (simp add: upt_rec rabin_basis_def rabin_U_basis [simplified])
  ultimately show ?thesis by (simp only: rabin_U_span [symmetric])
qed

text \<open>C7: Rolling is recomputing: removing the oldest byte with \<open>U\<close> and shifting in a new one with
  \<open>T\<close> gives the fingerprint of the shifted 16-byte window, for all bytes.  This
  checks the two generated tables against each other.\<close>

theorem rabin_roll_correct:
  assumes "length ws = RABIN_WINDOW - 1"
  shows "rabin_roll (rabin_hash (old # ws)) old new = rabin_hash (ws @ [new])"
proof -
  let ?x = "ucast old :: u32"
  have x: "of_nat (unat old) = ?x"
    by (intro word_unat_eqI) (simp add: unat_of_nat_u32_small unsigned_ucast_eq take_bit_nat_eq_self
      less_trans [OF unat_byte_lt])
  have zs: "length (replicate 15 (0::byte)) = length ws"
    using assms by (simp add: RABIN_WINDOW_def)
  have top: "\<not> bit ?x 31"
    using not_bit_31_small [OF unat_byte_lt [of old]] by (simp add: x)
  have "rabin_U ! unat old = foldl rabin_append ?x (replicate 15 0)"
    by (simp only: rabin_U_nth unat_byte_lt rabin_out_def x)
  moreover have "foldl rabin_append (0 XOR ?x) ws =
      foldl rabin_append 0 ws XOR foldl rabin_append ?x (replicate 15 0)"
    using rabin_hash_from_xor [of 0 ?x "replicate 15 0" ws] top zs by simp
  ultimately have "rabin_hash (old # ws) XOR rabin_U ! unat old = rabin_hash ws"
    by (simp add: rabin_hash_def rabin_append_0 xor.assoc)
  then show ?thesis
    by (simp add: rabin_roll_def rabin_hash_def)
qed

lemma rabin_roll_correct_witness:
  "rabin_roll (rabin_hash (1 # replicate 15 2)) 1 3 = rabin_hash (replicate 15 2 @ [3])"
  using rabin_roll_correct [of "replicate 15 2" 1 3] by (simp add: RABIN_WINDOW_def)

end
