(* ===== verification/Patch_Delta.thy ===== *)
theory Patch_Delta
  imports Prelude
begin

text \<open>
  \<^verbatim>\<open>patch-delta.c\<close> and \<^verbatim>\<open>delta.h\<close>: the delta format of pack files.  A delta is two sizes (of the source and of the target) and a
  sequence of operations: copy a range of the source, or insert literal bytes.
\<close>

section \<open>Applying a delta\<close>

text \<open>
  Outcomes of the C functions: a result, a \<open>NULL\<close> return, a call of \<open>die()\<close>, and
  undefined behaviour (a read past the end of the buffer, a shift by 64 or more).
\<close>

datatype 'a delta_outcome = Ok 'a | Null | Died | Undefined

definition SIZE_MAX :: nat where "SIZE_MAX = 0xffffffffffffffff"

definition unsigned_left_shift_overflows :: "nat \<Rightarrow> nat \<Rightarrow> bool" where
  "unsigned_left_shift_overflows a shift \<longleftrightarrow> shift < 64 \<and> a > drop_bit shift SIZE_MAX"

text \<open>
  \<open>st_left_shift\<close> dies when the overflow test fires.  The test never fires for a shift of 64
  or more, and the shift that follows is then undefined in C.
\<close>

definition st_left_shift :: "nat \<Rightarrow> nat \<Rightarrow> nat delta_outcome" where
  "st_left_shift a shift =
     (if unsigned_left_shift_overflows a shift then Died
      else if 64 \<le> shift then Undefined
      else Ok (push_bit shift a))"

text \<open>
  The header loop is a do-while: it reads a byte before it compares \<open>data\<close> with \<open>top\<close>.  The
  list holds the bytes between the two, so the empty list is a read at \<open>top\<close>.
\<close>

fun get_delta_hdr_loop :: "nat \<Rightarrow> nat \<Rightarrow> byte list \<Rightarrow> (nat \<times> byte list) delta_outcome" where
  "get_delta_hdr_loop i sz [] = Undefined"
| "get_delta_hdr_loop i sz (cmd # data) =
     (case st_left_shift (unat (cmd AND 127)) i of
        Ok a \<Rightarrow>
          let sz = sz OR a in
          if cmd AND 128 \<noteq> 0 \<and> data \<noteq> [] then get_delta_hdr_loop (i + 7) sz data
          else Ok (sz, data)
      | Null \<Rightarrow> Null | Died \<Rightarrow> Died | Undefined \<Rightarrow> Undefined)"

definition get_delta_hdr_size :: "byte list \<Rightarrow> (nat \<times> byte list) delta_outcome" where
  "get_delta_hdr_size data = get_delta_hdr_loop 0 0 data"

lemma nat_or_less: "(a::nat) < 2 ^ k \<Longrightarrow> b < 2 ^ k \<Longrightarrow> a OR b < 2 ^ k"
  by (metis take_bit_nat_eq_self_iff take_bit_or)

lemma or_le_SIZE_MAX: "a \<le> SIZE_MAX \<Longrightarrow> b \<le> SIZE_MAX \<Longrightarrow> a OR b \<le> SIZE_MAX"
  using nat_or_less [of a 64 b] by (simp add: SIZE_MAX_def)

lemma st_left_shift_le: "st_left_shift a shift = Ok b \<Longrightarrow> b \<le> SIZE_MAX"
proof -
  assume "st_left_shift a shift = Ok b"
  then have "a \<le> SIZE_MAX div 2 ^ shift" "b = a * 2 ^ shift"
    by (auto simp: st_left_shift_def unsigned_left_shift_overflows_def push_bit_eq_mult
        drop_bit_eq_div split: if_splits)
  then show ?thesis
    by (metis div_times_less_eq_dividend le_trans mult_le_mono1)
qed

lemma get_delta_hdr_loop_le:
  "get_delta_hdr_loop i sz data = Ok (n, rest) \<Longrightarrow> sz \<le> SIZE_MAX \<Longrightarrow> n \<le> SIZE_MAX"
  by (induction i sz data rule: get_delta_hdr_loop.induct)
    (auto simp: Let_def or_le_SIZE_MAX dest: st_left_shift_le split: delta_outcome.splits if_splits)

lemma get_delta_hdr_size_le: "get_delta_hdr_size data = Ok (n, rest) \<Longrightarrow> n \<le> SIZE_MAX"
  using get_delta_hdr_loop_le [of 0 0 data n rest] by (simp add: get_delta_hdr_size_def)

definition DELTA_SIZE_MIN :: nat where "DELTA_SIZE_MIN = 4"

text \<open>\<open>PARSE_CP_PARAM(bit, var, shift)\<close>; \<open>None\<close> is the jump to \<open>bad_length\<close>.\<close>

definition parse_cp_param :: "byte \<Rightarrow> byte \<Rightarrow> nat \<Rightarrow> nat \<times> byte list \<Rightarrow> (nat \<times> byte list) option" where
  "parse_cp_param cmd b shift = (\<lambda>(var, data).
     if cmd AND b \<noteq> 0 then
       (case data of
          [] \<Rightarrow> None
        | d # data \<Rightarrow> Some (var OR push_bit shift (unat d), data))
     else Some (var, data))"

definition parse_cp_off :: "byte \<Rightarrow> byte list \<Rightarrow> (nat \<times> byte list) option" where
  "parse_cp_off cmd data =
     Option.bind (parse_cp_param cmd 0x01 0 (0, data)) (\<lambda>p.
     Option.bind (parse_cp_param cmd 0x02 8 p) (\<lambda>p.
     Option.bind (parse_cp_param cmd 0x04 16 p) (\<lambda>p.
     parse_cp_param cmd 0x08 24 p)))"

definition parse_cp_size :: "byte \<Rightarrow> byte list \<Rightarrow> (nat \<times> byte list) option" where
  "parse_cp_size cmd data =
     Option.bind (parse_cp_param cmd 0x10 0 (0, data)) (\<lambda>p.
     Option.bind (parse_cp_param cmd 0x20 8 p) (\<lambda>p.
     parse_cp_param cmd 0x40 16 p))"

definition parse_copy :: "byte \<Rightarrow> byte list \<Rightarrow> (nat \<times> nat \<times> byte list) option" where
  "parse_copy cmd data =
     Option.bind (parse_cp_off cmd data) (\<lambda>(cp_off, data).
     Option.bind (parse_cp_size cmd data) (\<lambda>(cp_size, data).
     Some (cp_off, if cp_size = 0 then 0x10000 else cp_size, data)))"

lemma parse_cp_param_length:
  "parse_cp_param cmd b shift p = Some q \<Longrightarrow> length (snd q) \<le> length (snd p)"
  by (auto simp: parse_cp_param_def split: prod.splits if_splits list.splits)

lemma parse_copy_length:
  "parse_copy cmd data = Some (off, n, rest) \<Longrightarrow> length rest \<le> length data"
  unfolding parse_copy_def parse_cp_off_def parse_cp_size_def
  by (fastforce simp: bind_eq_Some_conv dest: parse_cp_param_length)

text \<open>
  The main loop, over the bytes from \<open>data\<close> to \<open>top\<close>; \<open>sz\<close> is what is left of the
  target and \<open>out\<close> the part already written.
\<close>

function patch_delta_loop :: "byte list \<Rightarrow> byte list \<Rightarrow> nat \<Rightarrow> byte list \<Rightarrow> byte list delta_outcome" where
  "patch_delta_loop src [] sz out = (if sz \<noteq> 0 then Null else Ok out)"
| "patch_delta_loop src (cmd # data) sz out =
     (if cmd AND 0x80 \<noteq> 0 then
        (case parse_copy cmd data of
           None \<Rightarrow> Null
         | Some (cp_off, cp_size, data') \<Rightarrow>
             if cp_size > SIZE_MAX - cp_off \<or> cp_off + cp_size > length src \<or> cp_size > sz
             then Null
             else patch_delta_loop src data' (sz - cp_size) (out @ take cp_size (drop cp_off src)))
      else if cmd \<noteq> 0 then
        (if unat cmd > sz \<or> unat cmd > length data then Null
         else patch_delta_loop src (drop (unat cmd) data) (sz - unat cmd) (out @ take (unat cmd) data))
      else Null)"
  by pat_completeness auto
termination
  by (relation "measure (\<lambda>(src, data, sz, out). length data)")
    (auto dest!: parse_copy_length)

text \<open>
  \<open>patch_delta\<close>.  \<open>xmallocz(sz)\<close> dies when \<open>sz + 1\<close> overflows; memory is otherwise
  taken to be available.
\<close>

definition patch_delta :: "byte list \<Rightarrow> byte list \<Rightarrow> byte list delta_outcome" where
  "patch_delta src delta =
     (if length delta < DELTA_SIZE_MIN then Null
      else case get_delta_hdr_size delta of
          Ok (sz, data) \<Rightarrow>
            if sz \<noteq> length src then Null
            else (case get_delta_hdr_size data of
                Ok (sz, data) \<Rightarrow>
                  if sz = SIZE_MAX then Died else patch_delta_loop src data sz []
              | Null \<Rightarrow> Null | Died \<Rightarrow> Died | Undefined \<Rightarrow> Undefined)
        | Null \<Rightarrow> Null | Died \<Rightarrow> Died | Undefined \<Rightarrow> Undefined)"

section \<open>What a delta means\<close>

datatype delta_op = Copy nat nat | Insert "byte list"

inductive delta_ops :: "byte list \<Rightarrow> delta_op list \<Rightarrow> bool" where
  ops_done: "delta_ops [] []"
| ops_copy: "cmd AND 0x80 \<noteq> 0 \<Longrightarrow> parse_copy cmd data = Some (off, n, rest) \<Longrightarrow> delta_ops rest ops \<Longrightarrow>
     delta_ops (cmd # data) (Copy off n # ops)"
| ops_insert: "cmd AND 0x80 = 0 \<Longrightarrow> cmd \<noteq> 0 \<Longrightarrow> length bytes = unat cmd \<Longrightarrow> delta_ops rest ops \<Longrightarrow>
     delta_ops (cmd # bytes @ rest) (Insert bytes # ops)"

inductive_cases delta_ops_NilE: "delta_ops [] ops"
inductive_cases delta_ops_ConsE: "delta_ops (cmd # data) ops"

fun run_op :: "byte list \<Rightarrow> delta_op \<Rightarrow> byte list" where
  "run_op src (Copy off n) = take n (drop off src)"
| "run_op src (Insert bytes) = bytes"

fun op_in_range :: "byte list \<Rightarrow> delta_op \<Rightarrow> bool" where
  "op_in_range src (Copy off n) \<longleftrightarrow> off + n \<le> length src"
| "op_in_range src (Insert bytes) \<longleftrightarrow> True"

lemma patch_delta_loop_sound:
  "patch_delta_loop src data sz out = Ok t \<Longrightarrow>
   \<exists>ops. delta_ops data ops \<and> list_all (op_in_range src) ops \<and>
     t = out @ concat (map (run_op src) ops) \<and> length t = length out + sz"
proof (induction src data sz out rule: patch_delta_loop.induct)
  case (1 src sz out)
  then show ?case
    by (intro exI [of _ "[]"]) (auto intro: delta_ops.ops_done split: if_splits)
next
  case (2 src cmd data sz out)
  show ?case
  proof (cases "cmd AND 0x80 \<noteq> 0")
    case True
    with "2.prems" obtain off n rest where p: "parse_copy cmd data = Some (off, n, rest)"
      and r: "off + n \<le> length src" "n \<le> sz" "\<not> n > SIZE_MAX - off"
      and ok: "patch_delta_loop src rest (sz - n) (out @ take n (drop off src)) = Ok t"
      by (auto split: option.splits if_splits)
    from "2.IH"(1) [OF True p refl refl _ ok] r obtain ops where "delta_ops rest ops"
      "list_all (op_in_range src) ops"
      "t = (out @ take n (drop off src)) @ concat (map (run_op src) ops)" "length t = length out + sz"
      by auto
    then show ?thesis
      using True p r by (intro exI [of _ "Copy off n # ops"]) (auto intro: delta_ops.ops_copy)
  next
    case False
    with "2.prems" have c: "cmd \<noteq> 0" and r: "unat cmd \<le> sz" "unat cmd \<le> length data"
      and ok: "patch_delta_loop src (drop (unat cmd) data) (sz - unat cmd) (out @ take (unat cmd) data) = Ok t"
      by (auto split: if_splits)
    from "2.IH"(2) [OF False c _ ok] r obtain ops where ops: "delta_ops (drop (unat cmd) data) ops"
      "list_all (op_in_range src) ops"
      "t = (out @ take (unat cmd) data) @ concat (map (run_op src) ops)" "length t = length out + sz"
      by auto
    have "delta_ops (cmd # take (unat cmd) data @ drop (unat cmd) data) (Insert (take (unat cmd) data) # ops)"
      using False c r ops(1) by (intro delta_ops.ops_insert) auto
    then show ?thesis
      using ops by (intro exI [of _ "Insert (take (unat cmd) data) # ops"]) auto
  qed
qed

lemma patch_delta_loop_complete:
  "delta_ops data ops \<Longrightarrow> list_all (op_in_range src) ops \<Longrightarrow> length src \<le> SIZE_MAX \<Longrightarrow>
   length (concat (map (run_op src) ops)) = sz \<Longrightarrow>
   patch_delta_loop src data sz out = Ok (out @ concat (map (run_op src) ops))"
proof (induction data ops arbitrary: sz out rule: delta_ops.induct)
  case ops_done
  then show ?case by simp
next
  case (ops_copy cmd data off n rest ops)
  then show ?case by auto
next
  case (ops_insert cmd bytes rest ops)
  then show ?case by auto
qed


text \<open>C3: \<open>patch_delta\<close> returns a target exactly when the delta is at least \<open>DELTA_SIZE_MIN\<close> bytes, its
  first size is that of the source, the bytes after the two sizes are a sequence of whole copy
  and insert operations with every copy inside the source, and what they write has the second
  size; the target is then what the operations write.\<close>

theorem patch_delta_iff:
  assumes "length src \<le> SIZE_MAX"
  shows "patch_delta src delta = Ok t \<longleftrightarrow>
    DELTA_SIZE_MIN \<le> length delta \<and> length t < SIZE_MAX \<and>
    (\<exists>rest data ops.
       get_delta_hdr_size delta = Ok (length src, rest) \<and>
       get_delta_hdr_size rest = Ok (length t, data) \<and>
       delta_ops data ops \<and> list_all (op_in_range src) ops \<and>
       t = concat (map (run_op src) ops))"
    (is "?lhs \<longleftrightarrow> ?rhs")
proof
  assume ?lhs
  then obtain rest sz data where h: "get_delta_hdr_size delta = Ok (length src, rest)"
    "get_delta_hdr_size rest = Ok (sz, data)" "sz \<noteq> SIZE_MAX" "DELTA_SIZE_MIN \<le> length delta"
    and loop: "patch_delta_loop src data sz [] = Ok t"
    by (auto simp: patch_delta_def split: delta_outcome.splits if_splits)
  moreover have "sz \<le> SIZE_MAX"
    using h(2) get_delta_hdr_size_le by blast
  ultimately show ?rhs
    using patch_delta_loop_sound [OF loop] by (auto simp: order_le_less)
next
  assume ?rhs
  then show ?lhs
    using assms by (auto simp: patch_delta_def patch_delta_loop_complete)
qed

lemma patch_delta_iff_witness:
  "patch_delta [1, 2, 3] [3, 2, 0x91, 1, 2] = Ok [2, 3]"
proof -
  have "delta_ops [0x91, 1, 2] [Copy 1 2]"
    by (rule delta_ops.ops_copy [of _ _ _ _ "[]"])
      (simp_all add: delta_ops.ops_done parse_copy_def parse_cp_off_def parse_cp_size_def parse_cp_param_def)
  then show ?thesis
    using patch_delta_iff [of "[1, 2, 3]" "[3, 2, 0x91, 1, 2]" "[2, 3]"]
    by (simp add: SIZE_MAX_def DELTA_SIZE_MIN_def get_delta_hdr_size_def st_left_shift_def
        unsigned_left_shift_overflows_def) (intro exI [of _ "[Copy 1 2]"], simp)
qed

text \<open>
  A delta whose source size is followed by nothing but continuation bytes makes the second
  header read the byte at \<open>top\<close>, one past its end.
\<close>

lemma delta_header_overread:
  "patch_delta [0, 0, 0, 0, 0] [0x85, 0x80, 0x80, 0x00] = Undefined"
  by (simp add: patch_delta_def DELTA_SIZE_MIN_def get_delta_hdr_size_def st_left_shift_def
      unsigned_left_shift_overflows_def SIZE_MAX_def)

end
