(* ===== verification/Delta_Index.thy ===== *)
theory Delta_Index
  imports Patch_Delta Rabin
begin

text \<open>
  \<^verbatim>\<open>create_delta_index\<close> of \<^verbatim>\<open>diff-delta.c\<close>: the hash index over the 16-byte blocks of
  the delta source.
\<close>

section \<open>Indexing the source\<close>

record index_entry =
  ie_ptr :: nat
  ie_val :: u32

text \<open>
  A finished index.  \<open>di_hash ! i\<close> is the slice of the packed entries from \<open>hash[i]\<close> up to
  \<open>hash[i + 1]\<close>; pointers are offsets into the source.
\<close>

record delta_index =
  di_src :: "byte list"
  di_hash_mask :: nat
  di_hash :: "index_entry list list"

definition HASH_LIMIT :: nat where "HASH_LIMIT = 64"

text \<open>\<open>for (i = 4; (1u << i) < hsize; i++)\<close>.\<close>

function delta_hash_bits :: "nat \<Rightarrow> nat \<Rightarrow> nat" where
  "delta_hash_bits hsize i = (if push_bit i 1 < hsize then delta_hash_bits hsize (i + 1) else i)"
  by pat_completeness auto
termination
  by (relation "measure (\<lambda>(hsize, i). hsize - i)")
    (auto simp: push_bit_eq_mult intro: diff_less_mono2 less_trans [OF less_exp])

declare delta_hash_bits.simps [simp del]

text \<open>
  While the index is populated, \<open>pi_entry\<close> is the array that \<open>entry\<close> walks, \<open>pi_hash ! i\<close>
  the linked list of bucket \<open>i\<close> as positions in that array, head first, and \<open>pi_entries\<close>
  the variable \<open>entries\<close>.
\<close>

record populate_state =
  pi_entry :: "index_entry list"
  pi_hash :: "nat list list"
  pi_hash_count :: "nat list"
  pi_prev_val :: u32
  pi_entries :: nat

text \<open>
  A block whose hash is that of the block before it moves \<open>entry[-1]\<close> down instead of taking
  a new entry; \<open>None\<close> is that write before the array.
\<close>

definition populate_block :: "byte list \<Rightarrow> nat \<Rightarrow> nat \<Rightarrow> populate_state \<Rightarrow> populate_state option" where
  "populate_block buffer hmask data s =
     (let val = rabin_hash (take RABIN_WINDOW (drop (data + 1) buffer)) in
      if val = pi_prev_val s then
        (if pi_entry s = [] then None
         else Some (s\<lparr>pi_entry := (pi_entry s)[length (pi_entry s) - 1 :=
                (pi_entry s ! (length (pi_entry s) - 1))\<lparr>ie_ptr := data + RABIN_WINDOW\<rparr>],
            pi_entries := pi_entries s - 1\<rparr>))
      else
        let i = unat val AND hmask in
        Some (s\<lparr>pi_prev_val := val,
          pi_entry := pi_entry s @ [\<lparr>ie_ptr = data + RABIN_WINDOW, ie_val = val\<rparr>],
          pi_hash := (pi_hash s)[i := length (pi_entry s) # pi_hash s ! i],
          pi_hash_count := (pi_hash_count s)[i := pi_hash_count s ! i + 1]\<rparr>))"

text \<open>The blocks are visited from the last to the first, \<open>n\<close> of them.\<close>

fun populate_index :: "byte list \<Rightarrow> nat \<Rightarrow> nat \<Rightarrow> populate_state \<Rightarrow> populate_state option" where
  "populate_index buffer hmask 0 s = Some s"
| "populate_index buffer hmask (Suc n) s =
     Option.bind (populate_block buffer hmask (n * RABIN_WINDOW) s) (populate_index buffer hmask n)"

text \<open>
  Thinning out a long bucket.  A list stands for the node \<open>entry\<close> points to and its
  successors, the empty list for \<open>NULL\<close>; \<open>None\<close> is a \<open>NULL\<close> dereference.
\<close>

fun cull_skip :: "int \<Rightarrow> 'a list \<Rightarrow> (int \<times> 'a list) option" where
  "cull_skip acc [] = None"
| "cull_skip acc (entry # next) =
     (let acc = acc - int HASH_LIMIT in
      if acc > 0 then cull_skip acc next else Some (acc, next))"

lemma cull_skip_length: "cull_skip acc xs = Some (acc', ys) \<Longrightarrow> length ys < length xs"
  by (induction acc xs rule: cull_skip.induct) (auto simp: Let_def split: if_splits)

function cull_bucket :: "nat \<Rightarrow> int \<Rightarrow> 'a list \<Rightarrow> 'a list option" where
  "cull_bucket excess acc [] = None"
| "cull_bucket excess acc (entry # next) =
     (let acc = acc + int excess in
      if acc > 0 then
        (case cull_skip acc (entry # next) of
           Some (acc, _ # next) \<Rightarrow>
             if next = [] then Some [entry]
             else map_option (Cons entry) (cull_bucket excess acc next)
         | _ \<Rightarrow> None)
      else if next = [] then Some [entry]
      else map_option (Cons entry) (cull_bucket excess acc next))"
  by pat_completeness auto
termination
  by (relation "measure (\<lambda>(_, _, xs). length xs)") (auto simp del: cull_skip.simps dest!: cull_skip_length)

fun cull_buckets :: "nat list \<Rightarrow> nat list list \<Rightarrow> nat list list option" where
  "cull_buckets (count # counts) (bucket # buckets) =
     Option.bind (if count \<le> HASH_LIMIT then Some bucket
                  else cull_bucket (count - HASH_LIMIT) 0 bucket) (\<lambda>bucket.
     Option.bind (cull_buckets counts buckets) (\<lambda>buckets. Some (bucket # buckets)))"
| "cull_buckets _ _ = Some []"

text \<open>
  \<open>create_delta_index\<close>; the second component of the result is the final value of \<open>entries\<close>,
  which the C code asserts to be the number of packed entries.
\<close>

definition index_entries :: "nat \<Rightarrow> nat" where
  "index_entries bufsize =
     (if bufsize \<ge> 0xffffffff then 0xfffffffe div RABIN_WINDOW else (bufsize - 1) div RABIN_WINDOW)"

definition create_delta_index :: "byte list \<Rightarrow> (delta_index \<times> nat) delta_outcome" where
  "create_delta_index buf =
     (if buf = [] then Null
      else
        let entries = index_entries (length buf);
            hsize = push_bit (delta_hash_bits (entries div 4) 4) 1;
            hmask = hsize - 1 in
        case populate_index buf hmask entries
            \<lparr>pi_entry = [], pi_hash = replicate hsize [], pi_hash_count = replicate hsize 0,
             pi_prev_val = NOT 0, pi_entries = entries\<rparr> of
          None \<Rightarrow> Undefined
        | Some s \<Rightarrow>
           (case cull_buckets (pi_hash_count s) (pi_hash s) of
              None \<Rightarrow> Undefined
            | Some hash \<Rightarrow>
                Ok (\<lparr>di_src = buf, di_hash_mask = hmask,
                     di_hash = map (map (\<lambda>e. pi_entry s ! e)) hash\<rparr>,
                    pi_entries s - sum_list (map (\<lambda>c. c - HASH_LIMIT) (pi_hash_count s)))))"

section \<open>Thinning out leaves exactly \<open>HASH_LIMIT\<close> entries\<close>

lemma cull_skip_drop:
  "0 < acc \<Longrightarrow> acc \<le> int HASH_LIMIT * int (length xs) \<Longrightarrow>
   \<exists>j. cull_skip acc xs = Some (acc - int HASH_LIMIT * int j, drop j xs) \<and>
     acc - int HASH_LIMIT * int j \<le> 0 \<and> - int HASH_LIMIT < acc - int HASH_LIMIT * int j"
proof (induction acc xs rule: cull_skip.induct)
  case (1 acc)
  then show ?case by simp
next
  case (2 acc entry "next")
  show ?case
  proof (cases "0 < acc - int HASH_LIMIT")
    case True
    with "2.prems" have "acc - int HASH_LIMIT \<le> int HASH_LIMIT * int (length next)"
      by (simp add: algebra_simps)
    from "2.IH" [OF refl True True this] obtain j where
      "cull_skip (acc - int HASH_LIMIT) next = Some (acc - int HASH_LIMIT - int HASH_LIMIT * int j, drop j next)"
      "acc - int HASH_LIMIT - int HASH_LIMIT * int j \<le> 0"
      "- int HASH_LIMIT < acc - int HASH_LIMIT - int HASH_LIMIT * int j" by blast
    with True show ?thesis
      by (intro exI [of _ "Suc j"]) (simp add: algebra_simps)
  next
    case False
    with "2.prems" show ?thesis
      by (intro exI [of _ 1]) (simp add: HASH_LIMIT_def)
  qed
qed

text \<open>
  The accumulator argument of the comment in the code, with \<open>k\<close> the number of entries still
  to be kept.
\<close>

lemma cull_bucket_turn:
  assumes "int HASH_LIMIT * int (length xs) = int (Suc k) * (int HASH_LIMIT + int excess) + acc"
    and "- int HASH_LIMIT < acc" "acc \<le> 0"
  obtains e rest acc' where
    "cull_bucket excess acc xs =
       (if rest = [] then Some [e] else map_option (Cons e) (cull_bucket excess acc' rest))"
    "int HASH_LIMIT * int (length rest) = int k * (int HASH_LIMIT + int excess) + acc'"
    "- int HASH_LIMIT < acc'" "acc' \<le> 0" "set (e # rest) \<subseteq> set xs"
proof -
  have big: "int HASH_LIMIT + int excess + acc \<le> int HASH_LIMIT * int (length xs)"
    using assms(1) by (simp add: algebra_simps)
  then obtain e es where xs: "xs = e # es"
    using assms(2) by (cases xs) auto
  show ?thesis
  proof (cases "0 < acc + int excess")
    case False
    then show ?thesis
      using that [of es e "acc + int excess"] assms xs by (auto simp: algebra_simps)
  next
    case True
    moreover have "acc + int excess \<le> int HASH_LIMIT * int (length xs)"
      using big by (simp add: HASH_LIMIT_def)
    ultimately obtain j where j: "cull_skip (acc + int excess) xs =
        Some (acc + int excess - int HASH_LIMIT * int j, drop j xs)"
      "acc + int excess - int HASH_LIMIT * int j \<le> 0"
      "- int HASH_LIMIT < acc + int excess - int HASH_LIMIT * int j"
      using cull_skip_drop [of "acc + int excess" xs] by blast
    have "int HASH_LIMIT * int j < int HASH_LIMIT * int (length xs)"
      using j(3) big by simp
    then have "j < length xs" by (simp add: HASH_LIMIT_def)
    then obtain y rest where d: "drop j xs = y # rest" "rest = drop (Suc j) xs"
      using Cons_nth_drop_Suc [of j xs] by metis
    have "length rest = length xs - Suc j"
      by (simp add: d(2))
    then have "int HASH_LIMIT * int (length rest) =
        int k * (int HASH_LIMIT + int excess) + (acc + int excess - int HASH_LIMIT * int j)"
      using assms(1) \<open>j < length xs\<close> by (simp add: of_nat_diff algebra_simps)
    moreover have "set (e # rest) \<subseteq> set xs"
      using set_drop_subset [of "Suc j" xs] d(2) xs by auto
    moreover have "cull_bucket excess acc xs = (if rest = [] then Some [e]
        else map_option (Cons e) (cull_bucket excess (acc + int excess - int HASH_LIMIT * int j) rest))"
      using True j(1) d(1) by (simp add: xs Let_def del: cull_skip.simps)
    ultimately show ?thesis
      using that j(2,3) by blast
  qed
qed

lemma cull_bucket_keeps:
  "int HASH_LIMIT * int (length xs) = int (Suc k) * (int HASH_LIMIT + int excess) + acc \<Longrightarrow>
   - int HASH_LIMIT < acc \<Longrightarrow> acc \<le> 0 \<Longrightarrow>
   \<exists>ys. cull_bucket excess acc xs = Some ys \<and> length ys = Suc k \<and> set ys \<subseteq> set xs"
proof (induction k arbitrary: xs acc)
  case (0 xs acc)
  from cull_bucket_turn [OF 0] obtain e rest acc' where t: "cull_bucket excess acc xs =
       (if rest = [] then Some [e] else map_option (Cons e) (cull_bucket excess acc' rest))"
    "int HASH_LIMIT * int (length rest) = int 0 * (int HASH_LIMIT + int excess) + acc'"
    "- int HASH_LIMIT < acc'" "acc' \<le> 0" "set (e # rest) \<subseteq> set xs" .
  then have "rest = []"
    by (cases rest) (auto simp: HASH_LIMIT_def)
  with t show ?case by auto
next
  case (Suc k xs acc)
  from cull_bucket_turn [OF Suc.prems] obtain e rest acc' where t: "cull_bucket excess acc xs =
       (if rest = [] then Some [e] else map_option (Cons e) (cull_bucket excess acc' rest))"
    "int HASH_LIMIT * int (length rest) = int (Suc k) * (int HASH_LIMIT + int excess) + acc'"
    "- int HASH_LIMIT < acc'" "acc' \<le> 0" "set (e # rest) \<subseteq> set xs" .
  have "0 \<le> int k * (int HASH_LIMIT + int excess)" by simp
  moreover have "int (Suc k) * (int HASH_LIMIT + int excess) =
      int HASH_LIMIT + int excess + int k * (int HASH_LIMIT + int excess)"
    by (simp add: algebra_simps)
  ultimately have "0 < int HASH_LIMIT * int (length rest)"
    using t(2,3) by linarith
  then have "rest \<noteq> []" by auto
  with t Suc.IH [OF t(2-4)] show ?case by auto
qed

lemma cull_bucket_limit:
  "length xs = HASH_LIMIT + excess \<Longrightarrow>
   \<exists>ys. cull_bucket excess 0 xs = Some ys \<and> length ys = HASH_LIMIT \<and> set ys \<subseteq> set xs"
  using cull_bucket_keeps [of xs "HASH_LIMIT - 1" excess 0] by (simp add: HASH_LIMIT_def algebra_simps)

lemma cull_buckets_limit:
  "\<exists>culled. cull_buckets (map length buckets) buckets = Some culled \<and>
     list_all2 (\<lambda>c b. length c = min HASH_LIMIT (length b) \<and> set c \<subseteq> set b) culled buckets"
proof (induction buckets)
  case Nil
  then show ?case by simp
next
  case (Cons b buckets)
  then show ?case
    using cull_bucket_limit [of b "length b - HASH_LIMIT"] by (cases "length b \<le> HASH_LIMIT") auto
qed

section \<open>Populating the index\<close>

definition populate_inv :: "byte list \<Rightarrow> nat \<Rightarrow> nat \<Rightarrow> populate_state \<Rightarrow> bool" where
  "populate_inv buffer hmask n s \<longleftrightarrow>
     length (pi_hash s) = Suc hmask \<and>
     pi_hash_count s = map length (pi_hash s) \<and>
     (\<forall>b \<in> set (pi_hash s). \<forall>p \<in> set b. p < length (pi_entry s)) \<and>
     (\<forall>e \<in> set (pi_entry s). ie_ptr e < length buffer \<and> ie_ptr e < 2 ^ 32) \<and>
     pi_entries s = n + length (pi_entry s) \<and>
     sum_list (pi_hash_count s) = length (pi_entry s) \<and>
     (pi_entry s = [] \<longrightarrow> pi_prev_val s = NOT 0)"

lemma rabin_hash_not_ones: "rabin_hash cs \<noteq> NOT 0"
proof
  assume "rabin_hash cs = NOT 0"
  then have "bit (rabin_hash cs) 31" by (simp add: bit_simps)
  then show False using rabin_hash_from_top [of 0 cs] by (simp add: rabin_hash_def)
qed

lemma nat_and_le2: "(n::nat) AND m \<le> m"
  using AND_upper2 [of "int m" "int n"] by (simp add: of_nat_and_eq [symmetric] del: of_nat_and_eq)

lemma populate_block_inv:
  assumes "populate_inv buffer hmask (Suc n) s"
    and "Suc n * RABIN_WINDOW < length buffer" "Suc n * RABIN_WINDOW < 2 ^ 32"
  shows "\<exists>s'. populate_block buffer hmask (n * RABIN_WINDOW) s = Some s' \<and> populate_inv buffer hmask n s'"
proof -
  let ?val = "rabin_hash (take RABIN_WINDOW (drop (n * RABIN_WINDOW + 1) buffer))"
  have ptr: "n * RABIN_WINDOW + RABIN_WINDOW < length buffer" "n * RABIN_WINDOW + RABIN_WINDOW < 2 ^ 32"
    using assms(2,3) by simp_all
  show ?thesis
  proof (cases "?val = pi_prev_val s")
    case True
    then have ne: "pi_entry s \<noteq> []"
      using assms(1) rabin_hash_not_ones by (auto simp: populate_inv_def)
    then have "pi_entry s ! (length (pi_entry s) - 1) \<in> set (pi_entry s)"
      by simp
    with ne True ptr assms(1) show ?thesis
      by (auto simp: populate_inv_def populate_block_def Let_def dest!: set_update_subset_insert [THEN subsetD])
  next
    case False
    let ?i = "unat ?val AND hmask"
    have i: "?i < length (pi_hash s)"
      using assms(1) nat_and_le2 by (simp add: populate_inv_def less_Suc_eq_le)
    have "map length ((pi_hash s)[?i := length (pi_entry s) # pi_hash s ! ?i]) =
        (map length (pi_hash s))[?i := map length (pi_hash s) ! ?i + 1]"
      using i by (simp add: map_update)
    moreover have "sum_list ((map length (pi_hash s))[?i := map length (pi_hash s) ! ?i + 1]) =
        sum_list (map length (pi_hash s)) + 1"
      using i by (subst sum_list_update) (simp_all add: elem_le_sum_list)
    moreover have "pi_hash s ! ?i \<in> set (pi_hash s)"
      using i by simp
    ultimately show ?thesis
      using False ptr assms(1)
      by (auto simp: populate_inv_def populate_block_def Let_def less_Suc_eq
          dest!: set_update_subset_insert [THEN subsetD])
  qed
qed

lemma populate_index_inv:
  "populate_inv buffer hmask n s \<Longrightarrow> n * RABIN_WINDOW < length buffer \<Longrightarrow> n * RABIN_WINDOW < 2 ^ 32 \<Longrightarrow>
   \<exists>s'. populate_index buffer hmask n s = Some s' \<and> populate_inv buffer hmask 0 s'"
proof (induction n arbitrary: s)
  case 0
  then show ?case by simp
next
  case (Suc n)
  from populate_block_inv [OF Suc.prems] obtain s' where
    "populate_block buffer hmask (n * RABIN_WINDOW) s = Some s'" "populate_inv buffer hmask n s'" by blast
  with Suc.IH [of s'] Suc.prems show ?case by simp
qed

section \<open>The finished index\<close>

definition entry_ok :: "byte list \<Rightarrow> index_entry \<Rightarrow> bool" where
  "entry_ok src e \<longleftrightarrow> ie_ptr e \<le> length src \<and> ie_ptr e < 2 ^ 32"

definition index_ok :: "delta_index \<Rightarrow> bool" where
  "index_ok index \<longleftrightarrow> list_all (list_all (entry_ok (di_src index))) (di_hash index) \<and>
     length (di_hash index) = di_hash_mask index + 1"

lemma index_entries_bound:
  assumes "buf \<noteq> []"
  shows "index_entries (length buf) * RABIN_WINDOW < length buf"
    "index_entries (length buf) * RABIN_WINDOW < 2 ^ 32"
proof -
  have "index_entries (length buf) * RABIN_WINDOW \<le>
      (if length buf \<ge> 0xffffffff then 0xfffffffe else length buf - 1)"
    by (simp add: index_entries_def div_times_less_eq_dividend)
  moreover have "length buf > 0" using assms by simp
  ultimately show "index_entries (length buf) * RABIN_WINDOW < length buf"
    "index_entries (length buf) * RABIN_WINDOW < 2 ^ 32"
    by (simp_all split: if_splits del: length_greater_0_conv)
qed

lemma sum_list_min: "sum_list (map (min (k::nat)) xs) = sum_list xs - sum_list (map (\<lambda>c. c - k) xs)"
proof -
  have "sum_list (map (min k) xs) + sum_list (map (\<lambda>c. c - k) xs) = sum_list xs"
    by (induction xs) auto
  then show ?thesis by simp
qed

lemma list_all2_map_eq: "list_all2 (\<lambda>c b. f c = g b) cs bs \<Longrightarrow> map f cs = map g bs"
  by (induction rule: list_all2_induct) auto

lemma create_delta_index_result:
  assumes "buf \<noteq> []"
  obtains index entries where "create_delta_index buf = Ok (index, entries)"
    "di_src index = buf" "index_ok index" "list_all (\<lambda>b. length b \<le> HASH_LIMIT) (di_hash index)"
    "entries = sum_list (map length (di_hash index))"
proof -
  define hmask where "hmask = push_bit (delta_hash_bits (index_entries (length buf) div 4) 4) 1 - (1::nat)"
  define s0 where "s0 = \<lparr>pi_entry = [], pi_hash = replicate (Suc hmask) [], pi_hash_count = replicate (Suc hmask) 0,
             pi_prev_val = NOT 0, pi_entries = index_entries (length buf)\<rparr>"
  have hsize: "push_bit (delta_hash_bits (index_entries (length buf) div 4) 4) (1::nat) = Suc hmask"
    by (simp add: hmask_def push_bit_eq_mult)
  have "populate_inv buf hmask (index_entries (length buf)) s0"
    by (auto simp: populate_inv_def s0_def sum_list_replicate simp del: replicate_Suc)
  with populate_index_inv index_entries_bound [OF assms] obtain s where
    s: "populate_index buf hmask (index_entries (length buf)) s0 = Some s" and inv: "populate_inv buf hmask 0 s"
    by blast
  obtain hash where hash: "cull_buckets (pi_hash_count s) (pi_hash s) = Some hash"
    and culled: "list_all2 (\<lambda>c b. length c = min HASH_LIMIT (length b) \<and> set c \<subseteq> set b) hash (pi_hash s)"
    using cull_buckets_limit [of "pi_hash s"] inv by (auto simp: populate_inv_def)
  let ?index = "\<lparr>di_src = buf, di_hash_mask = hmask, di_hash = map (map (\<lambda>e. pi_entry s ! e)) hash\<rparr>"
  let ?entries = "pi_entries s - sum_list (map (\<lambda>c. c - HASH_LIMIT) (pi_hash_count s))"
  have len: "length hash = Suc hmask"
    using culled inv by (auto simp: populate_inv_def dest: list_all2_lengthD)
  have sub: "\<exists>b \<in> set (pi_hash s). length c = min HASH_LIMIT (length b) \<and> set c \<subseteq> set b"
    if c: "c \<in> set hash" for c
  proof -
    obtain i where "i < length hash" "c = hash ! i"
      using c by (auto simp: in_set_conv_nth)
    with culled show ?thesis
      by (intro bexI [of _ "pi_hash s ! i"]) (auto simp: list_all2_conv_all_nth)
  qed
  have ok: "index_ok ?index"
  proof -
    have "entry_ok buf (pi_entry s ! p)" if "c \<in> set hash" "p \<in> set c" for c p
    proof -
      have "p < length (pi_entry s)"
        using sub [OF that(1)] that(2) inv by (auto simp: populate_inv_def)
      then have "pi_entry s ! p \<in> set (pi_entry s)" by simp
      with inv show ?thesis by (auto simp: populate_inv_def entry_ok_def intro: less_imp_le)
    qed
    with len show ?thesis by (simp add: index_ok_def list_all_iff)
  qed
  have limit: "list_all (\<lambda>b. length b \<le> HASH_LIMIT) (di_hash ?index)"
  proof -
    have "length b \<le> HASH_LIMIT" if "b \<in> set hash" for b
      using sub [OF that] by auto
    then show ?thesis by (simp add: list_all_iff)
  qed
  have "map length hash = map (\<lambda>b. min HASH_LIMIT (length b)) (pi_hash s)"
    using culled by (intro list_all2_map_eq) (auto elim: list_all2_mono)
  also have "\<dots> = map (min HASH_LIMIT) (pi_hash_count s)"
    using inv by (simp add: populate_inv_def)
  finally have "map length (di_hash ?index) = map (min HASH_LIMIT) (pi_hash_count s)"
    by (simp add: comp_def)
  then have "sum_list (map length (di_hash ?index)) =
      sum_list (pi_hash_count s) - sum_list (map (\<lambda>c. c - HASH_LIMIT) (pi_hash_count s))"
    by (simp only: sum_list_min)
  moreover have "sum_list (pi_hash_count s) = pi_entries s"
    using inv unfolding populate_inv_def by linarith
  ultimately have "sum_list (map length (di_hash ?index)) = ?entries" by (simp only:)
  moreover have "create_delta_index buf = Ok (?index, ?entries)"
    using assms s hash unfolding create_delta_index_def Let_def hmask_def [symmetric] hsize s0_def
    by simp
  ultimately show ?thesis
    by (intro that [OF _ _ ok limit]) (simp_all only: delta_index.simps)
qed

text \<open>C4: For every non-empty source \<open>create_delta_index\<close> returns an index: no bucket walk dereferences
  \<open>NULL\<close>, no write goes before the entry array, every bucket has at most \<open>HASH_LIMIT\<close> entries,
  each of them pointing into the source at an offset that fits 32 bits, and the final value of
  \<open>entries\<close> is the number of packed entries, which is what the code asserts.\<close>

theorem create_delta_index_correct:
  assumes "buf \<noteq> []"
  shows "\<exists>index entries. create_delta_index buf = Ok (index, entries) \<and> di_src index = buf \<and>
    length (di_hash index) = di_hash_mask index + 1 \<and>
    list_all (\<lambda>b. length b \<le> HASH_LIMIT) (di_hash index) \<and>
    list_all (list_all (\<lambda>e. ie_ptr e \<le> length buf \<and> ie_ptr e < 2 ^ 32)) (di_hash index) \<and>
    entries = sum_list (map length (di_hash index))"
proof -
  obtain index entries where "create_delta_index buf = Ok (index, entries)"
    "di_src index = buf" "index_ok index" "list_all (\<lambda>b. length b \<le> HASH_LIMIT) (di_hash index)"
    "entries = sum_list (map length (di_hash index))"
    using create_delta_index_result [OF assms] .
  then show ?thesis by (simp add: index_ok_def entry_ok_def [abs_def])
qed

lemma create_delta_index_correct_witness:
  "\<exists>index entries. create_delta_index [1, 2, 3] = Ok (index, entries) \<and>
    entries = sum_list (map length (di_hash index))"
  using create_delta_index_correct [of "[1, 2, 3]"] by auto

end
