(* ===== verification/Create_Delta.thy ===== *)
theory Create_Delta
  imports Delta_Index
begin

text \<open>
  \<^verbatim>\<open>create_delta\<close> of \<^verbatim>\<open>diff-delta.c\<close>: the greedy search that turns an index of the
  source and a target into a delta, and the theorem that \<open>patch_delta\<close> undoes it.
\<close>

section \<open>Computing a delta\<close>

definition MAX_OP_SIZE :: nat where "MAX_OP_SIZE = 5 + 5 + 1 + RABIN_WINDOW + 7"

function put_delta_size :: "nat \<Rightarrow> byte list" where
  "put_delta_size l =
     (if l \<ge> 0x80 then of_nat (l OR 0x80) # put_delta_size (drop_bit 7 l) else [of_nat l])"
  by pat_completeness auto
termination
  by (relation "measure id") (auto simp: drop_bit_eq_div)

declare put_delta_size.simps [simp del]

text \<open>\<open>while (ref_size-- && *src++ == *ref) ref++\<close>.\<close>

fun match_length :: "nat \<Rightarrow> 'a list \<Rightarrow> 'a list \<Rightarrow> nat" where
  "match_length (Suc n) (x # xs) (y # ys) = (if x = y then Suc (match_length n xs ys) else 0)"
| "match_length _ _ _ = 0"

text \<open>The search through one bucket, with the best match so far as \<open>(msize, moff)\<close>.\<close>

definition ref_size :: "byte list \<Rightarrow> index_entry \<Rightarrow> nat" where
  "ref_size src e = (length src - ie_ptr e) mod 2 ^ 32"

primrec find_match :: "byte list \<Rightarrow> byte list \<Rightarrow> nat \<Rightarrow> u32 \<Rightarrow> index_entry list \<Rightarrow> nat \<times> nat \<Rightarrow> nat \<times> nat" where
  "find_match src trg data val [] best = best"
| "find_match src trg data val (e # es) best =
     (let (msize, moff) = best;
          refsize = ref_size src e in
      if ie_val e \<noteq> val then find_match src trg data val es best
      else
        let refsize = (if refsize > length trg - data then length trg - data else refsize) in
        if refsize \<le> msize then best
        else
          let n = match_length refsize (drop data trg) (drop (ie_ptr e) src) in
          if msize < n then
            (if n \<ge> 4096 then (n, ie_ptr e) else find_match src trg data val es (n, ie_ptr e))
          else find_match src trg data val es best)"

record create_state =
  cs_out :: "byte list"
  cs_outsize :: nat
  cs_data :: nat
  cs_val :: u32
  cs_inscnt :: int
  cs_moff :: nat
  cs_msize :: nat

text \<open>
  \<open>out[outpos - inscnt - 1] = inscnt\<close>.  After a backward match that swallowed the whole
  pending insertion \<open>inscnt\<close> is \<open>-1\<close> and the write goes to \<open>out[outpos]\<close>, which the next
  operation overwrites: on the list of written bytes it has no effect.
\<close>

definition put_inscnt :: "byte list \<Rightarrow> int \<Rightarrow> byte list" where
  "put_inscnt out inscnt = out[nat (int (length out) - inscnt - 1) := of_int inscnt]"

fun back_match :: "byte list \<Rightarrow> byte list \<Rightarrow> nat \<Rightarrow> nat \<Rightarrow> nat \<Rightarrow> byte list \<Rightarrow> int
    \<Rightarrow> nat \<times> nat \<times> nat \<times> byte list \<times> int" where
  "back_match src trg 0 msize data out inscnt = (0, msize, data, out, inscnt)"
| "back_match src trg (Suc moff) msize data out inscnt =
     (if src ! moff = trg ! (data - 1) then
        let msize = msize + 1; data = data - 1; out = butlast out; inscnt = inscnt - 1 in
        if inscnt \<noteq> 0 then back_match src trg moff msize data out inscnt
        else (moff, msize, data, butlast out, inscnt - 1)
      else (Suc moff, msize, data, out, inscnt))"

definition put_cp_param :: "nat \<Rightarrow> nat \<Rightarrow> nat \<Rightarrow> nat \<Rightarrow> nat \<times> byte list \<Rightarrow> nat \<times> byte list" where
  "put_cp_param v msk shift flag = (\<lambda>(i, out).
     if v AND msk \<noteq> 0 then (i OR flag, out @ [of_nat (drop_bit shift v)]) else (i, out))"

text \<open>The bytes of a copy operation: the opcode, then the non-zero bytes of offset and size.\<close>

definition copy_op :: "nat \<Rightarrow> nat \<Rightarrow> byte list" where
  "copy_op moff msize =
     (let (i, bytes) =
        put_cp_param msize 0xff00 8 0x20
          (put_cp_param msize 0x00ff 0 0x10
            (put_cp_param moff 0xff000000 24 0x08
              (put_cp_param moff 0x00ff0000 16 0x04
                (put_cp_param moff 0x0000ff00 8 0x02
                  (put_cp_param moff 0x000000ff 0 0x01 (0x80, [])))))) in
      of_nat i # bytes)"

text \<open>
  One turn of the main loop: look for a match at \<open>data\<close>, emit a literal or a copy, make room
  in the output; the boolean is \<open>True\<close> for the \<open>break\<close>.
\<close>

definition search_match :: "delta_index \<Rightarrow> byte list \<Rightarrow> create_state \<Rightarrow> create_state" where
  "search_match index trg s =
     (if cs_msize s < 4096 then
        let val = rabin_roll (cs_val s) (trg ! (cs_data s - RABIN_WINDOW)) (trg ! cs_data s);
            i = unat val AND di_hash_mask index;
            (msize, moff) = find_match (di_src index) trg (cs_data s) val (di_hash index ! i)
              (cs_msize s, cs_moff s) in
        s\<lparr>cs_val := val, cs_msize := msize, cs_moff := moff\<rparr>
      else s)"

definition emit_literal :: "byte list \<Rightarrow> create_state \<Rightarrow> create_state" where
  "emit_literal trg s =
     (let out = (if cs_inscnt s = 0 then cs_out s @ [0] else cs_out s) @ [trg ! cs_data s];
          inscnt = cs_inscnt s + 1;
          (out, inscnt) = (if inscnt = 0x7f then (put_inscnt out inscnt, 0) else (out, inscnt)) in
      s\<lparr>cs_out := out, cs_data := cs_data s + 1, cs_inscnt := inscnt, cs_msize := 0\<rparr>)"

definition emit_copy :: "delta_index \<Rightarrow> byte list \<Rightarrow> create_state \<Rightarrow> create_state" where
  "emit_copy index trg s =
     (let (moff, msize, data, out, inscnt) =
            (if cs_inscnt s \<noteq> 0 then
               let (moff, msize, data, out, inscnt) =
                     back_match (di_src index) trg (cs_moff s) (cs_msize s) (cs_data s) (cs_out s) (cs_inscnt s) in
               (moff, msize, data, put_inscnt out inscnt, 0)
             else (cs_moff s, cs_msize s, cs_data s, cs_out s, cs_inscnt s));
          left = (if msize < 0x10000 then 0 else msize - 0x10000);
          msize = msize - left;
          out = out @ copy_op moff msize;
          data = data + msize;
          moff = moff + msize;
          msize = (if moff > 0xffffffff then 0 else left);
          val = (if msize < 4096 then rabin_hash (take RABIN_WINDOW (drop (data - RABIN_WINDOW) trg))
                 else cs_val s) in
      s\<lparr>cs_out := out, cs_data := data, cs_val := val, cs_inscnt := inscnt,
        cs_moff := moff, cs_msize := msize\<rparr>)"

definition grow_output :: "nat \<Rightarrow> create_state \<Rightarrow> bool \<times> create_state" where
  "grow_output max_sz s =
     (if length (cs_out s) \<ge> cs_outsize s - MAX_OP_SIZE then
        let outsize = cs_outsize s * 3 div 2;
            outsize = (if max_sz \<noteq> 0 \<and> outsize \<ge> max_sz then max_sz + MAX_OP_SIZE + 1 else outsize);
            s = s\<lparr>cs_outsize := outsize\<rparr> in
        (max_sz \<noteq> 0 \<and> length (cs_out s) > max_sz, s)
      else (False, s))"

definition create_emit :: "delta_index \<Rightarrow> byte list \<Rightarrow> create_state \<Rightarrow> create_state" where
  "create_emit index trg s =
     (let s = search_match index trg s in
      if cs_msize s < 4 then emit_literal trg s else emit_copy index trg s)"

definition create_delta_step :: "delta_index \<Rightarrow> byte list \<Rightarrow> nat \<Rightarrow> create_state \<Rightarrow> bool \<times> create_state" where
  "create_delta_step index trg max_sz s = grow_output max_sz (create_emit index trg s)"

text \<open>
  The main loop.  Every turn advances \<open>data\<close>, but only for states the code can reach, so the
  loop takes fuel; \<open>None\<close> is running out of it.
\<close>

fun create_delta_loop :: "nat \<Rightarrow> delta_index \<Rightarrow> byte list \<Rightarrow> nat \<Rightarrow> create_state \<Rightarrow> create_state option" where
  "create_delta_loop 0 index trg max_sz s = (if cs_data s < length trg then None else Some s)"
| "create_delta_loop (Suc fuel) index trg max_sz s =
     (if cs_data s < length trg then
        (case create_delta_step index trg max_sz s of
           (brk, s) \<Rightarrow> if brk then Some s else create_delta_loop fuel index trg max_sz s)
      else Some s)"

definition create_delta_init :: "delta_index \<Rightarrow> byte list \<Rightarrow> nat \<Rightarrow> create_state" where
  "create_delta_init index trg max_sz =
     (let outsize = (if max_sz \<noteq> 0 \<and> 8192 \<ge> max_sz then max_sz + MAX_OP_SIZE + 1 else 8192);
          start = take RABIN_WINDOW trg in
      \<lparr>cs_out = put_delta_size (length (di_src index)) @ put_delta_size (length trg) @ [0] @ start,
       cs_outsize = outsize, cs_data = length start, cs_val = rabin_hash start,
       cs_inscnt = int (length start), cs_moff = 0, cs_msize = 0\<rparr>)"

definition create_delta :: "delta_index \<Rightarrow> byte list \<Rightarrow> nat \<Rightarrow> byte list delta_outcome option" where
  "create_delta index trg max_sz =
     (if trg = [] then Some Null
      else
        map_option (\<lambda>s.
          let out = (if cs_inscnt s \<noteq> 0 then put_inscnt (cs_out s) (cs_inscnt s) else cs_out s) in
          if max_sz \<noteq> 0 \<and> length out > max_sz then Null else Ok out)
        (create_delta_loop (length trg) index trg max_sz (create_delta_init index trg max_sz)))"

section \<open>The two sizes\<close>

lemma byte_or_128:
  "(c OR 128) AND 128 \<noteq> (0::byte)" "(c OR 128) AND 127 = (c AND 127 :: byte)"
proof -
  have "bit ((c OR 128) AND 128) 7" by (simp add: bit_simps)
  then show "(c OR 128) AND 128 \<noteq> 0" by (metis bit_0_eq bot_apply bot_bool_def)
  have "(128::byte) AND 127 = 0" by simp
  then show "(c OR 128) AND 127 = c AND 127"
    by (simp add: bit.conj_disj_distrib2)
qed

lemma nat_split_7: "(n::nat) mod 128 OR push_bit 7 (n div 128) = n"
  using nat_or_add [of "n mod 128" 7 "n div 128"] by (simp add: push_bit_eq_mult)

lemma get_delta_hdr_put:
  "n * 2 ^ i \<le> SIZE_MAX \<Longrightarrow> i < 64 \<Longrightarrow>
   get_delta_hdr_loop i s (put_delta_size n @ rest) = Ok (s OR push_bit i n, rest)"
proof (induction n arbitrary: i s rule: put_delta_size.induct)
  case (1 n)
  have fits: "m * 2 ^ i \<le> SIZE_MAX \<Longrightarrow> st_left_shift m i = Ok (push_bit i m)" for m
    using "1.prems"(2) by (auto simp: st_left_shift_def unsigned_left_shift_overflows_def
        drop_bit_eq_div div_le_mono less_eq_div_iff_mult_less_eq not_less)
  show ?case
  proof (cases "n \<ge> 0x80")
    case False
    then have "unat (of_nat n AND 127 :: byte) = n" "(of_nat n :: byte) AND 128 = 0"
      by (simp_all add: byte_simps)
    then show ?thesis
      using False fits [OF "1.prems"(1)] by (simp add: put_delta_size.simps [of n])
  next
    case True
    let ?c = "of_nat (n OR 128) :: byte"
    have c: "?c = of_nat n OR 128" by (simp add: of_nat_or_eq)
    have low: "unat (?c AND 127) = n mod 128"
      unfolding c byte_or_128 by (simp add: byte_simps mod_mod_cancel)
    have "2 ^ (i + 7) \<le> n * 2 ^ i"
      using True by (simp add: power_add)
    then have "(2::nat) ^ (i + 7) < 2 ^ 64"
      using "1.prems"(1) by (simp add: SIZE_MAX_def)
    then have i: "i + 7 < 64"
      by (rule power_less_imp_less_exp [of "2::nat", rotated]) simp
    have "n div 128 * 2 ^ (i + 7) \<le> n * 2 ^ i"
      using div_times_less_eq_dividend [of n 128] by (simp add: power_add)
    then have "get_delta_hdr_loop (i + 7) (s OR push_bit i (n mod 128)) (put_delta_size (drop_bit 7 n) @ rest)
        = Ok ((s OR push_bit i (n mod 128)) OR push_bit (i + 7) (drop_bit 7 n), rest)"
      using "1.IH" [OF True, of "i + 7"] "1.prems"(1) i by (simp add: drop_bit_eq_div)
    moreover have "(s OR push_bit i (n mod 128)) OR push_bit (i + 7) (drop_bit 7 n) = s OR push_bit i n"
    proof -
      have d: "drop_bit 7 n = n div 128"
        by (simp add: drop_bit_eq_div)
      have "push_bit i (n mod 128) OR push_bit (i + 7) (n div 128) =
          push_bit i (n mod 128 OR push_bit 7 (n div 128))"
        by (simp only: push_bit_or push_bit_push_bit)
      then show ?thesis by (simp only: d or.assoc nat_split_7)
    qed
    moreover have "n mod 128 * 2 ^ i \<le> SIZE_MAX"
      using "1.prems"(1) mod_less_eq_dividend [of n 128] by (meson le_trans mult_le_mono1)
    then have "st_left_shift (unat (?c AND 127)) i = Ok (push_bit i (n mod 128))"
      using fits low by simp
    moreover have "put_delta_size (drop_bit 7 n) \<noteq> []"
      by (subst put_delta_size.simps) simp
    ultimately show ?thesis
      using True c byte_or_128(1) [of "of_nat n"]
      by (simp add: put_delta_size.simps [of n] Let_def)
  qed
qed


lemma get_delta_hdr_size_put:
  "n \<le> SIZE_MAX \<Longrightarrow> get_delta_hdr_size (put_delta_size n @ rest) = Ok (n, rest)"
  using get_delta_hdr_put [of n 0 0 rest] by (simp add: get_delta_hdr_size_def)

section \<open>The copy operation\<close>

lemma nat_and_shifted: "(v::nat) AND push_bit s 255 = push_bit s (drop_bit s v mod 256)"
proof -
  have "v AND push_bit s (mask 8) = push_bit s (take_bit 8 (drop_bit s v))"
    by (rule bit_eqI) (auto simp: bit_simps)
  then show ?thesis by (simp add: mask_eq_exp_minus_1 take_bit_eq_mod)
qed

lemma parse_put_param:
  assumes "msk = push_bit s 255" and "cmd AND b \<noteq> 0 \<longleftrightarrow> v AND msk \<noteq> 0"
  shows "parse_cp_param cmd b s
      (var, (if v AND msk \<noteq> 0 then [of_nat (drop_bit s v)] else []) @ rest) =
    Some (var OR (v AND msk), rest)"
proof (cases "v AND msk = 0")
  case True
  with assms(2) show ?thesis by (simp add: parse_cp_param_def)
next
  case False
  then show ?thesis
    using assms by (simp add: parse_cp_param_def nat_and_shifted byte_simps del: push_bit_of_nat)
qed

text \<open>The opcode of a copy, by the six tests that build it.\<close>

definition copy_flags :: "bool \<Rightarrow> bool \<Rightarrow> bool \<Rightarrow> bool \<Rightarrow> bool \<Rightarrow> bool \<Rightarrow> nat" where
  "copy_flags b1 b2 b3 b4 b5 b6 =
     (0x80 OR (if b1 then 0x01 else 0) OR (if b2 then 0x02 else 0) OR (if b3 then 0x04 else 0) OR
      (if b4 then 0x08 else 0) OR (if b5 then 0x10 else 0) OR (if b6 then 0x20 else 0))"

lemma copy_flags_tests:
  fixes b1 b2 b3 b4 b5 b6
  defines "cmd \<equiv> of_nat (copy_flags b1 b2 b3 b4 b5 b6) :: byte"
  shows "cmd AND 0x80 \<noteq> 0" "cmd AND 0x01 \<noteq> 0 \<longleftrightarrow> b1" "cmd AND 0x02 \<noteq> 0 \<longleftrightarrow> b2" "cmd AND 0x04 \<noteq> 0 \<longleftrightarrow> b3"
    "cmd AND 0x08 \<noteq> 0 \<longleftrightarrow> b4" "cmd AND 0x10 \<noteq> 0 \<longleftrightarrow> b5" "cmd AND 0x20 \<noteq> 0 \<longleftrightarrow> b6" "cmd AND 0x40 = 0"
  unfolding cmd_def copy_flags_def
  by (cases b1; cases b2; cases b3; cases b4; cases b5; cases b6; simp)+

abbreviation cp_byte :: "nat \<Rightarrow> nat \<Rightarrow> nat \<Rightarrow> byte list" where
  "cp_byte v msk s \<equiv> (if v AND msk \<noteq> 0 then [of_nat (drop_bit s v)] else [])"

lemma copy_op_bytes:
  "copy_op moff msize =
     of_nat (copy_flags (moff AND 0xff \<noteq> 0) (moff AND 0xff00 \<noteq> 0) (moff AND 0xff0000 \<noteq> 0)
       (moff AND 0xff000000 \<noteq> 0) (msize AND 0xff \<noteq> 0) (msize AND 0xff00 \<noteq> 0)) #
     cp_byte moff 0xff 0 @ cp_byte moff 0xff00 8 @ cp_byte moff 0xff0000 16 @
     cp_byte moff 0xff000000 24 @ cp_byte msize 0xff 0 @ cp_byte msize 0xff00 8"
  by (simp add: copy_op_def put_cp_param_def copy_flags_def split: if_splits)

lemma mask_bytes:
  "push_bit 0 255 = (0xff::nat)" "push_bit 8 255 = (0xff00::nat)"
  "push_bit 16 255 = (0xff0000::nat)" "push_bit 24 255 = (0xff000000::nat)"
  by simp_all

lemma nat_and_or_distrib: "((v::nat) AND a) OR (v AND b) = v AND (a OR b)"
  by (rule bit_eqI) (auto simp: bit_simps)

lemma and_bytes_32:
  assumes "(v::nat) < 2 ^ 32"
  shows "(v AND 0xff) OR (v AND 0xff00) OR (v AND 0xff0000) OR (v AND 0xff000000) = v"
proof -
  have "v AND mask 32 = v"
    using assms by (metis take_bit_eq_mask take_bit_nat_eq_self)
  then show ?thesis
    by (simp add: mask_eq_exp_minus_1 nat_and_or_distrib)
qed

lemma and_bytes_16:
  assumes "(v::nat) < 2 ^ 16"
  shows "(v AND 0xff) OR (v AND 0xff00) = v"
proof -
  have "v AND mask 16 = v"
    using assms by (metis take_bit_eq_mask take_bit_nat_eq_self)
  then show ?thesis
    by (simp add: mask_eq_exp_minus_1 nat_and_or_distrib)
qed

lemma parse_copy_op:
  assumes "moff < 2 ^ 32" "0 < msize" "msize \<le> 0x10000"
  obtains cmd bytes where "copy_op moff msize = cmd # bytes" "cmd AND 0x80 \<noteq> 0"
    "parse_copy cmd (bytes @ rest) = Some (moff, msize, rest)"
proof -
  define cmd :: byte where "cmd = of_nat (copy_flags (moff AND 0xff \<noteq> 0) (moff AND 0xff00 \<noteq> 0)
    (moff AND 0xff0000 \<noteq> 0) (moff AND 0xff000000 \<noteq> 0) (msize AND 0xff \<noteq> 0) (msize AND 0xff00 \<noteq> 0))"
  note flags = copy_flags_tests [of "moff AND 0xff \<noteq> 0" "moff AND 0xff00 \<noteq> 0" "moff AND 0xff0000 \<noteq> 0"
    "moff AND 0xff000000 \<noteq> 0" "msize AND 0xff \<noteq> 0" "msize AND 0xff00 \<noteq> 0", folded cmd_def]
  note param = parse_put_param [OF mask_bytes(1) [symmetric]] parse_put_param [OF mask_bytes(2) [symmetric]]
    parse_put_param [OF mask_bytes(3) [symmetric]] parse_put_param [OF mask_bytes(4) [symmetric]]
  let ?sz = "cp_byte msize 0xff 0 @ cp_byte msize 0xff00 8"
  let ?off = "cp_byte moff 0xff 0 @ cp_byte moff 0xff00 8 @ cp_byte moff 0xff0000 16 @ cp_byte moff 0xff000000 24"
  have off: "parse_cp_off cmd (?off @ ?sz @ rest) = Some (moff, ?sz @ rest)"
    using and_bytes_32 [OF assms(1)]
    by (simp only: parse_cp_off_def append_assoc param flags Option.bind.simps or.left_neutral or.assoc)
  have "(msize AND 0xff) OR (msize AND 0xff00) = (if msize = 0x10000 then 0 else msize)"
    using and_bytes_16 [of msize] assms(3) by auto
  then have "parse_cp_size cmd (?sz @ rest) = Some (if msize = 0x10000 then 0 else msize, rest)"
    by (simp only: parse_cp_size_def append_assoc param flags Option.bind.simps or.left_neutral or.assoc)
      (simp add: parse_cp_param_def flags)
  then have "parse_copy cmd (?off @ ?sz @ rest) = Some (moff, msize, rest)"
    using off assms(2) by (simp add: parse_copy_def del: append_assoc)
  then show ?thesis
    using that [of cmd "?off @ ?sz"] flags(1) copy_op_bytes [of moff msize, folded cmd_def] by simp
qed

section \<open>Sequences of operations\<close>

text \<open>The bytes \<open>ops\<close> are whole operations that write \<open>t\<close>.\<close>

definition delta_writes :: "byte list \<Rightarrow> byte list \<Rightarrow> byte list \<Rightarrow> bool" where
  "delta_writes src ops t \<longleftrightarrow>
     (\<forall>rest sz out. length t \<le> sz \<longrightarrow>
        patch_delta_loop src (ops @ rest) sz out = patch_delta_loop src rest (sz - length t) (out @ t))"

lemma delta_writes_Nil: "delta_writes src [] []"
  by (simp add: delta_writes_def)

lemma delta_writes_append:
  "delta_writes src ops t \<Longrightarrow> delta_writes src ops' t' \<Longrightarrow> delta_writes src (ops @ ops') (t @ t')"
  by (simp add: delta_writes_def)

lemma delta_writes_copy:
  assumes "moff < 2 ^ 32" "0 < msize" "msize \<le> 0x10000" "moff + msize \<le> length src" "length src \<le> SIZE_MAX"
  shows "delta_writes src (copy_op moff msize) (take msize (drop moff src))"
  unfolding delta_writes_def
proof (intro allI impI)
  fix rest out :: "byte list" and sz
  assume "length (take msize (drop moff src)) \<le> sz"
  moreover obtain cmd bytes where "copy_op moff msize = cmd # bytes" "cmd AND 0x80 \<noteq> 0"
    "parse_copy cmd (bytes @ rest) = Some (moff, msize, rest)"
    using parse_copy_op [OF assms(1-3)] .
  moreover have "\<not> SIZE_MAX - moff < msize"
    using assms(4,5) by linarith
  ultimately show "patch_delta_loop src (copy_op moff msize @ rest) sz out =
      patch_delta_loop src rest (sz - length (take msize (drop moff src))) (out @ take msize (drop moff src))"
    using assms by simp
qed

lemma delta_writes_insert:
  assumes "0 < length bytes" "length bytes < 128"
  shows "delta_writes src (of_nat (length bytes) # bytes) bytes"
proof -
  have u: "unat (of_nat (length bytes) :: byte) = length bytes"
    using assms by (simp add: byte_simps)
  then have "(of_nat (length bytes) :: byte) AND 128 = 0" "(of_nat (length bytes) :: byte) \<noteq> 0"
    using assms byte_top [of "of_nat (length bytes)"] by (simp, metis unat_0 less_numeral_extra(3))
  with u show ?thesis by (simp add: delta_writes_def)
qed

section \<open>Matches\<close>

definition matches :: "byte list \<Rightarrow> byte list \<Rightarrow> nat \<Rightarrow> nat \<Rightarrow> nat \<Rightarrow> bool" where
  "matches src trg moff data n \<longleftrightarrow>
     moff + n \<le> length src \<and> data + n \<le> length trg \<and> take n (drop moff src) = take n (drop data trg)"

lemma match_length_correct:
  "match_length m xs ys \<le> length xs \<and> match_length m xs ys \<le> length ys \<and>
   take (match_length m xs ys) xs = take (match_length m xs ys) ys"
  by (induction m xs ys rule: match_length.induct) auto

definition match_ok :: "byte list \<Rightarrow> byte list \<Rightarrow> nat \<Rightarrow> nat \<times> nat \<Rightarrow> bool" where
  "match_ok src trg data best \<longleftrightarrow>
     fst best = 0 \<or> snd best < 2 ^ 32 \<and> matches src trg (snd best) data (fst best)"

lemma find_match_ok:
  "list_all (entry_ok src) es \<Longrightarrow> data \<le> length trg \<Longrightarrow> match_ok src trg data best \<Longrightarrow>
   match_ok src trg data (find_match src trg data val es best)"
proof (induction es arbitrary: best)
  case Nil
  then show ?case by simp
next
  case (Cons e es)
  have new: "match_ok src trg data (match_length m (drop data trg) (drop (ie_ptr e) src), ie_ptr e)" for m
    using Cons.prems(1,2) match_length_correct [of m "drop data trg" "drop (ie_ptr e) src"]
    by (auto simp: match_ok_def matches_def entry_ok_def)
  show ?case
    using Cons.prems Cons.IH new by (simp add: Let_def split: prod.split)
qed

lemma matches_back:
  assumes "matches src trg (Suc moff) data n" "src ! moff = trg ! (data - 1)" "0 < data"
  shows "matches src trg moff (data - 1) (Suc n)"
proof -
  have "drop moff src = src ! moff # drop (Suc moff) src" "drop (data - 1) trg = trg ! (data - 1) # drop data trg"
    using assms Cons_nth_drop_Suc [of moff src] Cons_nth_drop_Suc [of "data - 1" trg]
    by (auto simp: matches_def)
  with assms show ?thesis by (auto simp: matches_def)
qed

lemma matches_take: "matches src trg moff data n \<Longrightarrow> m \<le> n \<Longrightarrow> matches src trg moff data m"
proof -
  assume *: "matches src trg moff data n" "m \<le> n"
  have "take m (take n (drop moff src)) = take m (take n (drop data trg))"
    using *(1) by (simp add: matches_def)
  then have "take m (drop moff src) = take m (drop data trg)"
    using *(2) by (simp only: take_take min.absorb1)
  with * show ?thesis by (simp add: matches_def)
qed

lemma matches_drop:
  "matches src trg moff data n \<Longrightarrow> m \<le> n \<Longrightarrow> matches src trg (moff + m) (data + m) (n - m)"
proof -
  assume *: "matches src trg moff data n" "m \<le> n"
  have shift: "take (n - m) (drop (k + m) xs) = drop m (take n (drop k xs))" for k and xs :: "byte list"
    by (metis add.commute drop_drop drop_take)
  have "take (n - m) (drop (moff + m) src) = take (n - m) (drop (data + m) trg)"
    using *(1) by (simp only: shift matches_def)
  then show ?thesis
    using * by (simp add: matches_def)
qed

text \<open>The insertion in progress: a slot for the count, then the bytes.\<close>

definition pending :: "byte list \<Rightarrow> nat \<Rightarrow> nat \<Rightarrow> byte \<Rightarrow> byte list" where
  "pending trg start k slot = (if k = 0 then [] else slot # take k (drop start trg))"

lemma length_pending: "start + k \<le> length trg \<Longrightarrow> length (pending trg start k slot) = (if k = 0 then 0 else Suc k)"
  by (simp add: pending_def)

lemma put_inscnt_pending:
  assumes "start + k \<le> length trg" "0 < k"
  shows "put_inscnt (base @ pending trg start k slot) (int k) = base @ pending trg start k (of_nat k)"
proof -
  have "nat (int (length (base @ pending trg start k slot)) - int k - 1) = length base"
    using assms by (simp add: length_pending)
  then show ?thesis
    using assms(2) unfolding put_inscnt_def by (simp add: pending_def)
qed

lemma put_inscnt_gone: "put_inscnt out (-1) = out"
  by (simp add: put_inscnt_def list_update_beyond)

lemma back_match_correct:
  assumes "back_match src trg moff msize data out (int k) = (moff', msize', data', out', inscnt')"
    and "out = base @ pending trg start k slot" "0 < k" "data = start + k"
    and "matches src trg moff data msize"
  obtains k' where "k' \<le> k" "data' = start + k'" "moff' \<le> moff" "msize' + data' = msize + data"
    "matches src trg moff' data' msize'" "put_inscnt out' inscnt' = base @ pending trg start k' (of_nat k')"
proof -
  have "\<exists>k'. k' \<le> k \<and> data' = start + k' \<and> moff' \<le> moff \<and> msize' + data' = msize + data \<and>
    matches src trg moff' data' msize' \<and> put_inscnt out' inscnt' = base @ pending trg start k' (of_nat k')"
    using assms
  proof (induction moff arbitrary: msize data out k)
    case 0
    then show ?case
      by (intro exI [of _ k]) (auto simp: put_inscnt_pending matches_def)
  next
    case (Suc moff)
    show ?case
    proof (cases "src ! moff = trg ! (data - 1)")
      case False
      with Suc.prems show ?thesis
        by (intro exI [of _ k]) (auto simp: put_inscnt_pending matches_def)
    next
      case True
      obtain j where k: "k = Suc j" using Suc.prems(3) by (cases k) auto
      have m: "matches src trg moff (data - 1) (Suc msize)"
        using matches_back [OF Suc.prems(5) True] Suc.prems(4) k by simp
      have start: "start + k \<le> length trg"
        using Suc.prems(4,5) by (simp add: matches_def)
      have b: "butlast out = base @ slot # take j (drop start trg)"
        using Suc.prems(2) start k by (simp add: pending_def butlast_append butlast_take)
      show ?thesis
      proof (cases "j = 0")
        case True
        then show ?thesis
          using Suc.prems(1,4) \<open>src ! moff = _\<close> m b k
          by (intro exI [of _ 0]) (auto simp: put_inscnt_gone pending_def)
      next
        case False
        have "back_match src trg moff (Suc msize) (data - 1) (butlast out) (int j) =
            (moff', msize', data', out', inscnt')"
          using Suc.prems(1) \<open>src ! moff = _\<close> k False by simp
        from Suc.IH [OF this _ _ _ m] show ?thesis
          using b False Suc.prems(4) k by (fastforce simp: pending_def)
      qed
    qed
  qed
  then show ?thesis using that by blast
qed

section \<open>The invariant of the main loop\<close>

definition create_inv :: "delta_index \<Rightarrow> byte list \<Rightarrow> byte list \<Rightarrow> create_state \<Rightarrow> bool" where
  "create_inv index trg hdr s \<longleftrightarrow>
     cs_data s \<le> length trg \<and>
     match_ok (di_src index) trg (cs_data s) (cs_msize s, cs_moff s) \<and>
     (\<exists>ops k slot start. cs_inscnt s = int k \<and> k < 127 \<and> cs_data s = start + k \<and>
        delta_writes (di_src index) ops (take start trg) \<and>
        cs_out s = hdr @ ops @ pending trg start k slot)"

lemma search_match_inv:
  assumes "create_inv index trg hdr s" "index_ok index"
  shows "create_inv index trg hdr (search_match index trg s)"
proof -
  have "list_all (entry_ok (di_src index)) (di_hash index ! (n AND di_hash_mask index))" for n
  proof -
    have "n AND di_hash_mask index < length (di_hash index)"
      using assms(2) by (simp add: index_ok_def less_Suc_eq_le nat_and_le2)
    then show ?thesis
      using assms(2) by (simp add: index_ok_def list_all_length)
  qed
  then show ?thesis
    using assms(1) find_match_ok
    by (auto simp: create_inv_def search_match_def Let_def split: prod.split) (metis find_match_ok)+
qed

lemma take_append_pending: "start + k \<le> length trg \<Longrightarrow> take (start + k) trg = take start trg @ take k (drop start trg)"
  by (simp add: take_add)

lemma delta_writes_pending:
  assumes "delta_writes src ops (take start trg)" "start + k \<le> length trg" "k < 128"
  shows "delta_writes src (ops @ pending trg start k (of_nat k)) (take (start + k) trg)"
proof (cases "k = 0")
  case True
  with assms show ?thesis by (simp add: pending_def)
next
  case False
  have "delta_writes src (of_nat k # take k (drop start trg)) (take k (drop start trg))"
    using delta_writes_insert [of "take k (drop start trg)" src] assms(2,3) False by simp
  with assms(1) False show ?thesis
    by (simp add: pending_def take_add delta_writes_append)
qed

lemma create_invI:
  assumes "start + k \<le> length trg" "match_ok (di_src index) trg (start + k) (msize, moff)"
    "delta_writes (di_src index) ops (take start trg)" "k < 127"
  shows "create_inv index trg hdr
    (s\<lparr>cs_out := hdr @ ops @ pending trg start k slot, cs_data := start + k, cs_val := v,
       cs_inscnt := int k, cs_moff := moff, cs_msize := msize\<rparr>)"
  unfolding create_inv_def
  using assms by (auto intro!: exI [of _ ops] exI [of _ k] exI [of _ slot] exI [of _ start])

lemma emit_literal_inv:
  assumes "create_inv index trg hdr s" "cs_data s < length trg"
  shows "create_inv index trg hdr (emit_literal trg s)"
proof -
  obtain ops k slot start where k: "cs_inscnt s = int k" "k < 127" "cs_data s = start + k"
    and w: "delta_writes (di_src index) ops (take start trg)"
    and out: "cs_out s = hdr @ ops @ pending trg start k slot"
    using assms(1) by (auto simp: create_inv_def)
  have fits: "start + Suc k \<le> length trg" using assms(2) k by simp
  have m0: "match_ok (di_src index) trg d (0, cs_moff s)" for d
    by (simp add: match_ok_def)
  let ?slot = "if k = 0 then 0 else slot"
  have grow: "(if cs_inscnt s = 0 then cs_out s @ [0] else cs_out s) @ [trg ! cs_data s] =
      hdr @ ops @ pending trg start (Suc k) ?slot"
    using fits out k by (auto simp: pending_def take_Suc_conv_app_nth)
  show ?thesis
  proof (cases "k = 126")
    case False
    then have "emit_literal trg s = s\<lparr>cs_out := hdr @ ops @ pending trg start (Suc k) ?slot,
        cs_data := start + Suc k, cs_val := cs_val s, cs_inscnt := int (Suc k), cs_moff := cs_moff s, cs_msize := 0\<rparr>"
      using k unfolding emit_literal_def Let_def grow by simp
    with create_invI [OF fits m0 w, where hdr = hdr and s = s and slot = ?slot and v = "cs_val s"] show ?thesis
      using k False by simp
  next
    case True
    have "put_inscnt ((hdr @ ops) @ pending trg start (Suc k) slot) (int (Suc k)) =
        (hdr @ ops) @ pending trg start (Suc k) (of_nat (Suc k))"
      using fits by (rule put_inscnt_pending) simp
    then have "emit_literal trg s = s\<lparr>cs_out := hdr @ (ops @ pending trg start (Suc k) (of_nat (Suc k))) @
          pending trg (start + Suc k) 0 0,
        cs_data := start + Suc k + 0, cs_val := cs_val s, cs_inscnt := int 0, cs_moff := cs_moff s, cs_msize := 0\<rparr>"
      using k True unfolding emit_literal_def Let_def grow by (simp add: pending_def)
    with create_invI [OF _ m0 delta_writes_pending [OF w fits], where k = 0 and hdr = hdr and s = s and slot = 0 and v = "cs_val s"] show ?thesis
      using fits True by simp
  qed
qed

lemma match_ok_rest:
  assumes "matches src trg moff data n" "m \<le> n"
  shows "match_ok src trg (data + m) (if moff + m > 0xffffffff then 0 else n - m, moff + m)"
  using matches_drop [OF assms] by (simp add: match_ok_def)

lemma emit_copy_inv:
  assumes "create_inv index trg hdr s" "length (di_src index) \<le> SIZE_MAX" "4 \<le> cs_msize s"
  shows "create_inv index trg hdr (emit_copy index trg s) \<and> cs_data s < cs_data (emit_copy index trg s)"
proof -
  let ?src = "di_src index"
  obtain ops k slot start where k: "cs_inscnt s = int k" "k < 127" "cs_data s = start + k"
    and w: "delta_writes ?src ops (take start trg)"
    and out: "cs_out s = (hdr @ ops) @ pending trg start k slot"
    using assms(1) by (auto simp: create_inv_def)
  have m: "matches ?src trg (cs_moff s) (cs_data s) (cs_msize s)" "cs_moff s < 2 ^ 32"
    using assms(1,3) by (auto simp: create_inv_def match_ok_def)
  define b where "b = (if cs_inscnt s \<noteq> 0 then
       let (moff, msize, data, out, inscnt) =
             back_match ?src trg (cs_moff s) (cs_msize s) (cs_data s) (cs_out s) (cs_inscnt s) in
       (moff, msize, data, put_inscnt out inscnt, 0)
     else (cs_moff s, cs_msize s, cs_data s, cs_out s, cs_inscnt s))"
  obtain moff msize data out' k' where b: "b = (moff, msize, data, out', 0)"
    and k': "k' \<le> k" "data = start + k'" "moff \<le> cs_moff s" "msize + data = cs_msize s + cs_data s"
    and m': "matches ?src trg moff data msize"
    and out': "out' = hdr @ ops @ pending trg start k' (of_nat k')"
  proof (cases "k = 0")
    case True
    with that [of "cs_moff s" "cs_msize s" "cs_data s" "cs_out s" 0] show ?thesis
      using b_def k m(1) out by (simp add: pending_def)
  next
    case False
    obtain mo ms d o' i where bm: "back_match ?src trg (cs_moff s) (cs_msize s) (cs_data s) (cs_out s) (int k) =
        (mo, ms, d, o', i)"
      by (cases "back_match ?src trg (cs_moff s) (cs_msize s) (cs_data s) (cs_out s) (int k)") auto
    obtain k' where "k' \<le> k" "d = start + k'" "mo \<le> cs_moff s" "ms + d = cs_msize s + cs_data s"
      "matches ?src trg mo d ms" "put_inscnt o' i = (hdr @ ops) @ pending trg start k' (of_nat k')"
      using back_match_correct [OF bm out _ k(3) m(1)] False by blast
    with that [of mo ms d "put_inscnt o' i" k'] show ?thesis
      using b_def bm k(1) False by simp
  qed
  define n where "n = msize - (if msize < 0x10000 then 0 else msize - 0x10000)"
  define v where "v = (if (if moff + n > 0xffffffff then 0 else msize - n) < 4096
    then rabin_hash (take RABIN_WINDOW (drop (data + n - RABIN_WINDOW) trg)) else cs_val s)"
  have n: "0 < n" "n \<le> 0x10000" "n \<le> msize" "n = msize \<or> n = 0x10000"
    using k'(1,2,4) k(3) assms(3) by (auto simp: n_def)
  have left: "(if msize < 0x10000 then 0 else msize - 0x10000) = msize - n" "msize - (msize - n) = n"
    using n by (auto simp: n_def)
  have more: "cs_data s < data + n"
    using n(4) k'(1,2,4) k(2,3) assms(3) by auto
  have mn: "matches ?src trg moff data n"
    using matches_take [OF m' n(3)] .
  have "delta_writes ?src (copy_op moff n) (take n (drop data trg))"
    using delta_writes_copy [of moff n ?src] m(2) k'(3) n mn assms(2) by (simp add: matches_def)
  moreover have "delta_writes ?src (ops @ pending trg start k' (of_nat k')) (take data trg)"
    using delta_writes_pending [OF w, of k'] k k' assms(1) by (simp add: create_inv_def)
  ultimately have w': "delta_writes ?src ((ops @ pending trg start k' (of_nat k')) @ copy_op moff n) (take (data + n) trg)"
    by (simp add: take_add delta_writes_append del: append_assoc)
  have "emit_copy index trg s = s\<lparr>cs_out := hdr @ ((ops @ pending trg start k' (of_nat k')) @ copy_op moff n) @
        pending trg (data + n) 0 0,
      cs_data := data + n + 0, cs_val := v, cs_inscnt := int 0, cs_moff := moff + n,
      cs_msize := if moff + n > 0xffffffff then 0 else msize - n\<rparr>"
    unfolding emit_copy_def unfolding b_def [symmetric] unfolding b Let_def prod.case left v_def out'
    by (simp add: pending_def)
  moreover have "data + n \<le> length trg"
    using mn by (simp add: matches_def)
  ultimately show ?thesis
    using create_invI [OF _ _ w', where k = 0 and msize = "if moff + n > 0xffffffff then 0 else msize - n"
        and moff = "moff + n" and hdr = hdr and s = s and slot = 0 and v = v]
      match_ok_rest [OF m' n(3)] more by simp
qed


lemma search_match_data [simp]: "cs_data (search_match index trg s) = cs_data s"
  by (simp add: search_match_def Let_def split: prod.split)

lemma emit_literal_data: "cs_data (emit_literal trg s) = Suc (cs_data s)"
  by (simp add: emit_literal_def Let_def split: prod.split)

lemma grow_output_same:
  "cs_data (snd (grow_output m s)) = cs_data s" "cs_out (snd (grow_output m s)) = cs_out s"
  "create_inv index trg hdr (snd (grow_output m s)) \<longleftrightarrow> create_inv index trg hdr s"
  by (simp_all add: grow_output_def create_inv_def Let_def)

lemma create_delta_step_inv:
  assumes "create_inv index trg hdr s" "index_ok index" "length (di_src index) \<le> SIZE_MAX"
    and "cs_data s < length trg" "create_delta_step index trg m s = (brk, s')"
  shows "create_inv index trg hdr s' \<and> cs_data s < cs_data s'"
proof -
  let ?s = "search_match index trg s"
  have inv: "create_inv index trg hdr ?s"
    using assms(1,2) by (rule search_match_inv)
  let ?t = "if cs_msize ?s < 4 then emit_literal trg ?s else emit_copy index trg ?s"
  have "create_inv index trg hdr ?t \<and> cs_data s < cs_data ?t"
    using emit_literal_inv [OF inv] emit_copy_inv [OF inv assms(3)] assms(4)
    by (auto simp: emit_literal_data)
  moreover have "s' = snd (grow_output m ?t)"
    using assms(5) by (simp add: create_delta_step_def create_emit_def Let_def)
  ultimately show ?thesis by (simp add: grow_output_same)
qed

lemma create_delta_loop_returns:
  assumes "index_ok index" "length (di_src index) \<le> SIZE_MAX"
  shows "create_inv index trg hdr s \<Longrightarrow> length trg - cs_data s \<le> fuel \<Longrightarrow>
    \<exists>s'. create_delta_loop fuel index trg m s = Some s' \<and> create_inv index trg hdr s' \<and>
      (cs_data s' = length trg \<or> m \<noteq> 0 \<and> length (cs_out s') > m)"
proof (induction fuel arbitrary: s)
  case 0
  moreover have "cs_data s \<le> length trg"
    using 0 by (simp add: create_inv_def)
  ultimately show ?case by simp
next
  case (Suc fuel)
  show ?case
  proof (cases "cs_data s < length trg")
    case False
    moreover have "cs_data s \<le> length trg"
      using Suc.prems(1) by (simp add: create_inv_def)
    ultimately show ?thesis using Suc.prems(1) by simp
  next
    case True
    obtain brk t where st: "create_delta_step index trg m s = (brk, t)" by fastforce
    note inv = create_delta_step_inv [OF Suc.prems(1) assms True st]
    show ?thesis
    proof (cases brk)
      case True
      with st have "m \<noteq> 0 \<and> length (cs_out t) > m"
        by (auto simp: create_delta_step_def grow_output_def Let_def split: if_splits)
      with True st inv \<open>cs_data s < length trg\<close> show ?thesis by simp
    next
      case False
      with Suc.IH [of t] inv st True Suc.prems(2) show ?thesis by auto
    qed
  qed
qed

lemma create_delta_init_inv:
  assumes "trg \<noteq> []"
  shows "create_inv index trg (put_delta_size (length (di_src index)) @ put_delta_size (length trg))
     (create_delta_init index trg m)"
proof -
  let ?hdr = "put_delta_size (length (di_src index)) @ put_delta_size (length trg)"
  let ?k = "min RABIN_WINDOW (length trg)"
  have k: "0 < ?k" "?k < 127"
    using assms by (simp_all add: RABIN_WINDOW_def min_def)
  have "create_delta_init index trg m = (create_delta_init index trg m)
    \<lparr>cs_out := ?hdr @ [] @ pending trg 0 ?k 0, cs_data := 0 + ?k, cs_val := rabin_hash (take RABIN_WINDOW trg),
     cs_inscnt := int ?k, cs_moff := 0, cs_msize := 0\<rparr>"
    using k(1) by (simp add: create_delta_init_def pending_def Let_def min_def)
  also have "create_inv index trg ?hdr \<dots>"
    using k(2) by (intro create_invI) (auto simp: match_ok_def delta_writes_Nil)
  finally show ?thesis .
qed

lemma put_delta_size_nonempty: "put_delta_size n \<noteq> []"
  by (subst put_delta_size.simps) simp

lemma put_delta_size_single: "length (put_delta_size n) \<le> 1 \<Longrightarrow> n < 128"
  using put_delta_size_nonempty by (subst (asm) put_delta_size.simps) (simp split: if_splits)

lemma put_delta_size_length: "n < 2 ^ (7 * Suc k) \<Longrightarrow> length (put_delta_size n) \<le> Suc k"
proof (induction k arbitrary: n)
  case 0
  then show ?case by (subst put_delta_size.simps) simp
next
  case (Suc k)
  then have "n div 128 < 2 ^ (7 * Suc k)"
    using less_mult_imp_div_less [of n "2 ^ (7 * Suc k)" 128] by (simp add: power_add mult.commute)
  from Suc.IH [OF this] show ?case
    by (subst put_delta_size.simps) (simp add: drop_bit_eq_div)
qed

text \<open>A delta is never shorter than \<open>DELTA_SIZE_MIN\<close>.\<close>

lemma single_op_length:
  assumes "delta_writes src [b] t"
  shows "length t = 0x10000"
proof -
  have l: "patch_delta_loop src [b] (length t) [] = Ok t"
    using assms by (simp add: delta_writes_def spec [of _ "[]"])
  show ?thesis
  proof (cases "b AND 0x80 = 0")
    case True
    with l show ?thesis by (auto simp: unat_eq_0 split: if_splits)
  next
    case False
    with l obtain off n where "parse_copy b [] = Some (off, n, [])" "n = length t"
      by (auto split: option.splits if_splits dest: parse_copy_length)
    then show ?thesis
      by (auto simp: parse_copy_def parse_cp_off_def parse_cp_size_def parse_cp_param_def bind_eq_Some_conv split: if_splits)
  qed
qed

lemma delta_length:
  assumes "delta_writes src ops t" "t \<noteq> []"
  shows "DELTA_SIZE_MIN \<le> length (put_delta_size n @ put_delta_size (length t) @ ops)"
proof -
  have "0 < length ops"
    using assms by (auto simp: delta_writes_def dest!: spec [of _ "[]"])
  moreover have "2 \<le> length (put_delta_size (length t))" if "length ops = 1"
  proof -
    have "length t = 0x10000"
      using single_op_length assms(1) that by (auto simp: length_Suc_conv)
    then show ?thesis using put_delta_size_single [of "length t"] by linarith
  qed
  moreover have "0 < length (put_delta_size n)" "0 < length (put_delta_size (length t))"
    using put_delta_size_nonempty by simp_all
  ultimately show ?thesis
    unfolding length_append DELTA_SIZE_MIN_def by linarith
qed

lemma create_delta_finish:
  assumes "create_inv index trg (put_delta_size (length (di_src index)) @ put_delta_size (length trg)) s"
    and "cs_data s = length trg" "trg \<noteq> []" "length trg < SIZE_MAX" "length (di_src index) \<le> SIZE_MAX"
  shows "patch_delta (di_src index)
    (if cs_inscnt s \<noteq> 0 then put_inscnt (cs_out s) (cs_inscnt s) else cs_out s) = Ok trg"
proof -
  let ?hdr = "put_delta_size (length (di_src index)) @ put_delta_size (length trg)"
  obtain ops k slot start where k: "cs_inscnt s = int k" "k < 127" "cs_data s = start + k"
    and w: "delta_writes (di_src index) ops (take start trg)"
    and out: "cs_out s = (?hdr @ ops) @ pending trg start k slot"
    using assms(1) by (auto simp: create_inv_def)
  let ?ops = "ops @ pending trg start k (of_nat k)"
  have w': "delta_writes (di_src index) ?ops trg"
    using delta_writes_pending [OF w, of k] k assms(2) by simp
  have "(if cs_inscnt s \<noteq> 0 then put_inscnt (cs_out s) (cs_inscnt s) else cs_out s) =
      put_delta_size (length (di_src index)) @ put_delta_size (length trg) @ ?ops"
    using put_inscnt_pending [of start k trg "?hdr @ ops" slot] out k assms(2)
    by (simp add: pending_def)
  moreover have "patch_delta_loop (di_src index) ?ops (length trg) [] = Ok trg"
    using w' [unfolded delta_writes_def, rule_format, of "length trg" "[]" "[]"] by simp
  ultimately show ?thesis
    using delta_length [OF w' assms(3)] assms(4,5)
    by (simp only: patch_delta_def get_delta_hdr_size_put delta_outcome.case not_less [symmetric]
        prod.case less_imp_le if_False simp_thms less_irrefl less_imp_neq)
qed

section \<open>The output buffer\<close>

lemma back_match_length:
  "back_match src trg moff msize data out inscnt = (moff', msize', data', out', inscnt') \<Longrightarrow>
   length out' \<le> length out"
  by (induction src trg moff msize data out inscnt rule: back_match.induct)
    (fastforce simp: Let_def split: if_splits)+

lemma copy_op_length: "length (copy_op moff msize) \<le> 7"
  unfolding copy_op_bytes by auto

lemma put_inscnt_length [simp]: "length (put_inscnt out n) = length out"
  by (simp add: put_inscnt_def)

lemma emit_copy_length: "length (cs_out (emit_copy index trg s)) \<le> length (cs_out s) + 7"
proof -
  obtain mo ms d o' i where bm: "back_match (di_src index) trg (cs_moff s) (cs_msize s) (cs_data s) (cs_out s)
      (cs_inscnt s) = (mo, ms, d, o', i)"
    by (cases "back_match (di_src index) trg (cs_moff s) (cs_msize s) (cs_data s) (cs_out s) (cs_inscnt s)") auto
  show ?thesis
    using back_match_length [OF bm] bm copy_op_length
    by (auto simp: emit_copy_def Let_def intro: add_mono)
qed


inductive create_reach :: "delta_index \<Rightarrow> byte list \<Rightarrow> nat \<Rightarrow> create_state \<Rightarrow> bool"
  for index :: delta_index and trg :: "byte list" and max_sz :: nat where
  reach_init: "create_reach index trg max_sz (create_delta_init index trg max_sz)"
| reach_step: "create_reach index trg max_sz s \<Longrightarrow> cs_data s < length trg \<Longrightarrow>
     create_delta_step index trg max_sz s = (False, s') \<Longrightarrow> create_reach index trg max_sz s'"

lemma search_match_out [simp]:
  "cs_out (search_match index trg s) = cs_out s" "cs_outsize (search_match index trg s) = cs_outsize s"
  by (simp_all add: search_match_def Let_def split: prod.split)

lemma emit_literal_length: "length (cs_out (emit_literal trg s)) \<le> length (cs_out s) + 2"
  by (simp add: emit_literal_def Let_def split: prod.split)

lemma emit_outsize [simp]:
  "cs_outsize (emit_literal trg s) = cs_outsize s" "cs_outsize (emit_copy index trg s) = cs_outsize s"
  by (simp_all add: emit_literal_def emit_copy_def Let_def split: prod.split)

lemma create_emit_length:
  "length (cs_out (create_emit index trg s)) \<le> length (cs_out s) + 7"
  using emit_literal_length [of trg "search_match index trg s"] emit_copy_length [of index trg "search_match index trg s"]
  by (auto simp: create_emit_def Let_def)

lemma create_emit_outsize [simp]: "cs_outsize (create_emit index trg s) = cs_outsize s"
  by (simp add: create_emit_def Let_def)

lemma MAX_OP_SIZE_eq: "MAX_OP_SIZE = 34"
  by (simp add: MAX_OP_SIZE_def RABIN_WINDOW_def)

lemma grow_output_room:
  assumes "grow_output m s = (False, t)" "length (cs_out s) \<le> cs_outsize s" "36 \<le> cs_outsize s"
  shows "length (cs_out t) + 7 \<le> cs_outsize t \<and> 36 \<le> cs_outsize t"
  using assms by (auto simp: grow_output_def MAX_OP_SIZE_eq Let_def split: if_splits)

lemma create_reach_room:
  assumes "length (di_src index) < 2 ^ 35" "length trg < 2 ^ 35"
  shows "create_reach index trg m s \<Longrightarrow> length (cs_out s) + 7 \<le> cs_outsize s \<and> 36 \<le> cs_outsize s"
proof (induction rule: create_reach.induct)
  case reach_init
  have "length (put_delta_size (length (di_src index))) \<le> 5" "length (put_delta_size (length trg)) \<le> 5"
    using put_delta_size_length [of _ 4] assms by simp_all
  then show ?case
    by (auto simp: create_delta_init_def Let_def MAX_OP_SIZE_eq RABIN_WINDOW_def min_def)
next
  case (reach_step s s')
  have "length (cs_out (create_emit index trg s)) \<le> cs_outsize (create_emit index trg s)"
    using create_emit_length [of index trg s] reach_step.IH by simp
  moreover have "grow_output m (create_emit index trg s) = (False, s')" "36 \<le> cs_outsize (create_emit index trg s)"
    using reach_step by (simp_all add: create_delta_step_def)
  ultimately show ?case
    using grow_output_room by blast
qed


section \<open>From a source and a target to a delta and back\<close>

definition diff_delta :: "byte list \<Rightarrow> byte list \<Rightarrow> nat \<Rightarrow> byte list delta_outcome option" where
  "diff_delta src trg max_sz =
     (case create_delta_index src of
        Ok (index, _) \<Rightarrow> create_delta index trg max_sz
      | Null \<Rightarrow> Some Null | Died \<Rightarrow> Some Died | Undefined \<Rightarrow> Some Undefined)"

lemma create_delta_returns:
  assumes "index_ok index" "length (di_src index) \<le> SIZE_MAX" "trg \<noteq> []" "length trg < SIZE_MAX"
  shows "\<exists>r. create_delta index trg m = Some r \<and>
    (r = Null \<and> m \<noteq> 0 \<or> (\<exists>d. r = Ok d \<and> (m \<noteq> 0 \<longrightarrow> length d \<le> m) \<and> patch_delta (di_src index) d = Ok trg))"
proof -
  let ?hdr = "put_delta_size (length (di_src index)) @ put_delta_size (length trg)"
  obtain s where s: "create_delta_loop (length trg) index trg m (create_delta_init index trg m) = Some s"
    and inv: "create_inv index trg ?hdr s" and stop: "cs_data s = length trg \<or> m \<noteq> 0 \<and> length (cs_out s) > m"
    using create_delta_loop_returns [OF assms(1,2) create_delta_init_inv [OF assms(3)],
        of m "length trg" m] by auto
  let ?out = "if cs_inscnt s \<noteq> 0 then put_inscnt (cs_out s) (cs_inscnt s) else cs_out s"
  have "create_delta index trg m = Some (if m \<noteq> 0 \<and> length ?out > m then Null else Ok ?out)"
    using assms(3) s by (simp add: create_delta_def Let_def)
  moreover have "patch_delta (di_src index) ?out = Ok trg" if "\<not> (m \<noteq> 0 \<and> length ?out > m)"
    using create_delta_finish [OF inv _ assms(3,4,2)] stop that by (auto split: if_splits)
  ultimately show ?thesis by (auto simp: not_less)
qed

text \<open>C1: \<open>diff_delta\<close> always returns, and with no size limit it returns a delta from which
  \<open>patch_delta\<close> rebuilds the target, for every source and target of at least one byte.  With a
  limit it returns \<open>NULL\<close> or such a delta of at most \<open>max_size\<close> bytes.\<close>

theorem patch_diff_delta:
  assumes "src \<noteq> []" "trg \<noteq> []" "length src \<le> SIZE_MAX" "length trg < SIZE_MAX"
  shows "\<exists>r. diff_delta src trg max_sz = Some r \<and>
    (r = Null \<and> max_sz \<noteq> 0 \<or>
     (\<exists>d. r = Ok d \<and> (max_sz \<noteq> 0 \<longrightarrow> length d \<le> max_sz) \<and> patch_delta src d = Ok trg))"
proof -
  obtain index entries where i: "create_delta_index src = Ok (index, entries)"
    "di_src index = src" "index_ok index"
    using create_delta_index_result [OF assms(1)] by blast
  then show ?thesis
    using create_delta_returns [OF i(3) _ assms(2,4), of max_sz] assms(3)
    by (simp add: diff_delta_def)
qed

lemma patch_diff_delta_witness:
  "\<exists>d. diff_delta [104, 105] [104, 105, 33] 0 = Some (Ok d) \<and> patch_delta [104, 105] d = Ok [104, 105, 33]"
  using patch_diff_delta [of "[104, 105]" "[104, 105, 33]" 0] by (auto simp: SIZE_MAX_def)

text \<open>C5: \<open>create_delta\<close> never writes outside its output buffer: in every state the main loop reaches,
  with a source and a target below 32 GB (so that each size takes at most five bytes), the
  bytes written by the next turn still fit in the \<open>outsize\<close> bytes allocated.\<close>

theorem create_delta_in_bounds:
  assumes "create_reach index trg max_sz s" "cs_data s < length trg"
    and "length (di_src index) < 2 ^ 35" "length trg < 2 ^ 35"
  shows "length (cs_out (create_emit index trg s)) \<le> cs_outsize s"
  using create_reach_room [OF assms(3,4,1)] create_emit_length [of index trg s] by simp

lemma create_delta_in_bounds_witness:
  "length (cs_out (create_emit \<lparr>di_src = [7], di_hash_mask = 0, di_hash = [[]]\<rparr> (replicate 20 1)
     (create_delta_init \<lparr>di_src = [7], di_hash_mask = 0, di_hash = [[]]\<rparr> (replicate 20 1) 0))) \<le> 8192"
  using create_delta_in_bounds [OF create_reach.reach_init, where trg = "replicate 20 1" and max_sz = 0
      and index = "\<lparr>di_src = [7], di_hash_mask = 0, di_hash = [[]]\<rparr>"]
  by (simp add: create_delta_init_def Let_def RABIN_WINDOW_def)

end
