(* ===== verification/Prio_Queue.thy ===== *)
theory Prio_Queue
  imports Prelude "HOL-Library.Multiset"
begin

text \<open>
  \<^verbatim>\<open>prio-queue.c\<close>: the binary heap behind the date-ordered walks, which is a plain stack when it
  has no comparison function, and the comparison functions of \<^verbatim>\<open>commit.c\<close> it is used with.
  Elements that compare equal leave in insertion order, thanks to a counter stored with them.
\<close>

section \<open>The queue\<close>

record 'a prio_queue_entry =
  pqe_ctr :: nat
  pqe_data :: 'a

text \<open>\<open>nr\<close> is the length of \<open>pq_array\<close>; \<open>cb_data\<close> is part of the closure \<open>pq_compare\<close>.\<close>

record 'a prio_queue =
  pq_compare :: "('a \<Rightarrow> 'a \<Rightarrow> int) option"
  pq_insertion_ctr :: nat
  pq_alloc :: nat
  pq_array :: "'a prio_queue_entry list"

definition alloc_nr :: "nat \<Rightarrow> nat" where
  "alloc_nr x = (x + 16) * 3 div 2"

text \<open>\<open>ALLOC_GROW\<close>, as the new value of \<open>alloc\<close>.\<close>

definition alloc_grow :: "nat \<Rightarrow> nat \<Rightarrow> nat" where
  "alloc_grow nr alloc = (if nr > alloc then if alloc_nr alloc < nr then nr else alloc_nr alloc else alloc)"

definition pq_entry_compare :: "('a \<Rightarrow> 'a \<Rightarrow> int) \<Rightarrow> 'a prio_queue_entry list \<Rightarrow> nat \<Rightarrow> nat \<Rightarrow> int" where
  "pq_entry_compare cmp a i j =
     (let c = cmp (pqe_data (a ! i)) (pqe_data (a ! j)) in
      if c = 0 then of_bool (pqe_ctr (a ! i) > pqe_ctr (a ! j)) - of_bool (pqe_ctr (a ! i) < pqe_ctr (a ! j))
      else c)"

definition pq_swap :: "nat \<Rightarrow> nat \<Rightarrow> 'a list \<Rightarrow> 'a list" where
  "pq_swap i j a = a[i := a ! j, j := a ! i]"

function pq_reverse_loop :: "nat \<Rightarrow> 'a list \<Rightarrow> 'a list" where
  "pq_reverse_loop i a =
     (let j = length a - 1 - i in if i < j then pq_reverse_loop (i + 1) (pq_swap i j a) else a)"
  by pat_completeness auto
termination
  by (relation "measure (\<lambda>(i, a). length a - i)") (auto simp: pq_swap_def)

declare pq_reverse_loop.simps [simp del]

text \<open>\<open>prio_queue_reverse\<close>; \<open>None\<close> is the \<open>BUG\<close> call.\<close>

definition prio_queue_reverse :: "'a prio_queue \<Rightarrow> 'a prio_queue option" where
  "prio_queue_reverse q =
     (if pq_compare q \<noteq> None then None
      else if pq_array q = [] then Some q
      else Some (q\<lparr>pq_array := pq_reverse_loop 0 (pq_array q)\<rparr>))"

definition clear_prio_queue :: "'a prio_queue \<Rightarrow> 'a prio_queue" where
  "clear_prio_queue q = q\<lparr>pq_array := [], pq_alloc := 0, pq_insertion_ctr := 0\<rparr>"

function pq_bubble_up :: "('a \<Rightarrow> 'a \<Rightarrow> int) \<Rightarrow> nat \<Rightarrow> 'a prio_queue_entry list \<Rightarrow> 'a prio_queue_entry list" where
  "pq_bubble_up cmp ix a =
     (if ix = 0 then a
      else
        let parent = (ix - 1) div 2 in
        if pq_entry_compare cmp a parent ix \<le> 0 then a
        else pq_bubble_up cmp parent (pq_swap parent ix a))"
  by pat_completeness auto
termination
  by (relation "measure (\<lambda>(cmp, ix, a). ix)") auto

declare pq_bubble_up.simps [simp del]

definition prio_queue_put :: "'a \<Rightarrow> 'a prio_queue \<Rightarrow> 'a prio_queue" where
  "prio_queue_put thing q =
     (let q = q\<lparr>pq_alloc := alloc_grow (length (pq_array q) + 1) (pq_alloc q),
                pq_array := pq_array q @ [\<lparr>pqe_ctr = pq_insertion_ctr q, pqe_data = thing\<rparr>],
                pq_insertion_ctr := pq_insertion_ctr q + 1\<rparr> in
      case pq_compare q of
        None \<Rightarrow> q
      | Some cmp \<Rightarrow> q\<lparr>pq_array := pq_bubble_up cmp (length (pq_array q) - 1) (pq_array q)\<rparr>)"

function sift_down_root :: "('a \<Rightarrow> 'a \<Rightarrow> int) \<Rightarrow> nat \<Rightarrow> 'a prio_queue_entry list \<Rightarrow> 'a prio_queue_entry list" where
  "sift_down_root cmp ix a =
     (if ix * 2 + 1 < length a then
        let child = ix * 2 + 1;
            child = (if child + 1 < length a \<and> pq_entry_compare cmp a child (child + 1) \<ge> 0
                     then child + 1 else child) in
        if pq_entry_compare cmp a ix child \<le> 0 then a
        else sift_down_root cmp child (pq_swap child ix a)
      else a)"
  by pat_completeness auto
termination
  by (relation "measure (\<lambda>(cmp, ix, a). length a - ix)") (auto simp: pq_swap_def)

declare sift_down_root.simps [simp del]

definition prio_queue_get :: "'a prio_queue \<Rightarrow> 'a option \<times> 'a prio_queue" where
  "prio_queue_get q =
     (if pq_array q = [] then (None, q)
      else case pq_compare q of
        None \<Rightarrow> (Some (pqe_data (last (pq_array q))), q\<lparr>pq_array := butlast (pq_array q)\<rparr>)
      | Some cmp \<Rightarrow>
          let result = pqe_data (pq_array q ! 0); rest = butlast (pq_array q) in
          if rest = [] then (Some result, q\<lparr>pq_array := rest\<rparr>)
          else (Some result, q\<lparr>pq_array := sift_down_root cmp 0 (rest[0 := last (pq_array q)])\<rparr>))"

definition prio_queue_peek :: "'a prio_queue \<Rightarrow> 'a option" where
  "prio_queue_peek q =
     (if pq_array q = [] then None
      else if pq_compare q = None then Some (pqe_data (pq_array q ! (length (pq_array q) - 1)))
      else Some (pqe_data (pq_array q ! 0)))"

definition prio_queue_replace :: "'a \<Rightarrow> 'a prio_queue \<Rightarrow> 'a prio_queue" where
  "prio_queue_replace thing q =
     (if pq_array q = [] then prio_queue_put thing q
      else
        let new = \<lparr>pqe_ctr = pq_insertion_ctr q, pqe_data = thing\<rparr> in
        case pq_compare q of
          None \<Rightarrow> q\<lparr>pq_array := (pq_array q)[length (pq_array q) - 1 := new],
                    pq_insertion_ctr := pq_insertion_ctr q + 1\<rparr>
        | Some cmp \<Rightarrow> q\<lparr>pq_array := sift_down_root cmp 0 ((pq_array q)[0 := new]),
                    pq_insertion_ctr := pq_insertion_ctr q + 1\<rparr>)"

lemma length_sift_down_root [simp]: "length (sift_down_root cmp ix a) = length a"
  by (induction cmp ix a rule: sift_down_root.induct)
    (subst sift_down_root.simps, simp add: Let_def pq_swap_def)

lemma prio_queue_get_length:
  "prio_queue_get q = (Some x, q') \<Longrightarrow> length (pq_array q') < length (pq_array q)"
  by (auto simp: prio_queue_get_def Let_def split: if_splits option.splits)

text \<open>\<open>while ((x = prio_queue_get(&queue)))\<close>, the loop of the callers.\<close>

function prio_queue_drain :: "'a prio_queue \<Rightarrow> 'a list" where
  "prio_queue_drain q =
     (case prio_queue_get q of
        (None, q') \<Rightarrow> []
      | (Some x, q') \<Rightarrow> x # prio_queue_drain q')"
  by pat_completeness auto
termination
  by (relation "measure (\<lambda>q. length (pq_array q))") (auto dest: prio_queue_get_length [OF sym])

declare prio_queue_drain.simps [simp del]

section \<open>The heap\<close>

definition pqe_le :: "('a \<Rightarrow> 'a \<Rightarrow> int) \<Rightarrow> 'a prio_queue_entry \<Rightarrow> 'a prio_queue_entry \<Rightarrow> bool" where
  "pqe_le cmp e f \<longleftrightarrow> cmp (pqe_data e) (pqe_data f) < 0 \<or>
     cmp (pqe_data e) (pqe_data f) = 0 \<and> pqe_ctr e \<le> pqe_ctr f"

lemma pq_entry_compare_le: "pq_entry_compare cmp a i j \<le> 0 \<longleftrightarrow> pqe_le cmp (a ! i) (a ! j)"
  by (auto simp: pq_entry_compare_def pqe_le_def Let_def)

text \<open>A heap except above, or below, the element at \<open>k\<close>.\<close>

definition pq_heap :: "('a \<Rightarrow> 'a \<Rightarrow> int) \<Rightarrow> 'a prio_queue_entry list \<Rightarrow> bool" where
  "pq_heap cmp a \<longleftrightarrow> (\<forall>i. 0 < i \<and> i < length a \<longrightarrow> pqe_le cmp (a ! ((i - 1) div 2)) (a ! i))"

definition pq_heap_up :: "('a \<Rightarrow> 'a \<Rightarrow> int) \<Rightarrow> nat \<Rightarrow> 'a prio_queue_entry list \<Rightarrow> bool" where
  "pq_heap_up cmp k a \<longleftrightarrow>
     (\<forall>i. 0 < i \<and> i < length a \<and> i \<noteq> k \<longrightarrow> pqe_le cmp (a ! ((i - 1) div 2)) (a ! i)) \<and>
     (0 < k \<longrightarrow> (\<forall>i. 0 < i \<and> i < length a \<and> (i - 1) div 2 = k \<longrightarrow> pqe_le cmp (a ! ((k - 1) div 2)) (a ! i)))"

definition pq_heap_down :: "('a \<Rightarrow> 'a \<Rightarrow> int) \<Rightarrow> nat \<Rightarrow> 'a prio_queue_entry list \<Rightarrow> bool" where
  "pq_heap_down cmp k a \<longleftrightarrow>
     (\<forall>i. 0 < i \<and> i < length a \<and> (i - 1) div 2 \<noteq> k \<longrightarrow> pqe_le cmp (a ! ((i - 1) div 2)) (a ! i)) \<and>
     (0 < k \<longrightarrow> (\<forall>i. 0 < i \<and> i < length a \<and> (i - 1) div 2 = k \<longrightarrow> pqe_le cmp (a ! ((k - 1) div 2)) (a ! i)))"

lemma mset_pq_swap: "i < length a \<Longrightarrow> j < length a \<Longrightarrow> mset (pq_swap i j a) = mset a"
  unfolding pq_swap_def by (metis mset_swap list_update_id list_update_swap)

lemma length_pq_swap [simp]: "length (pq_swap i j a) = length a"
  by (simp add: pq_swap_def)

lemma nth_pq_swap:
  "i < length a \<Longrightarrow> j < length a \<Longrightarrow> k < length a \<Longrightarrow>
   pq_swap i j a ! k = (if k = j then a ! i else if k = i then a ! j else a ! k)"
  by (simp add: pq_swap_def nth_list_update)

lemma parent_less: "0 < (i::nat) \<Longrightarrow> (i - 1) div 2 < i"
  by linarith

lemma mset_pq_bubble_up: "ix < length a \<Longrightarrow> mset (pq_bubble_up cmp ix a) = mset a"
proof (induction cmp ix a rule: pq_bubble_up.induct)
  case (1 cmp ix a)
  show ?case
  proof (cases "ix = 0")
    case False
    with "1.prems" have "(ix - 1) div 2 < length a" by linarith
    with "1.IH" [OF False refl] "1.prems" mset_pq_swap [of "(ix - 1) div 2" a ix] False show ?thesis
      by (subst pq_bubble_up.simps) (simp add: Let_def)
  qed (simp add: pq_bubble_up.simps)
qed

lemma mset_sift_down_root: "mset (sift_down_root cmp ix a) = mset a"
proof (induction cmp ix a rule: sift_down_root.induct)
  case (1 cmp ix a)
  show ?case
  proof (cases "ix * 2 + 1 < length a")
    case True
    define c where "c = (if ix * 2 + 1 + 1 < length a \<and> pq_entry_compare cmp a (ix * 2 + 1) (ix * 2 + 1 + 1) \<ge> 0
                     then ix * 2 + 1 + 1 else ix * 2 + 1)"
    have "c < length a" "ix < length a"
      using True by (auto simp: c_def)
    with "1.IH" [OF True refl c_def] mset_pq_swap [of c a ix] show ?thesis
      by (subst sift_down_root.simps) (simp only: c_def [symmetric] Let_def if_True True, simp)
  qed (simp add: sift_down_root.simps)
qed

section \<open>Comparison functions\<close>

locale comparator =
  fixes cmp :: "'a \<Rightarrow> 'a \<Rightarrow> int"
  assumes cmp_sgn: "sgn (cmp y x) = - sgn (cmp x y)"
    and cmp_trans: "cmp x y \<le> 0 \<Longrightarrow> cmp y z \<le> 0 \<Longrightarrow> cmp x z \<le> 0"
begin

lemma cmp_swap: "cmp y x \<le> 0 \<longleftrightarrow> 0 \<le> cmp x y" "cmp y x = 0 \<longleftrightarrow> cmp x y = 0" "cmp y x < 0 \<longleftrightarrow> 0 < cmp x y"
  using cmp_sgn [of x y] by (auto simp: sgn_if split: if_splits)

lemma le_total: "pqe_le cmp e f \<or> pqe_le cmp f e"
  using cmp_swap [of "pqe_data e" "pqe_data f"] by (auto simp: pqe_le_def)

lemma cmp_less_trans1: "cmp x y \<le> 0 \<Longrightarrow> cmp y z < 0 \<Longrightarrow> cmp x z < 0"
proof (rule ccontr)
  assume *: "cmp x y \<le> 0" "cmp y z < 0" "\<not> cmp x z < 0"
  then have "cmp z x \<le> 0" using cmp_swap(1) [of z x] by simp
  from cmp_trans [OF this *(1)] have "0 \<le> cmp y z" using cmp_swap(1) [of z y] by simp
  with *(2) show False by simp
qed

lemma cmp_less_trans2: "cmp x y < 0 \<Longrightarrow> cmp y z \<le> 0 \<Longrightarrow> cmp x z < 0"
proof (rule ccontr)
  assume *: "cmp x y < 0" "cmp y z \<le> 0" "\<not> cmp x z < 0"
  then have "cmp z x \<le> 0" using cmp_swap(1) [of z x] by simp
  from cmp_trans [OF *(2) this] have "0 \<le> cmp x y" using cmp_swap(1) [of y x] by simp
  with *(1) show False by simp
qed

lemma cmp_eq_trans: "cmp x y = 0 \<Longrightarrow> cmp y z = 0 \<Longrightarrow> cmp x z = 0"
  using cmp_trans [of x y z] cmp_trans [of z y x] cmp_swap(1) [of x z] cmp_swap(2) [of y x] cmp_swap(2) [of z y] cmp_swap(2) [of x z]
  by simp

lemma le_trans: "pqe_le cmp e f \<Longrightarrow> pqe_le cmp f g \<Longrightarrow> pqe_le cmp e g"
proof -
  assume "pqe_le cmp e f" "pqe_le cmp f g"
  then consider "cmp (pqe_data e) (pqe_data f) < 0" "cmp (pqe_data f) (pqe_data g) \<le> 0"
    | "cmp (pqe_data e) (pqe_data f) \<le> 0" "cmp (pqe_data f) (pqe_data g) < 0"
    | "cmp (pqe_data e) (pqe_data f) = 0" "cmp (pqe_data f) (pqe_data g) = 0" "pqe_ctr e \<le> pqe_ctr g"
    by (auto simp: pqe_le_def)
  then show ?thesis
    by cases (auto simp: pqe_le_def dest: cmp_less_trans1 cmp_less_trans2 cmp_eq_trans)
qed

lemma le_antisym_ctr: "pqe_le cmp e f \<Longrightarrow> pqe_le cmp f e \<Longrightarrow> pqe_ctr e = pqe_ctr f"
  using cmp_swap [of "pqe_data e" "pqe_data f"] by (auto simp: pqe_le_def)

lemma entry_compare_ge: "pq_entry_compare cmp a i j \<ge> 0 \<longleftrightarrow> pqe_le cmp (a ! j) (a ! i)"
  using cmp_swap [of "pqe_data (a ! i)" "pqe_data (a ! j)"]
  by (auto simp: pq_entry_compare_def pqe_le_def Let_def)

lemma heap_root_least: "pq_heap cmp a \<Longrightarrow> i < length a \<Longrightarrow> pqe_le cmp (a ! 0) (a ! i)"
proof (induction i rule: less_induct)
  case (less i)
  show ?case
  proof (cases "i = 0")
    case True
    then show ?thesis using le_total [of "a ! 0" "a ! 0"] by simp
  next
    case False
    with less.prems have "pqe_le cmp (a ! ((i - 1) div 2)) (a ! i)"
      by (simp add: pq_heap_def)
    moreover have "pqe_le cmp (a ! 0) (a ! ((i - 1) div 2))"
      using less.IH [of "(i - 1) div 2"] less.prems False parent_less [of i] by simp
    ultimately show ?thesis using le_trans by blast
  qed
qed

lemma bubble_step:
  assumes "pq_heap_up cmp k a" "0 < k" "k < length a" "\<not> pqe_le cmp (a ! ((k - 1) div 2)) (a ! k)"
  shows "pq_heap_up cmp ((k - 1) div 2) (pq_swap ((k - 1) div 2) k a)"
proof -
  define p where "p = (k - 1) div 2"
  have p: "p < k" "p < length a"
    using assms(2,3) parent_less [of k] by (simp_all add: p_def)
  have up: "pqe_le cmp (a ! k) (a ! p)"
    using assms(4) le_total by (auto simp: p_def)
  have heap: "0 < i \<Longrightarrow> i < length a \<Longrightarrow> i \<noteq> k \<Longrightarrow> pqe_le cmp (a ! ((i - 1) div 2)) (a ! i)" for i
    using assms(1) by (simp add: pq_heap_up_def)
  have below: "0 < i \<Longrightarrow> i < length a \<Longrightarrow> (i - 1) div 2 = k \<Longrightarrow> pqe_le cmp (a ! p) (a ! i)" for i
    using assms(1,2) by (simp add: pq_heap_up_def p_def)
  have nth: "i < length a \<Longrightarrow> pq_swap p k a ! i = (if i = k then a ! p else if i = p then a ! k else a ! i)" for i
    using p(2) assms(3) by (rule nth_pq_swap)
  have "pqe_le cmp (pq_swap p k a ! ((i - 1) div 2)) (pq_swap p k a ! i)"
    if i: "0 < i" "i < length a" "i \<noteq> p" for i
  proof -
    have q: "(i - 1) div 2 < length a" using i parent_less [of i] by linarith
    have pk: "(k - 1) div 2 = p" by (simp add: p_def)
    consider "i = k" | "i \<noteq> k" "(i - 1) div 2 = k" | "i \<noteq> k" "(i - 1) div 2 = p" | "i \<noteq> k" "(i - 1) div 2 \<noteq> k" "(i - 1) div 2 \<noteq> p"
      by blast
    then show ?thesis
    proof cases
      case 1
      then show ?thesis using nth [OF i(2)] nth [OF p(2)] up p(1) by (simp only: pk) simp
    next
      case 2
      then show ?thesis using nth [OF i(2)] nth [OF assms(3)] below [OF i(1,2)] i(3) by (simp only:) simp
    next
      case 3
      then show ?thesis
        using nth [OF i(2)] nth [OF p(2)] le_trans [OF up, of "a ! i"] heap [OF i(1,2)] i(3) p(1) by simp
    next
      case 4
      then show ?thesis using nth [OF i(2)] nth [OF q] heap [OF i(1,2)] i(3) by simp
    qed
  qed
  moreover have "pqe_le cmp (pq_swap p k a ! ((p - 1) div 2)) (pq_swap p k a ! i)"
    if i: "0 < p" "0 < i" "i < length a" "(i - 1) div 2 = p" for i
  proof -
    have "(p - 1) div 2 < p" using i(1) by (rule parent_less)
    then have "pqe_le cmp (a ! ((p - 1) div 2)) (a ! p)" "pq_swap p k a ! ((p - 1) div 2) = a ! ((p - 1) div 2)"
      using heap [of p] nth [of "(p - 1) div 2"] p i by auto
    moreover have "i \<noteq> k \<Longrightarrow> pqe_le cmp (a ! p) (a ! i)" "i \<noteq> p"
      using heap [of i] i parent_less [of i] by auto
    ultimately show ?thesis
      using nth [of i] i(3) le_trans by auto
  qed
  ultimately show ?thesis
    unfolding p_def [symmetric] pq_heap_up_def by simp
qed

lemma heap_bubble_up: "pq_heap_up cmp k a \<Longrightarrow> k < length a \<Longrightarrow> pq_heap cmp (pq_bubble_up cmp k a)"
proof (induction k arbitrary: a rule: less_induct)
  case (less k)
  show ?case
  proof (cases "k = 0 \<or> pqe_le cmp (a ! ((k - 1) div 2)) (a ! k)")
    case True
    with less.prems have "pq_heap cmp a"
      unfolding pq_heap_def pq_heap_up_def by auto
    with True show ?thesis
      by (subst pq_bubble_up.simps) (auto simp: Let_def pq_entry_compare_le)
  next
    case False
    then have "pq_heap cmp (pq_bubble_up cmp ((k - 1) div 2) (pq_swap ((k - 1) div 2) k a))"
      using less.prems parent_less [of k] by (intro less.IH bubble_step) auto
    with False show ?thesis
      by (subst pq_bubble_up.simps) (auto simp: Let_def pq_entry_compare_le)
  qed
qed

lemma sift_step:
  assumes "pq_heap_down cmp k a" "c < length a" "0 < c" "(c - 1) div 2 = k"
    "\<And>i. 0 < i \<Longrightarrow> i < length a \<Longrightarrow> (i - 1) div 2 = k \<Longrightarrow> pqe_le cmp (a ! c) (a ! i)"
    "pqe_le cmp (a ! c) (a ! k)"
  shows "pq_heap_down cmp c (pq_swap c k a)"
proof -
  have k: "k < c" "k < length a" using assms(2-4) parent_less [of c] by auto
  have heap: "0 < i \<Longrightarrow> i < length a \<Longrightarrow> (i - 1) div 2 \<noteq> k \<Longrightarrow> pqe_le cmp (a ! ((i - 1) div 2)) (a ! i)" for i
    using assms(1) by (simp add: pq_heap_down_def)
  have above: "0 < k \<Longrightarrow> pqe_le cmp (a ! ((k - 1) div 2)) (a ! c)"
    using assms by (simp add: pq_heap_down_def)
  have nth: "i < length a \<Longrightarrow> pq_swap c k a ! i = (if i = k then a ! c else if i = c then a ! k else a ! i)" for i
    using assms(2) k(2) by (rule nth_pq_swap)
  have "pqe_le cmp (pq_swap c k a ! ((i - 1) div 2)) (pq_swap c k a ! i)"
    if i: "0 < i" "i < length a" "(i - 1) div 2 \<noteq> c" for i
  proof -
    have p: "(i - 1) div 2 < i" "(i - 1) div 2 < length a" using i parent_less [of i] by auto
    consider "i = k" | "(i - 1) div 2 = k" "i = c" | "(i - 1) div 2 = k" "i \<noteq> c" "i \<noteq> k" | "i \<noteq> k" "i \<noteq> c" "(i - 1) div 2 \<noteq> k"
      using assms(4) by blast
    then show ?thesis
      using nth [OF i(2)] nth [OF p(2)] p above heap [OF i(1,2)] assms(5) [OF i(1,2)] assms(6) i k
      by cases auto
  qed
  moreover have "pqe_le cmp (pq_swap c k a ! ((c - 1) div 2)) (pq_swap c k a ! i)"
    if i: "0 < i" "i < length a" "(i - 1) div 2 = c" for i
  proof -
    have "i \<noteq> c" "i \<noteq> k" using parent_less [OF i(1)] i k by auto
    moreover have "pqe_le cmp (a ! c) (a ! i)" using heap [OF i(1,2)] i(3) k by simp
    ultimately show ?thesis using nth [OF i(2)] nth [OF k(2)] assms(4) by simp
  qed
  ultimately show ?thesis
    unfolding pq_heap_down_def by simp
qed

lemma heap_sift_down: "pq_heap_down cmp k a \<Longrightarrow> pq_heap cmp (sift_down_root cmp k a)"
proof (induction "length a - k" arbitrary: k a rule: less_induct)
  case (less k a)
  show ?case
  proof (cases "k * 2 + 1 < length a")
    case False
    have "(i - 1) div 2 \<noteq> k" if "0 < i" "i < length a" for i
      using that False by linarith
    with less.prems have "pq_heap cmp a"
      by (simp add: pq_heap_def pq_heap_down_def)
    with False show ?thesis by (simp add: sift_down_root.simps)
  next
    case True
    define c where "c = (if k * 2 + 1 + 1 < length a \<and> pq_entry_compare cmp a (k * 2 + 1) (k * 2 + 1 + 1) \<ge> 0
                     then k * 2 + 1 + 1 else k * 2 + 1)"
    have c: "c < length a" "0 < c" "(c - 1) div 2 = k" "k < c"
      using True by (auto simp: c_def)
    have least: "pqe_le cmp (a ! c) (a ! i)" if i: "0 < i" "i < length a" "(i - 1) div 2 = k" for i
    proof -
      have "i = k * 2 + 1 \<or> i = k * 2 + 1 + 1" using i(1,3) by linarith
      then show ?thesis
        using i(2) le_total [of "a ! (k * 2 + 1)"] le_total [of "a ! (k * 2 + 1 + 1)"]
        by (auto simp: c_def entry_compare_ge)
    qed
    have unfold: "sift_down_root cmp k a =
        (if pq_entry_compare cmp a k c \<le> 0 then a else sift_down_root cmp c (pq_swap c k a))"
      using True by (subst sift_down_root.simps) (simp only: c_def [symmetric] Let_def if_True)
    show ?thesis
    proof (cases "pqe_le cmp (a ! k) (a ! c)")
      case True
      have "pqe_le cmp (a ! ((i - 1) div 2)) (a ! i)" if "0 < i" "i < length a" for i
        using that less.prems le_trans [OF True least [OF that]]
        by (cases "(i - 1) div 2 = k") (auto simp: pq_heap_down_def)
      then have "pq_heap cmp a" by (simp add: pq_heap_def)
      with True show ?thesis by (simp add: unfold pq_entry_compare_le)
    next
      case False
      then have "pqe_le cmp (a ! c) (a ! k)" using le_total by blast
      then have "pq_heap cmp (sift_down_root cmp c (pq_swap c k a))"
        using less c least by (intro less.hyps sift_step) auto
      with False show ?thesis by (simp add: unfold pq_entry_compare_le)
    qed
  qed
qed

end


section \<open>The invariant of a queue\<close>

definition pq_ok :: "'a prio_queue \<Rightarrow> bool" where
  "pq_ok q \<longleftrightarrow>
     (case pq_compare q of None \<Rightarrow> True | Some cmp \<Rightarrow> comparator cmp \<and> pq_heap cmp (pq_array q)) \<and>
     distinct (map pqe_ctr (pq_array q)) \<and>
     (\<forall>e \<in> set (pq_array q). pqe_ctr e < pq_insertion_ctr q) \<and>
     length (pq_array q) \<le> pq_alloc q"

definition pq_entries :: "'a prio_queue \<Rightarrow> 'a prio_queue_entry multiset" where
  "pq_entries q = mset (pq_array q)"

definition pq_elems :: "'a prio_queue \<Rightarrow> 'a multiset" where
  "pq_elems q = image_mset pqe_data (pq_entries q)"

lemma pq_ok_mset:
  "mset a = mset b \<Longrightarrow> distinct (map pqe_ctr a) = distinct (map pqe_ctr b)"
  by (metis mset_map mset_eq_imp_distinct_iff)

lemma alloc_grow_ge: "nr \<le> alloc_grow nr alloc"
  by (simp add: alloc_grow_def)

lemma prio_queue_put_simps [simp]:
  "pq_compare (prio_queue_put x q) = pq_compare q"
  "pq_insertion_ctr (prio_queue_put x q) = pq_insertion_ctr q + 1"
  "pq_alloc (prio_queue_put x q) = alloc_grow (length (pq_array q) + 1) (pq_alloc q)"
  by (simp_all add: prio_queue_put_def Let_def split: option.split)

lemma pq_entries_put:
  "pq_entries (prio_queue_put x q) = add_mset \<lparr>pqe_ctr = pq_insertion_ctr q, pqe_data = x\<rparr> (pq_entries q)"
  by (simp add: prio_queue_put_def pq_entries_def Let_def mset_pq_bubble_up split: option.split)

lemma mset_pq_array_put:
  "mset (pq_array (prio_queue_put x q)) = mset (pq_array q @ [\<lparr>pqe_ctr = pq_insertion_ctr q, pqe_data = x\<rparr>])"
  using pq_entries_put [of x q] by (simp add: pq_entries_def)

lemma pq_ok_put:
  assumes "pq_ok q"
  shows "pq_ok (prio_queue_put x q)"
proof -
  let ?new = "\<lparr>pqe_ctr = pq_insertion_ctr q, pqe_data = x\<rparr>"
  have "distinct (map pqe_ctr (pq_array q @ [?new]))"
    using assms by (auto simp: pq_ok_def)
  then have d: "distinct (map pqe_ctr (pq_array (prio_queue_put x q)))"
    using pq_ok_mset [OF mset_pq_array_put [of x q]] by simp
  have st: "set (pq_array (prio_queue_put x q)) = insert ?new (set (pq_array q))"
    using mset_eq_setD [OF mset_pq_array_put [of x q]] by simp
  have heap: "pq_heap cmp (pq_array (prio_queue_put x q))" if "pq_compare q = Some cmp" for cmp
  proof -
    have c: "comparator cmp" using assms that by (simp add: pq_ok_def)
    have h: "pq_heap cmp (pq_array q)" using assms that by (simp add: pq_ok_def)
    have "pqe_le cmp ((pq_array q @ [?new]) ! ((i - 1) div 2)) ((pq_array q @ [?new]) ! i)"
      if "0 < i" "i < length (pq_array q)" for i
    proof -
      have "(i - 1) div 2 < length (pq_array q)" using that parent_less [of i] by linarith
      with h that show ?thesis by (simp add: pq_heap_def nth_append)
    qed
    moreover have "\<not> (i - 1) div 2 = length (pq_array q)" if "0 < i" "i < Suc (length (pq_array q))" for i
      using that parent_less [of i] by linarith
    ultimately have "pq_heap_up cmp (length (pq_array q)) (pq_array q @ [?new])"
      by (auto simp: pq_heap_up_def less_Suc_eq)
    then show ?thesis
      using comparator.heap_bubble_up [OF c] that by (simp add: prio_queue_put_def Let_def)
  qed
  have l: "length (pq_array (prio_queue_put x q)) = length (pq_array q) + 1"
    using mset_eq_length [OF mset_pq_array_put [of x q]] by simp
  show ?thesis
    using assms d heap alloc_grow_ge [of "length (pq_array q) + 1" "pq_alloc q"] unfolding pq_ok_def l st
    by (auto split: option.split)
qed


text \<open>Overwriting the root and pushing it down, as \<open>prio_queue_get\<close> and \<open>prio_queue_replace\<close> do.\<close>

lemma heap_new_root:
  assumes "comparator cmp" "pq_heap cmp a" "length b \<le> length a"
    and "\<And>i. 0 < i \<Longrightarrow> i < length b \<Longrightarrow> b ! i = a ! i"
  shows "pq_heap cmp (sift_down_root cmp 0 b)"
proof (rule comparator.heap_sift_down [OF assms(1)])
  have "pqe_le cmp (b ! ((i - 1) div 2)) (b ! i)" if "0 < i" "i < length b" "(i - 1) div 2 \<noteq> 0" for i
    using assms that parent_less [of i] by (auto simp: pq_heap_def)
  then show "pq_heap_down cmp 0 b"
    by (simp add: pq_heap_down_def)
qed

text \<open>The entry that \<open>prio_queue_get\<close> takes: the last one of a stack, the root of a heap.\<close>

definition pq_top :: "'a prio_queue \<Rightarrow> 'a prio_queue_entry" where
  "pq_top q = (if pq_compare q = None then last (pq_array q) else hd (pq_array q))"

lemma prio_queue_get_empty: "pq_array q = [] \<Longrightarrow> prio_queue_get q = (None, q)"
  by (simp add: prio_queue_get_def)

lemma butlast_update_root:
  "butlast a \<noteq> [] \<Longrightarrow> add_mset (hd a) (mset ((butlast a)[0 := last a])) = mset a"
proof -
  assume "butlast a \<noteq> []"
  then obtain x y ys where a: "a = x # ys @ [y]"
    by (cases a rule: rev_cases; cases "butlast a") auto
  show ?thesis by (simp add: a)
qed

lemma prio_queue_get_nonempty:
  assumes "pq_array q \<noteq> []"
  obtains q' where "prio_queue_get q = (Some (pqe_data (pq_top q)), q')"
    "pq_entries q = add_mset (pq_top q) (pq_entries q')" "pq_compare q' = pq_compare q"
    "pq_insertion_ctr q' = pq_insertion_ctr q" "pq_alloc q' = pq_alloc q"
    "pq_ok q \<Longrightarrow> pq_ok q'"
proof -
  obtain q' where q': "prio_queue_get q = (Some (pqe_data (pq_top q)), q')"
    and rest: "pq_compare q' = pq_compare q" "pq_insertion_ctr q' = pq_insertion_ctr q" "pq_alloc q' = pq_alloc q"
  proof
    show "prio_queue_get q = (Some (pqe_data (pq_top q)), snd (prio_queue_get q))"
      using assms by (simp add: prio_queue_get_def pq_top_def Let_def hd_conv_nth split: option.split)
    show "pq_compare (snd (prio_queue_get q)) = pq_compare q"
      "pq_insertion_ctr (snd (prio_queue_get q)) = pq_insertion_ctr q"
      "pq_alloc (snd (prio_queue_get q)) = pq_alloc q"
      by (simp_all add: prio_queue_get_def Let_def split: option.split)
  qed
  have e: "pq_entries q = add_mset (pq_top q) (pq_entries q')"
  proof (cases "pq_compare q")
    case None
    have "mset (butlast (pq_array q) @ [last (pq_array q)]) = mset (pq_array q)"
      using assms by simp
    then have "add_mset (last (pq_array q)) (mset (butlast (pq_array q))) = mset (pq_array q)"
      by simp
    with None q' assms show ?thesis
      by (auto simp: prio_queue_get_def pq_top_def pq_entries_def)
  next
    case (Some cmp)
    show ?thesis
    proof (cases "butlast (pq_array q) = []")
      case True
      with assms obtain x where "pq_array q = [x]" by (cases "pq_array q") (auto split: if_splits)
      with q' Some show ?thesis by (auto simp: prio_queue_get_def pq_top_def pq_entries_def)
    next
      case False
      with q' Some assms butlast_update_root [OF False] show ?thesis
        by (auto simp: prio_queue_get_def pq_top_def pq_entries_def Let_def mset_sift_down_root)
    qed
  qed
  moreover have "pq_ok q'" if ok: "pq_ok q"
  proof -
    have m: "mset (pq_array q) = mset (pq_top q # pq_array q')"
      using e by (simp add: pq_entries_def)
    have "distinct (map pqe_ctr (pq_top q # pq_array q'))"
      using ok pq_ok_mset [OF m] by (simp add: pq_ok_def)
    moreover have "set (pq_array q') \<subseteq> set (pq_array q)" "length (pq_array q') \<le> length (pq_array q)"
      using mset_eq_setD [OF m] mset_eq_length [OF m] by auto
    moreover have "pq_heap cmp (pq_array q')" if c: "pq_compare q = Some cmp" for cmp
    proof (cases "butlast (pq_array q) = []")
      case True
      with q' c assms show ?thesis by (auto simp: prio_queue_get_def Let_def pq_heap_def)
    next
      case False
      have "pq_heap cmp (sift_down_root cmp 0 ((butlast (pq_array q))[0 := last (pq_array q)]))"
        using ok c by (intro heap_new_root [of cmp "pq_array q"]) (auto simp: pq_ok_def nth_butlast)
      with False q' c assms show ?thesis by (auto simp: prio_queue_get_def Let_def)
    qed
    ultimately show ?thesis
      using ok rest by (auto simp: pq_ok_def split: option.splits)
  qed
  ultimately show ?thesis using that q' rest by blast
qed

lemma pq_top_least:
  assumes "pq_ok q" "pq_compare q = Some cmp" "e \<in># pq_entries q"
  shows "pqe_le cmp (pq_top q) e"
proof -
  obtain i where "i < length (pq_array q)" "e = pq_array q ! i"
    using assms(3) by (auto simp: pq_entries_def in_set_conv_nth)
  moreover have "pq_array q \<noteq> []" using calculation by auto
  ultimately show ?thesis
    using comparator.heap_root_least [of cmp "pq_array q" i] assms(1,2)
    by (simp add: pq_ok_def pq_top_def hd_conv_nth)
qed


section \<open>The contract of a work queue\<close>

text \<open>
  What the walks rely on, whether the queue is a stack or a heap: nothing is lost, nothing is
  invented, and \<open>NULL\<close> means empty.
\<close>

locale work_queue =
  fixes put :: "'a \<Rightarrow> 'q \<Rightarrow> 'q"
    and get :: "'q \<Rightarrow> 'a option \<times> 'q"
    and elems :: "'q \<Rightarrow> 'a multiset"
    and valid :: "'q \<Rightarrow> bool"
  assumes valid_put: "valid q \<Longrightarrow> valid (put x q)"
    and elems_put: "valid q \<Longrightarrow> elems (put x q) = add_mset x (elems q)"
    and get_empty: "valid q \<Longrightarrow> elems q = {#} \<Longrightarrow> get q = (None, q)"
    and get_some: "valid q \<Longrightarrow> elems q \<noteq> {#} \<Longrightarrow>
      \<exists>x q'. get q = (Some x, q') \<and> valid q' \<and> elems q = add_mset x (elems q')"
begin

lemma put_all: "valid q \<Longrightarrow> valid (fold put xs q) \<and> elems (fold put xs q) = mset xs + elems q"
  by (induction xs arbitrary: q) (simp_all add: valid_put elems_put)

lemma get_NoneD: "valid q \<Longrightarrow> get q = (None, q') \<Longrightarrow> elems q = {#} \<and> q' = q"
  using get_empty get_some by fastforce

lemma get_SomeD: "valid q \<Longrightarrow> get q = (Some x, q') \<Longrightarrow> valid q' \<and> elems q = add_mset x (elems q')"
  using get_empty [of q] get_some [of q] by (cases "elems q = {#}") auto

end

interpretation pq: work_queue prio_queue_put prio_queue_get pq_elems pq_ok
proof
  fix q :: "'a prio_queue" and x
  assume ok: "pq_ok q"
  show "pq_ok (prio_queue_put x q)" using ok by (rule pq_ok_put)
  show "pq_elems (prio_queue_put x q) = add_mset x (pq_elems q)"
    by (simp add: pq_elems_def pq_entries_put)
  show "prio_queue_get q = (None, q)" if "pq_elems q = {#}"
    using that by (intro prio_queue_get_empty) (simp add: pq_elems_def pq_entries_def)
  show "\<exists>x q'. prio_queue_get q = (Some x, q') \<and> pq_ok q' \<and> pq_elems q = add_mset x (pq_elems q')"
    if "pq_elems q \<noteq> {#}"
  proof -
    have "pq_array q \<noteq> []" using that by (auto simp: pq_elems_def pq_entries_def)
    from prio_queue_get_nonempty [OF this] ok show ?thesis
      by (metis pq_elems_def image_mset_add_mset)
  qed
qed

section \<open>Draining the queue sorts\<close>

function pq_drain_entries :: "'a prio_queue \<Rightarrow> 'a prio_queue_entry list" where
  "pq_drain_entries q = (if pq_array q = [] then [] else pq_top q # pq_drain_entries (snd (prio_queue_get q)))"
  by pat_completeness auto
termination
proof (relation "measure (\<lambda>q. length (pq_array q))")
  fix q :: "'a prio_queue"
  assume "pq_array q \<noteq> []"
  then show "(snd (prio_queue_get q), q) \<in> measure (\<lambda>q. length (pq_array q))"
    using prio_queue_get_length [of q] prio_queue_get_nonempty [of q]
    by (metis in_measure snd_conv)
qed simp

declare pq_drain_entries.simps [simp del]

lemma prio_queue_drain_entries: "prio_queue_drain q = map pqe_data (pq_drain_entries q)"
proof (induction q rule: pq_drain_entries.induct)
  case (1 q)
  show ?case
  proof (cases "pq_array q = []")
    case True
    then show ?thesis by (simp add: prio_queue_drain.simps pq_drain_entries.simps prio_queue_get_empty)
  next
    case False
    then obtain q' where "prio_queue_get q = (Some (pqe_data (pq_top q)), q')"
      by (rule prio_queue_get_nonempty)
    with 1 False show ?thesis
      by (simp add: prio_queue_drain.simps [of q] pq_drain_entries.simps [of q])
  qed
qed

lemma pq_drain_entries_sorted:
  "pq_ok q \<Longrightarrow> pq_compare q = Some cmp \<Longrightarrow>
   mset (pq_drain_entries q) = pq_entries q \<and> sorted_wrt (pqe_le cmp) (pq_drain_entries q)"
proof (induction q rule: pq_drain_entries.induct)
  case (1 q)
  show ?case
  proof (cases "pq_array q = []")
    case True
    then show ?thesis by (simp add: pq_drain_entries.simps pq_entries_def)
  next
    case False
    then obtain q' where q': "prio_queue_get q = (Some (pqe_data (pq_top q)), q')"
      "pq_entries q = add_mset (pq_top q) (pq_entries q')" "pq_compare q' = pq_compare q" "pq_ok q'"
      using prio_queue_get_nonempty "1.prems"(1) by metis
    then have IH: "mset (pq_drain_entries q') = pq_entries q'" "sorted_wrt (pqe_le cmp) (pq_drain_entries q')"
      using "1.IH" [OF False] "1.prems"(2) by simp_all
    have "pqe_le cmp (pq_top q) e" if "e \<in> set (pq_drain_entries q')" for e
      using pq_top_least [OF "1.prems"] q'(2) that IH(1) by (metis set_mset_mset union_iff add_mset_add_single)
    with IH q' False show ?thesis
      by (simp add: pq_drain_entries.simps [of q])
  qed
qed

lemma sorted_wrt_unique:
  "sorted_wrt P xs \<Longrightarrow> sorted_wrt P ys \<Longrightarrow> mset xs = mset ys \<Longrightarrow>
   (\<And>x y. x \<in> set xs \<Longrightarrow> y \<in> set xs \<Longrightarrow> P x y \<Longrightarrow> P y x \<Longrightarrow> x = y) \<Longrightarrow> xs = ys"
proof (induction xs arbitrary: ys)
  case Nil
  then show ?case by simp
next
  case (Cons x xs)
  then obtain y ys' where ys: "ys = y # ys'" by (cases ys) auto
  have "x = y"
  proof (rule ccontr)
    assume "x \<noteq> y"
    then have "x \<in> set ys'" "y \<in> set xs"
      using mset_eq_setD [OF Cons.prems(3)] ys by auto
    with Cons.prems ys \<open>x \<noteq> y\<close> show False by (metis sorted_wrt.simps(2) list.set_intros)
  qed
  with Cons ys show ?case by simp
qed


lemma pq_drain_entries_unique:
  assumes "pq_ok q" "pq_ok r" "pq_compare q = Some cmp" "pq_compare r = Some cmp" "pq_entries q = pq_entries r"
  shows "pq_drain_entries q = pq_drain_entries r"
proof (rule sorted_wrt_unique)
  have q: "mset (pq_drain_entries q) = pq_entries q" "sorted_wrt (pqe_le cmp) (pq_drain_entries q)"
    using pq_drain_entries_sorted [OF assms(1,3)] by auto
  have r: "mset (pq_drain_entries r) = pq_entries r" "sorted_wrt (pqe_le cmp) (pq_drain_entries r)"
    using pq_drain_entries_sorted [OF assms(2,4)] by auto
  show "sorted_wrt (pqe_le cmp) (pq_drain_entries q)" "sorted_wrt (pqe_le cmp) (pq_drain_entries r)"
    "mset (pq_drain_entries q) = mset (pq_drain_entries r)"
    using q r assms(5) by simp_all
  fix e f
  assume e: "e \<in> set (pq_drain_entries q)" "f \<in> set (pq_drain_entries q)" "pqe_le cmp e f" "pqe_le cmp f e"
  have "set (pq_drain_entries q) = set (pq_array q)"
    using q(1) by (metis pq_entries_def set_mset_mset)
  moreover have "comparator cmp" "inj_on pqe_ctr (set (pq_array q))"
    using assms(1,3) by (simp_all add: pq_ok_def distinct_map)
  ultimately show "e = f"
    using e comparator.le_antisym_ctr [of cmp e f] by (auto dest: inj_onD)
qed

text \<open>A queue initialised as \<open>{ compare }\<close>, or zeroed when there is no comparison.\<close>

definition prio_queue_init :: "('a \<Rightarrow> 'a \<Rightarrow> int) option \<Rightarrow> 'a prio_queue" where
  "prio_queue_init compare = \<lparr>pq_compare = compare, pq_insertion_ctr = 0, pq_alloc = 0, pq_array = []\<rparr>"

lemma pq_ok_init: "(\<And>cmp. compare = Some cmp \<Longrightarrow> comparator cmp) \<Longrightarrow> pq_ok (prio_queue_init compare)"
  by (simp add: pq_ok_def prio_queue_init_def pq_heap_def split: option.split)

lemma pq_entries_put_all:
  "pq_entries (fold prio_queue_put xs q) =
     mset (map (\<lambda>(i, x). \<lparr>pqe_ctr = pq_insertion_ctr q + i, pqe_data = x\<rparr>) (enumerate 0 xs)) + pq_entries q \<and>
   pq_compare (fold prio_queue_put xs q) = pq_compare q"
proof (induction xs arbitrary: q)
  case Nil
  then show ?case by simp
next
  case (Cons x xs)
  have "map (\<lambda>(i, x). \<lparr>pqe_ctr = Suc (pq_insertion_ctr q) + i, pqe_data = x\<rparr>) (enumerate 0 xs) =
      map (\<lambda>(i, x). \<lparr>pqe_ctr = pq_insertion_ctr q + i, pqe_data = x\<rparr>) (enumerate (Suc 0) xs)"
    by (simp add: enumerate_Suc_eq comp_def case_prod_unfold)
  from arg_cong [OF this, of mset] Cons [of "prio_queue_put x q"] show ?case
    by (simp add: pq_entries_put)
qed

lemma sorted_wrt_enumerate: "sorted_wrt (\<lambda>e f. fst e < fst f) (enumerate n xs)"
  by (induction xs arbitrary: n) (auto simp: in_set_enumerate_eq)

text \<open>
  C2: A heap queue is a stable sort: whatever is put into an empty queue with a consistent
  comparison function comes out in order, nothing lost or invented, and elements that compare
  equal come out in the order they were put in.
\<close>

theorem prio_queue_stable_sort:
  fixes cmp :: "'a \<Rightarrow> 'a \<Rightarrow> int" and xs :: "'a list"
  assumes "comparator cmp"
  defines "out \<equiv> prio_queue_drain (fold prio_queue_put xs (prio_queue_init (Some cmp)))"
  shows "mset out = mset xs \<and> sorted_wrt (\<lambda>x y. cmp x y \<le> 0) out \<and>
    (\<forall>x. filter (\<lambda>y. cmp x y = 0) out = filter (\<lambda>y. cmp x y = 0) xs)"
proof -
  let ?q = "fold prio_queue_put xs (prio_queue_init (Some cmp))"
  let ?in = "map (\<lambda>(i, x). \<lparr>pqe_ctr = i, pqe_data = x\<rparr>) (enumerate 0 xs)"
  have ok: "pq_ok ?q"
    using pq.put_all pq_ok_init assms(1) by blast
  have e: "pq_entries ?q = mset ?in" and c: "pq_compare ?q = Some cmp"
    using pq_entries_put_all [of xs "prio_queue_init (Some cmp)"]
    by (simp_all add: prio_queue_init_def pq_entries_def)
  let ?es = "pq_drain_entries ?q"
  have es: "mset ?es = mset ?in" "sorted_wrt (pqe_le cmp) ?es"
    using pq_drain_entries_sorted [OF ok c] e by simp_all
  have out: "out = map pqe_data ?es" and xs: "xs = map pqe_data ?in"
    by (simp_all add: out_def prio_queue_drain_entries comp_def case_prod_unfold)
  have "mset (map pqe_data ?es) = mset (map pqe_data ?in)"
    by (simp only: mset_map es(1))
  then have "mset out = mset xs"
    by (simp only: out xs [symmetric])
  moreover have "sorted_wrt (\<lambda>x y. cmp x y \<le> 0) out"
    unfolding out sorted_wrt_map
    using es(2) by (rule sorted_wrt_mono_rel [rotated]) (auto simp: pqe_le_def)
  moreover have "filter (\<lambda>y. cmp x y = 0) out = filter (\<lambda>y. cmp x y = 0) xs" for x
  proof -
    let ?P = "\<lambda>e. cmp x (pqe_data e) = 0"
    have eq: "cmp (pqe_data e) (pqe_data f) = 0" if "?P e" "?P f" for e f
      using comparator.cmp_eq_trans [OF assms(1)] comparator.cmp_swap(2) [OF assms(1)] that by metis
    have "filter ?P ?es = filter ?P ?in"
    proof (rule sorted_wrt_unique [of "\<lambda>e f. pqe_ctr e \<le> pqe_ctr f"])
      have "sorted_wrt (pqe_le cmp) (filter ?P ?es)"
        using es(2) by (rule sorted_wrt_filter)
      then show "sorted_wrt (\<lambda>e f. pqe_ctr e \<le> pqe_ctr f) (filter ?P ?es)"
        by (rule sorted_wrt_mono_rel [rotated]) (auto simp: pqe_le_def eq)
      have "sorted_wrt (\<lambda>e f. pqe_ctr e \<le> pqe_ctr f) ?in"
        unfolding sorted_wrt_map
        by (rule sorted_wrt_mono_rel [OF _ sorted_wrt_enumerate]) auto
      then show "sorted_wrt (\<lambda>e f. pqe_ctr e \<le> pqe_ctr f) (filter ?P ?in)"
        by (rule sorted_wrt_filter)
      show "mset (filter ?P ?es) = mset (filter ?P ?in)"
        using es(1) by simp
      show "e = f" if "e \<in> set (filter ?P ?es)" "f \<in> set (filter ?P ?es)" "pqe_ctr e \<le> pqe_ctr f" "pqe_ctr f \<le> pqe_ctr e" for e f
        using that mset_eq_setD [OF es(1)] by (auto simp: in_set_enumerate_eq)
    qed
    then have "filter (\<lambda>y. cmp x y = 0) (map pqe_data ?es) = filter (\<lambda>y. cmp x y = 0) (map pqe_data ?in)"
      by (simp only: filter_map comp_def)
    then show ?thesis
      by (simp only: out xs [symmetric])
  qed
  ultimately show ?thesis by blast
qed

lemma pq_entries_replace:
  assumes "pq_array q \<noteq> []"
  shows "add_mset (pq_top q) (pq_entries (prio_queue_replace x q)) =
    add_mset \<lparr>pqe_ctr = pq_insertion_ctr q, pqe_data = x\<rparr> (pq_entries q)"
proof (cases "pq_compare q")
  case None
  obtain xs y where "pq_array q = xs @ [y]" using assms by (cases "pq_array q" rule: rev_cases) auto
  with None show ?thesis
    by (simp add: prio_queue_replace_def pq_entries_def pq_top_def Let_def)
next
  case (Some cmp)
  obtain y xs where "pq_array q = y # xs" using assms by (cases "pq_array q") auto
  with Some show ?thesis
    by (simp add: prio_queue_replace_def pq_entries_def pq_top_def Let_def mset_sift_down_root)
qed

text \<open>The allocation is invisible.\<close>

lemma prio_queue_get_alloc:
  "prio_queue_get (q\<lparr>pq_alloc := n\<rparr>) = (fst (prio_queue_get q), (snd (prio_queue_get q))\<lparr>pq_alloc := n\<rparr>)"
  by (simp add: prio_queue_get_def Let_def split: option.split)

lemma prio_queue_drain_alloc: "prio_queue_drain (q\<lparr>pq_alloc := n\<rparr>) = prio_queue_drain q"
proof (induction q rule: prio_queue_drain.induct)
  case (1 q)
  then show ?case
    by (subst (1 2) prio_queue_drain.simps)
      (cases "prio_queue_get q", simp add: prio_queue_get_alloc split: option.split)
qed

text \<open>
  C6: \<open>prio_queue_replace\<close> on a non-empty queue is \<open>prio_queue_get\<close> followed by \<open>prio_queue_put\<close>, as its comment
  promises, in both modes: the queue it leaves is valid and yields the same elements in the
  same order.
\<close>

theorem prio_queue_replace_get_put:
  assumes "pq_ok q" "pq_array q \<noteq> []"
  shows "pq_ok (prio_queue_replace x q) \<and>
    prio_queue_drain (prio_queue_replace x q) = prio_queue_drain (prio_queue_put x (snd (prio_queue_get q)))"
proof -
  let ?r = "prio_queue_replace x q" and ?new = "\<lparr>pqe_ctr = pq_insertion_ctr q, pqe_data = x\<rparr>"
  obtain q' where q': "prio_queue_get q = (Some (pqe_data (pq_top q)), q')"
    "pq_entries q = add_mset (pq_top q) (pq_entries q')" "pq_compare q' = pq_compare q"
    "pq_insertion_ctr q' = pq_insertion_ctr q" "pq_ok q'"
    using prio_queue_get_nonempty [OF assms(2)] assms(1) by metis
  have ok': "pq_ok (prio_queue_put x q')"
    using q'(5) by (rule pq_ok_put)
  have r: "pq_compare ?r = pq_compare q" "pq_insertion_ctr ?r = pq_insertion_ctr q + 1" "pq_alloc ?r = pq_alloc q"
    using assms(2) by (simp_all add: prio_queue_replace_def Let_def split: option.split)
  have e: "pq_entries ?r = pq_entries (prio_queue_put x q')"
    using pq_entries_replace [OF assms(2), of x] q' by (simp add: pq_entries_put)
  have m: "mset (pq_array ?r) = mset (pq_array (prio_queue_put x q'))"
    using e by (simp add: pq_entries_def)
  have "length (pq_array ?r) = length (pq_array q)"
    using m q'(2) pq_entries_put [of x q'] by (metis pq_entries_def size_add_mset size_mset)
  moreover have "pq_heap cmp (pq_array ?r)" if c: "pq_compare q = Some cmp" for cmp
    using assms c heap_new_root [of cmp "pq_array q" "(pq_array q)[0 := ?new]"]
    by (simp add: prio_queue_replace_def pq_ok_def Let_def)
  ultimately have ok: "pq_ok ?r"
    using ok' assms(1) pq_ok_mset [OF m] mset_eq_setD [OF m] r q'(3,4)
    by (auto simp: pq_ok_def split: option.splits)
  show ?thesis
  proof (cases "pq_compare q")
    case None
    obtain ys y where "pq_array q = ys @ [y]"
      using assms(2) by (cases "pq_array q" rule: rev_cases) auto
    with None have "?r\<lparr>pq_alloc := 0\<rparr> = (prio_queue_put x (snd (prio_queue_get q)))\<lparr>pq_alloc := 0\<rparr>"
      by (simp add: prio_queue_replace_def prio_queue_put_def prio_queue_get_def Let_def)
    then show ?thesis using ok prio_queue_drain_alloc by metis
  next
    case (Some cmp)
    then have "pq_drain_entries ?r = pq_drain_entries (prio_queue_put x q')"
      using pq_drain_entries_unique [OF ok ok' _ _ e] r(1) q'(3) by simp
    then show ?thesis using ok q'(1) by (simp add: prio_queue_drain_entries)
  qed
qed


section \<open>The stack\<close>

lemma length_pq_reverse_loop [simp]: "length (pq_reverse_loop i a) = length a"
  by (induction i a rule: pq_reverse_loop.induct) (subst pq_reverse_loop.simps, simp add: Let_def)

lemma nth_pq_reverse_loop:
  "k < length a \<Longrightarrow> pq_reverse_loop i a ! k = (if i \<le> k \<and> k < length a - i then a ! (length a - 1 - k) else a ! k)"
proof (induction i a rule: pq_reverse_loop.induct)
  case (1 i a)
  let ?j = "length a - 1 - i"
  show ?case
  proof (cases "i < ?j")
    case True
    have unfold: "pq_reverse_loop i a = pq_reverse_loop (i + 1) (pq_swap i ?j a)"
      using True by (subst pq_reverse_loop.simps) (simp add: Let_def)
    have IH: "pq_reverse_loop (i + 1) (pq_swap i ?j a) ! k =
        (if i + 1 \<le> k \<and> k < length a - (i + 1) then pq_swap i ?j a ! (length a - 1 - k) else pq_swap i ?j a ! k)"
      using "1.IH" [OF refl True] "1.prems" by simp
    have nth: "m < length a \<Longrightarrow> pq_swap i ?j a ! m = (if m = ?j then a ! i else if m = i then a ! ?j else a ! m)" for m
      using True by (intro nth_pq_swap) auto
    have k: "length a - 1 - k < length a" using "1.prems" by linarith
    consider "k = i" | "k = ?j" | "k < i" | "?j < k" | "i < k" "k < ?j" by linarith
    then show ?thesis
      unfolding unfold IH using nth [OF "1.prems"] nth [OF k] True "1.prems" by cases auto
  next
    case False
    have "pq_reverse_loop i a = a"
      using False by (subst pq_reverse_loop.simps) (simp add: Let_def)
    moreover have "length a - 1 - k = k" if "i \<le> k" "k < length a - i"
      using that False by linarith
    ultimately show ?thesis by simp
  qed
qed

lemma pq_reverse_loop_rev: "pq_reverse_loop 0 a = rev a"
  by (rule nth_equalityI) (simp_all add: nth_pq_reverse_loop rev_nth)

lemma prio_queue_drain_lifo: "pq_compare q = None \<Longrightarrow> prio_queue_drain q = rev (map pqe_data (pq_array q))"
proof (induction q rule: prio_queue_drain.induct)
  case (1 q)
  show ?case
  proof (cases "pq_array q" rule: rev_cases)
    case Nil
    then show ?thesis by (subst prio_queue_drain.simps) (simp add: prio_queue_get_def)
  next
    case (snoc xs e)
    then have g: "prio_queue_get q = (Some (pqe_data e), q\<lparr>pq_array := xs\<rparr>)"
      using "1.prems" by (simp add: prio_queue_get_def)
    then show ?thesis
      using "1.IH" [OF g [symmetric] refl] "1.prems" snoc by (subst prio_queue_drain.simps) simp
  qed
qed

lemma put_all_lifo:
  "pq_compare q = None \<Longrightarrow> map pqe_data (pq_array (fold prio_queue_put xs q)) = map pqe_data (pq_array q) @ xs"
  by (induction xs arbitrary: q) (simp_all, simp add: prio_queue_put_def)

text \<open>
  Without a comparison function the queue is a stack: elements come out last in, first out, and
  after \<open>prio_queue_reverse\<close> in the order they were put in.  Reversing a heap is a \<open>BUG\<close>.
\<close>

theorem prio_queue_stack:
  "prio_queue_drain (fold prio_queue_put xs (prio_queue_init None)) = rev xs \<and>
   map_option prio_queue_drain (prio_queue_reverse (fold prio_queue_put xs (prio_queue_init None))) = Some xs \<and>
   prio_queue_reverse (prio_queue_init (Some cmp)) = None"
proof -
  let ?q = "fold prio_queue_put xs (prio_queue_init None)"
  have c: "pq_compare ?q = None"
    using pq_entries_put_all [of xs "prio_queue_init None"] by (simp add: prio_queue_init_def)
  have a: "map pqe_data (pq_array ?q) = xs"
    using put_all_lifo [of "prio_queue_init None" xs] by (simp add: prio_queue_init_def)
  have "prio_queue_drain (?q\<lparr>pq_array := rev (pq_array ?q)\<rparr>) = xs"
    using c a by (simp add: prio_queue_drain_lifo flip: rev_map)
  then show ?thesis
    using c a prio_queue_drain_lifo [OF c]
    by (auto simp: prio_queue_reverse_def pq_reverse_loop_rev prio_queue_init_def)
qed


section \<open>The comparison functions of the commit walks\<close>

text \<open>
  Commits are identified by a number that stands for the \<open>struct commit\<close> pointer; a store
  gives the fields the walks read.  \<open>generation\<close> is what \<open>commit_graph_generation\<close> returns.
\<close>

type_synonym commit_id = nat

record commit =
  commit_date :: nat
  commit_generation :: nat
  commit_parents :: "commit_id list"

type_synonym commit_store = "commit_id \<Rightarrow> commit"

definition compare_commits_by_author_date :: "(commit_id \<Rightarrow> nat) \<Rightarrow> commit_id \<Rightarrow> commit_id \<Rightarrow> int" where
  "compare_commits_by_author_date author_date a b =
     (if author_date a < author_date b then 1 else if author_date a > author_date b then -1 else 0)"

definition compare_commits_by_gen_then_commit_date :: "commit_store \<Rightarrow> commit_id \<Rightarrow> commit_id \<Rightarrow> int" where
  "compare_commits_by_gen_then_commit_date st a b =
     (if commit_generation (st a) < commit_generation (st b) then 1
      else if commit_generation (st a) > commit_generation (st b) then -1
      else if commit_date (st a) < commit_date (st b) then 1
      else if commit_date (st a) > commit_date (st b) then -1
      else 0)"

definition compare_commits_by_commit_date :: "commit_store \<Rightarrow> commit_id \<Rightarrow> commit_id \<Rightarrow> int" where
  "compare_commits_by_commit_date st a b =
     (if commit_date (st a) < commit_date (st b) then 1
      else if commit_date (st a) > commit_date (st b) then -1
      else 0)"

interpretation by_author_date: comparator "compare_commits_by_author_date author_date"
  by unfold_locales (auto simp: compare_commits_by_author_date_def split: if_splits)

interpretation by_gen_then_commit_date: comparator "compare_commits_by_gen_then_commit_date st"
  by unfold_locales (auto simp: compare_commits_by_gen_then_commit_date_def split: if_splits)

interpretation by_commit_date: comparator "compare_commits_by_commit_date st"
  by unfold_locales (auto simp: compare_commits_by_commit_date_def split: if_splits)

lemma prio_queue_stable_sort_witness:
  "sorted_wrt (\<lambda>x y. compare_commits_by_commit_date (\<lambda>c. \<lparr>commit_date = c div 2, commit_generation = 0, commit_parents = []\<rparr>) x y \<le> 0)
     (prio_queue_drain (fold prio_queue_put [3, 4, 2, 5]
        (prio_queue_init (Some (compare_commits_by_commit_date
          (\<lambda>c. \<lparr>commit_date = c div 2, commit_generation = 0, commit_parents = []\<rparr>))))))"
  using prio_queue_stable_sort [OF by_commit_date.comparator_axioms] by blast

lemma prio_queue_replace_get_put_witness:
  "prio_queue_drain (prio_queue_replace 9 (prio_queue_put (7::nat) (prio_queue_init None))) = [9::nat]"
proof -
  have "pq_ok (prio_queue_put (7::nat) (prio_queue_init None))"
    by (intro pq_ok_put pq_ok_init) simp
  then have "prio_queue_drain (prio_queue_replace 9 (prio_queue_put (7::nat) (prio_queue_init None))) =
      prio_queue_drain (prio_queue_put 9 (snd (prio_queue_get (prio_queue_put (7::nat) (prio_queue_init None)))))"
    using prio_queue_replace_get_put [of "prio_queue_put (7::nat) (prio_queue_init None)" 9]
    by (simp add: prio_queue_put_def prio_queue_init_def)
  then show ?thesis
    by (simp only:) (simp add: prio_queue_drain_lifo prio_queue_get_def prio_queue_put_def prio_queue_init_def)
qed

end
