(* ===== verification/Topo_Sort.thy ===== *)
theory Topo_Sort
  imports Prio_Queue
begin

text \<open>
  \<^verbatim>\<open>sort_in_topological_order\<close> of \<^verbatim>\<open>commit.c\<close>: the order in which \<^verbatim>\<open>git log --topo-order\<close>
  and \<^verbatim>\<open>--date-order\<close> show commits, children before parents.
\<close>

datatype rev_sort_order = REV_SORT_IN_GRAPH_ORDER | REV_SORT_BY_COMMIT_DATE | REV_SORT_BY_AUTHOR_DATE

text \<open>The slab of indegrees; zero stands for a commit that is not, or no longer, in the list.\<close>

type_synonym indegree_slab = "commit_id \<Rightarrow> nat"

fun topo_compare :: "commit_store \<Rightarrow> (commit_id \<Rightarrow> nat) \<Rightarrow> rev_sort_order \<Rightarrow> (commit_id \<Rightarrow> commit_id \<Rightarrow> int) option" where
  "topo_compare st author_date REV_SORT_IN_GRAPH_ORDER = None"
| "topo_compare st author_date REV_SORT_BY_COMMIT_DATE = Some (compare_commits_by_commit_date st)"
| "topo_compare st author_date REV_SORT_BY_AUTHOR_DATE = Some (compare_commits_by_author_date author_date)"

text \<open>Mark the commits of the list, then count their children in it.\<close>

definition topo_mark :: "commit_id list \<Rightarrow> indegree_slab" where
  "topo_mark orig = fold (\<lambda>commit indegree. indegree(commit := 1)) orig (\<lambda>_. 0)"

definition topo_count_parents :: "commit_id list \<Rightarrow> indegree_slab \<Rightarrow> indegree_slab" where
  "topo_count_parents parents indegree =
     fold (\<lambda>parent indegree. if indegree parent \<noteq> 0 then indegree(parent := indegree parent + 1) else indegree)
       parents indegree"

definition topo_indegree :: "commit_store \<Rightarrow> commit_id list \<Rightarrow> indegree_slab" where
  "topo_indegree st orig =
     fold (\<lambda>commit. topo_count_parents (commit_parents (st commit))) orig (topo_mark orig)"

definition topo_tips :: "commit_id list \<Rightarrow> indegree_slab \<Rightarrow> commit_id prio_queue \<Rightarrow> commit_id prio_queue" where
  "topo_tips orig indegree queue =
     fold (\<lambda>commit queue. if indegree commit = 1 then prio_queue_put commit queue else queue) orig queue"

text \<open>The loop over the parents of a commit that is shown.\<close>

definition topo_parent :: "commit_id \<Rightarrow> indegree_slab \<times> commit_id prio_queue \<Rightarrow> indegree_slab \<times> commit_id prio_queue" where
  "topo_parent parent = (\<lambda>(indegree, queue).
     if indegree parent = 0 then (indegree, queue)
     else
       let indegree = indegree(parent := indegree parent - 1) in
       if indegree parent = 1 then (indegree, prio_queue_put parent queue) else (indegree, queue))"

definition topo_parents :: "commit_id list \<Rightarrow> indegree_slab \<times> commit_id prio_queue \<Rightarrow> indegree_slab \<times> commit_id prio_queue" where
  "topo_parents parents s = fold topo_parent parents s"

text \<open>
  The main loop.  A commit is queued once, so the list bounds the number of turns; \<open>None\<close> is
  running out of fuel.
\<close>

primrec topo_loop :: "nat \<Rightarrow> commit_store \<Rightarrow> indegree_slab \<Rightarrow> commit_id prio_queue \<Rightarrow> commit_id list option" where
  "topo_loop 0 st indegree queue = (if fst (prio_queue_get queue) = None then Some [] else None)"
| "topo_loop (Suc fuel) st indegree queue =
     (case prio_queue_get queue of
        (None, queue) \<Rightarrow> Some []
      | (Some commit, queue) \<Rightarrow>
          (case topo_parents (commit_parents (st commit)) (indegree, queue) of
             (indegree, queue) \<Rightarrow> map_option (Cons commit) (topo_loop fuel st (indegree(commit := 0)) queue)))"

definition sort_in_topological_order ::
  "commit_store \<Rightarrow> (commit_id \<Rightarrow> nat) \<Rightarrow> commit_id list \<Rightarrow> rev_sort_order \<Rightarrow> commit_id list option" where
  "sort_in_topological_order st author_date orig sort_order =
     (if orig = [] then Some []
      else
        let indegree = topo_indegree st orig;
            queue = topo_tips orig indegree (prio_queue_init (topo_compare st author_date sort_order)) in
        Option.bind
          (if sort_order = REV_SORT_IN_GRAPH_ORDER then prio_queue_reverse queue else Some queue)
          (\<lambda>queue. topo_loop (length orig) st indegree queue))"

section \<open>The indegrees\<close>

text \<open>How often \<open>p\<close> is a parent of a commit in \<open>R\<close>.\<close>

definition child_count :: "commit_store \<Rightarrow> commit_id set \<Rightarrow> commit_id \<Rightarrow> nat" where
  "child_count st R p = (\<Sum>c\<in>R. count_list (commit_parents (st c)) p)"

lemma topo_mark: "topo_mark orig p = of_bool (p \<in> set orig)"
proof -
  have "fold (\<lambda>commit indegree. indegree(commit := 1)) xs d p = (if p \<in> set xs then 1 else d p)" for xs and d :: indegree_slab
    by (induction xs arbitrary: d) auto
  then show ?thesis by (simp add: topo_mark_def)
qed

lemma topo_count_parents:
  "topo_count_parents parents d p = (if d p = 0 then 0 else d p + count_list parents p)"
  unfolding topo_count_parents_def by (induction parents arbitrary: d) auto

lemma topo_indegree:
  assumes "distinct orig"
  shows "topo_indegree st orig p = (if p \<in> set orig then 1 + child_count st (set orig) p else 0)"
proof -
  have "distinct xs \<Longrightarrow> fold (\<lambda>commit. topo_count_parents (commit_parents (st commit))) xs d p =
      (if d p = 0 then 0 else d p + child_count st (set xs) p)" for xs d
    by (induction xs arbitrary: d) (auto simp: child_count_def topo_count_parents)
  then show ?thesis
    using assms by (simp add: topo_indegree_def topo_mark)
qed

section \<open>The loop invariant\<close>

text \<open>
  \<open>R\<close> are the commits of the list that are not shown yet; the queue holds those of them that have
  no child left in \<open>R\<close>.
\<close>

definition topo_inv :: "commit_store \<Rightarrow> commit_id set \<Rightarrow> indegree_slab \<Rightarrow> commit_id prio_queue \<Rightarrow> bool" where
  "topo_inv st R d q \<longleftrightarrow> finite R \<and> pq_ok q \<and>
     (\<forall>p. d p = (if p \<in> R then 1 + child_count st R p else 0)) \<and>
     pq_elems q = mset_set {p \<in> R. child_count st R p = 0}"

lemma topo_parents_spec:
  assumes "finite R" "pq_ok q" "\<And>p. p \<notin> R \<Longrightarrow> d p = 0" "\<And>p. p \<in> R \<Longrightarrow> count_list ps p < d p"
    and "topo_parents ps (d, q) = (d', q')"
  shows "pq_ok q' \<and> (\<forall>p. d' p = d p - count_list ps p) \<and>
    pq_elems q' = pq_elems q + mset_set {p \<in> R. 1 < d p \<and> d p = 1 + count_list ps p}"
  using assms
proof (induction ps arbitrary: d q)
  case Nil
  moreover have "{p \<in> R. Suc 0 < f p \<and> f p = Suc 0} = {}" for f :: indegree_slab by auto
  then have "mset_set {p \<in> R. Suc 0 < f p \<and> f p = Suc 0} = {#}" for f :: indegree_slab by (simp only: mset_set.empty)
  ultimately show ?case by (simp add: topo_parents_def)
next
  case (Cons x ps)
  show ?case
  proof (cases "x \<in> R")
    case False
    then have "topo_parents (x # ps) (d, q) = topo_parents ps (d, q)"
      using Cons.prems(3) by (simp add: topo_parents_def topo_parent_def)
    moreover have "count_list ps p < d p" if "p \<in> R" for p
      using Cons.prems(4) [OF that] False that by (auto split: if_splits)
    ultimately have "pq_ok q' \<and> (\<forall>p. d' p = d p - count_list ps p) \<and>
        pq_elems q' = pq_elems q + mset_set {p \<in> R. 1 < d p \<and> d p = 1 + count_list ps p}"
      using Cons.IH [OF Cons.prems(1-3)] Cons.prems(5) by simp
    moreover have "{p \<in> R. 1 < d p \<and> d p = 1 + count_list ps p} =
        {p \<in> R. 1 < d p \<and> d p = 1 + count_list (x # ps) p}"
      using False by auto
    ultimately show ?thesis using Cons.prems(3) [OF False] by auto
  next
    case True
    let ?d = "d(x := d x - 1)"
    have dx: "1 + count_list ps x < d x"
      using Cons.prems(4) [OF True] by simp
    define q1 where "q1 = (if d x = 2 then prio_queue_put x q else q)"
    have step: "topo_parents (x # ps) (d, q) = topo_parents ps (?d, q1)"
      using dx by (auto simp: topo_parents_def topo_parent_def q1_def Let_def)
    have q1: "pq_ok q1" "pq_elems q1 = pq_elems q + (if d x = 2 then {#x#} else {#})"
      using Cons.prems(2) by (auto simp: q1_def pq.valid_put pq.elems_put)
    have d0: "?d p = 0" if "p \<notin> R" for p
      using Cons.prems(3) that True by auto
    have dR: "count_list ps p < ?d p" if "p \<in> R" for p
      using Cons.prems(4) [OF that] dx by (auto split: if_splits)
    have rest: "topo_parents ps (?d, q1) = (d', q')"
      using Cons.prems(5) step by (simp only:)
    have IH: "pq_ok q' \<and> (\<forall>p. d' p = ?d p - count_list ps p) \<and>
        pq_elems q' = pq_elems q1 + mset_set {p \<in> R. 1 < ?d p \<and> ?d p = 1 + count_list ps p}"
      by (rule Cons.IH [OF Cons.prems(1) q1(1) d0 dR rest])
    let ?new = "{p \<in> R. 1 < ?d p \<and> ?d p = 1 + count_list ps p}"
    have eq: "{p \<in> R. 1 < d p \<and> d p = 1 + count_list (x # ps) p} = (if d x = 2 then insert x ?new else ?new)"
      using True dx by auto
    have new: "d x = 2 \<Longrightarrow> x \<notin> ?new" "finite ?new" using Cons.prems(1) by auto
    have "mset_set (if d x = 2 then insert x ?new else ?new) = (if d x = 2 then {#x#} else {#}) + mset_set ?new"
    proof (cases "d x = 2")
      case True
      show ?thesis
        unfolding if_P [OF True] mset_set.insert [OF new(2) new(1) [OF True]] by (rule add_mset_add_single [THEN trans, OF union_commute])
    qed (simp only: if_False add_0)
    moreover have "pq_elems q' = pq_elems q1 + mset_set ?new" "pq_ok q'"
      using IH by blast+
    moreover have "d' p = d p - count_list (x # ps) p" for p
      using IH by auto
    ultimately show ?thesis
      unfolding eq q1(2) by (simp only: add.assoc simp_thms)
  qed
qed

lemma child_count_remove:
  "finite R \<Longrightarrow> c \<in> R \<Longrightarrow> child_count st R p = count_list (commit_parents (st c)) p + child_count st (R - {c}) p"
  unfolding child_count_def by (rule sum.remove)

lemma topo_step_inv:
  assumes inv: "topo_inv st R d q" and g: "prio_queue_get q = (Some c, q1)"
    and ps: "topo_parents (commit_parents (st c)) (d, q1) = (d', q2)"
  shows "c \<in> R \<and> child_count st R c = 0 \<and> topo_inv st (R - {c}) (d'(c := 0)) q2"
proof -
  let ?cnt = "count_list (commit_parents (st c))"
  have fin: "finite R" and ok: "pq_ok q" and d: "\<And>p. d p = (if p \<in> R then 1 + child_count st R p else 0)"
    and elems: "pq_elems q = mset_set {p \<in> R. child_count st R p = 0}"
    using inv by (auto simp: topo_inv_def)
  have q1: "pq_ok q1" "mset_set {p \<in> R. child_count st R p = 0} = add_mset c (pq_elems q1)"
    using pq.get_SomeD [OF ok g] elems by simp_all
  then have "c \<in># mset_set {p \<in> R. child_count st R p = 0}" by simp
  then have c: "c \<in> R" "child_count st R c = 0"
    using fin by auto
  have cc: "child_count st R p = ?cnt p + child_count st (R - {c}) p" for p
    using child_count_remove [OF fin c(1)] .
  have "pq_elems q1 = mset_set ({p \<in> R. child_count st R p = 0} - {c})"
    using q1(2) fin c by (simp add: mset_set_Diff)
  moreover have "pq_ok q2 \<and> (\<forall>p. d' p = d p - ?cnt p) \<and>
      pq_elems q2 = pq_elems q1 + mset_set {p \<in> R. 1 < d p \<and> d p = 1 + ?cnt p}"
    by (rule topo_parents_spec [OF fin q1(1) _ _ ps]) (auto simp: d cc)
  moreover have "({p \<in> R. child_count st R p = 0} - {c}) \<inter> {p \<in> R. 1 < d p \<and> d p = 1 + ?cnt p} = {}"
    by (auto simp: d)
  moreover have "({p \<in> R. child_count st R p = 0} - {c}) \<union> {p \<in> R. 1 < d p \<and> d p = 1 + ?cnt p} =
      {p \<in> R - {c}. child_count st (R - {c}) p = 0}"
    using c cc by (auto simp: d)
  ultimately have "pq_ok q2" "\<And>p. d' p = d p - ?cnt p"
    "pq_elems q2 = mset_set {p \<in> R - {c}. child_count st (R - {c}) p = 0}"
    using fin by (simp_all add: mset_set_Union [symmetric])
  then show ?thesis
    using c fin by (auto simp: topo_inv_def d cc)
qed

definition parents_acyclic :: "commit_store \<Rightarrow> commit_id set \<Rightarrow> bool" where
  "parents_acyclic st R \<longleftrightarrow> acyclic {(c, p). c \<in> R \<and> p \<in> set (commit_parents (st c))}"

lemma parents_acyclic_subset: "parents_acyclic st R \<Longrightarrow> S \<subseteq> R \<Longrightarrow> parents_acyclic st S"
  unfolding parents_acyclic_def by (rule acyclic_subset) auto

lemma childless_exists:
  assumes "finite R" "R \<noteq> {}" "parents_acyclic st R"
  obtains c where "c \<in> R" "child_count st R c = 0"
proof -
  let ?r = "{(c, p). c \<in> R \<and> p \<in> set (commit_parents (st c))}"
  have "?r = Sigma R (\<lambda>c. set (commit_parents (st c)))" by auto
  then have "finite ?r" using assms(1) by simp
  then have "wf ?r" using assms(3) by (simp add: finite_acyclic_wf parents_acyclic_def)
  obtain x where "x \<in> R" using assms(2) by blast
  obtain z where z: "z \<in> R" "\<And>y. (y, z) \<in> ?r \<Longrightarrow> y \<notin> R"
    using wfE_min [OF \<open>wf ?r\<close> \<open>x \<in> R\<close>] by blast
  have "z \<notin> set (commit_parents (st c))" if "c \<in> R" for c
    using z(2) [of c] that by blast
  then have "child_count st R z = 0"
    by (simp add: child_count_def assms(1) count_list_0_iff)
  with z(1) show ?thesis using that by blast
qed

lemma topo_loop_correct:
  "topo_inv st R d q \<Longrightarrow> card R \<le> fuel \<Longrightarrow> parents_acyclic st R \<Longrightarrow>
   \<exists>out. topo_loop fuel st d q = Some out \<and> distinct out \<and> set out = R \<and>
     sorted_wrt (\<lambda>a b. a \<notin> set (commit_parents (st b))) out"
proof (induction fuel arbitrary: R d q)
  case 0
  then have "R = {}" by (auto simp: topo_inv_def)
  with 0 have "prio_queue_get q = (None, q)"
    by (intro pq.get_empty) (auto simp: topo_inv_def)
  with \<open>R = {}\<close> show ?case by simp
next
  case (Suc fuel)
  have fin: "finite R" and ok: "pq_ok q" and elems: "pq_elems q = mset_set {p \<in> R. child_count st R p = 0}"
    using Suc.prems(1) by (auto simp: topo_inv_def)
  show ?case
  proof (cases "prio_queue_get q")
    case (Pair x q1)
    show ?thesis
    proof (cases x)
      case None
      then have "{p \<in> R. child_count st R p = 0} = {}"
        using pq.get_NoneD [OF ok, of q1] Pair elems fin by (simp add: mset_set_empty_iff)
      then have "R = {}"
        using childless_exists [OF fin _ Suc.prems(3)] by blast
      with None Pair show ?thesis by simp
    next
      case (Some c)
      obtain d' q2 where ps: "topo_parents (commit_parents (st c)) (d, q1) = (d', q2)"
        by fastforce
      have c: "c \<in> R" "child_count st R c = 0" "topo_inv st (R - {c}) (d'(c := 0)) q2"
        using topo_step_inv [OF Suc.prems(1) _ ps] Pair Some by auto
      have "card (R - {c}) \<le> fuel"
        using Suc.prems(2) c(1) fin by simp
      from Suc.IH [OF c(3) this parents_acyclic_subset [OF Suc.prems(3) Diff_subset]] obtain out where
        out: "topo_loop fuel st (d'(c := 0)) q2 = Some out" "distinct out" "set out = R - {c}"
        "sorted_wrt (\<lambda>a b. a \<notin> set (commit_parents (st b))) out" by blast
      have "c \<notin> set (commit_parents (st b))" if "b \<in> R" for b
        using c(2) that fin by (auto simp: child_count_def count_list_0_iff)
      with out c(1) Pair Some ps show ?thesis
        by (auto simp: insert_absorb)
    qed
  qed
qed

lemma topo_tips_spec:
  assumes "distinct orig" "pq_ok q" "pq_elems q = {#}"
  shows "pq_ok (topo_tips orig d q) \<and> pq_elems (topo_tips orig d q) = mset_set {c \<in> set orig. d c = 1} \<and>
    pq_compare (topo_tips orig d q) = pq_compare q"
proof -
  have "topo_tips orig d q = fold prio_queue_put (filter (\<lambda>c. d c = 1) orig) q" for q
    unfolding topo_tips_def by (induction orig arbitrary: q) auto
  then show ?thesis
    using pq.put_all [OF assms(2), of "filter (\<lambda>c. d c = 1) orig"] pq_entries_put_all assms(1,3)
    by (metis distinct_filter mset_set_set set_filter add.right_neutral)
qed

lemma prio_queue_reverse_spec:
  assumes "pq_ok q" "pq_compare q = None"
  shows "\<exists>q'. prio_queue_reverse q = Some q' \<and> pq_ok q' \<and> pq_elems q' = pq_elems q"
  using assms
  by (auto simp: prio_queue_reverse_def pq_reverse_loop_rev pq_ok_def pq_elems_def pq_entries_def
      rev_map [symmetric])

lemma topo_compare_ok: "pq_ok (prio_queue_init (topo_compare st author_date sort_order))"
  by (cases sort_order)
    (auto intro!: pq_ok_init by_commit_date.comparator_axioms by_author_date.comparator_axioms)

text \<open>
  C11: \<open>sort_in_topological_order\<close> always returns, for a list without duplicates of an acyclic history and
  each of the three orders: its result is a permutation of the list in which no commit comes
  before one of its children, that is no earlier commit is a parent of a later one.
\<close>

theorem sort_in_topological_order_correct:
  assumes "distinct orig" "parents_acyclic st (set orig)"
  shows "\<exists>out. sort_in_topological_order st author_date orig sort_order = Some out \<and>
    mset out = mset orig \<and> sorted_wrt (\<lambda>a b. a \<notin> set (commit_parents (st b))) out"
proof (cases "orig = []")
  case True
  then show ?thesis by (simp add: sort_in_topological_order_def)
next
  case False
  let ?d = "topo_indegree st orig"
  let ?q = "topo_tips orig ?d (prio_queue_init (topo_compare st author_date sort_order))"
  have d: "?d p = (if p \<in> set orig then 1 + child_count st (set orig) p else 0)" for p
    using topo_indegree [OF assms(1)] .
  have q: "pq_ok ?q" "pq_elems ?q = mset_set {c \<in> set orig. child_count st (set orig) c = 0}"
    "pq_compare ?q = topo_compare st author_date sort_order"
    using topo_tips_spec [OF assms(1) topo_compare_ok, of st author_date sort_order ?d]
    by (simp_all add: pq_elems_def pq_entries_def prio_queue_init_def d cong: conj_cong)
  obtain q' where q': "(if sort_order = REV_SORT_IN_GRAPH_ORDER then prio_queue_reverse ?q else Some ?q) = Some q'"
    "pq_ok q'" "pq_elems q' = pq_elems ?q"
    using q prio_queue_reverse_spec by (cases "sort_order = REV_SORT_IN_GRAPH_ORDER") fastforce+
  have "topo_inv st (set orig) ?d q'"
    using q q' d by (simp add: topo_inv_def)
  from topo_loop_correct [OF this _ assms(2), of "length orig"] obtain out where
    "topo_loop (length orig) st ?d q' = Some out" "distinct out" "set out = set orig"
    "sorted_wrt (\<lambda>a b. a \<notin> set (commit_parents (st b))) out"
    by (auto simp: card_length)
  then show ?thesis
    using False q'(1) assms(1) by (simp add: sort_in_topological_order_def Let_def set_eq_iff_mset_eq_distinct)
qed

lemma sort_in_topological_order_correct_witness:
  "\<exists>out. sort_in_topological_order (\<lambda>c. \<lparr>commit_date = c, commit_generation = 0,
      commit_parents = (if c = 2 then [1] else [])\<rparr>) id [1, 2] REV_SORT_BY_COMMIT_DATE = Some out \<and>
    mset out = {#1, 2#}"
proof -
  let ?st = "\<lambda>c. \<lparr>commit_date = c, commit_generation = 0, commit_parents = (if c = 2 then [1] else [])\<rparr>"
  have "{(c, p). c \<in> set [1, 2] \<and> p \<in> set (commit_parents (?st c))} = {(2, 1)}"
    by (auto split: if_splits)
  then have "parents_acyclic ?st (set [1, 2])"
    unfolding parents_acyclic_def by (simp only:) (rule acyclicI_order [of _ id], simp)
  then show ?thesis
    using sort_in_topological_order_correct [of "[1, 2]" ?st id REV_SORT_BY_COMMIT_DATE] by auto
qed

end
