(* ===== verification/Object_Modes.thy ===== *)
theory Object_Modes
  imports Prelude
begin

text \<open>
  The modes of tree and index entries, \<^verbatim>\<open>object.h\<close>, over the file types of the system's \<^verbatim>\<open>stat.h\<close>.
\<close>

section \<open>File types\<close>

definition S_IFMT :: u32 where "S_IFMT = 0xF000"
definition S_IFDIR :: u32 where "S_IFDIR = 0x4000"
definition S_IFREG :: u32 where "S_IFREG = 0x8000"
definition S_IFLNK :: u32 where "S_IFLNK = 0xA000"
definition S_IFGITLINK :: u32 where "S_IFGITLINK = 0xE000"

definition S_ISDIR :: "u32 \<Rightarrow> bool" where "S_ISDIR m \<longleftrightarrow> m AND S_IFMT = S_IFDIR"
definition S_ISREG :: "u32 \<Rightarrow> bool" where "S_ISREG m \<longleftrightarrow> m AND S_IFMT = S_IFREG"
definition S_ISLNK :: "u32 \<Rightarrow> bool" where "S_ISLNK m \<longleftrightarrow> m AND S_IFMT = S_IFLNK"
definition S_ISGITLINK :: "u32 \<Rightarrow> bool" where "S_ISGITLINK m \<longleftrightarrow> m AND S_IFMT = S_IFGITLINK"
definition S_ISSPARSEDIR :: "u32 \<Rightarrow> bool" where "S_ISSPARSEDIR m \<longleftrightarrow> m = S_IFDIR"

section \<open>Canonical modes\<close>

text \<open>The permission bits are octal 100, 755 and 644.\<close>

definition ce_permissions :: "u32 \<Rightarrow> u32" where
  "ce_permissions mode = (if mode AND 64 \<noteq> 0 then 493 else 420)"

definition create_ce_mode :: "u32 \<Rightarrow> u32" where
  "create_ce_mode mode =
     (if S_ISLNK mode then S_IFLNK
      else if S_ISSPARSEDIR mode then S_IFDIR
      else if S_ISDIR mode \<or> S_ISGITLINK mode then S_IFGITLINK
      else S_IFREG OR ce_permissions mode)"

definition canon_mode :: "u32 \<Rightarrow> u32" where
  "canon_mode mode =
     (if S_ISREG mode then S_IFREG OR ce_permissions mode
      else if S_ISLNK mode then S_IFLNK
      else if S_ISDIR mode then S_IFDIR
      else S_IFGITLINK)"

end
