(* ===== verification/Unpack_Trees.thy ===== *)
theory Unpack_Trees
  imports Object_Modes
begin

text \<open>
  The merge functions of \<^verbatim>\<open>unpack-trees.c\<close>: what happens to one path when trees are merged
  into the index (\<^verbatim>\<open>git checkout\<close>, \<^verbatim>\<open>reset\<close>, \<^verbatim>\<open>merge\<close>, \<^verbatim>\<open>read-tree\<close>, \<^verbatim>\<open>stash\<close>).  The answers of
  the file system and of the submodule, index and tree-walking code are parameters.
\<close>

section \<open>Index entries\<close>

type_synonym object_id = nat

definition null_oid :: object_id where "null_oid = 0"

text \<open>The revision arguments of \<open>submodule_move_head\<close>.\<close>

datatype revision = HEAD | Oid object_id

text \<open>\<open>ce_stat\<close> stands for the cached stat data.\<close>

record cache_entry =
  ce_name :: string
  ce_stat :: nat
  ce_mode :: u32
  ce_flags :: u32
  ce_oid :: object_id

definition CE_STAGEMASK :: u32 where "CE_STAGEMASK = 0x3000"
definition CE_STAGESHIFT :: nat where "CE_STAGESHIFT = 12"
definition CE_VALID :: u32 where "CE_VALID = 0x8000"
definition CE_UPDATE :: u32 where "CE_UPDATE = push_bit 16 1"
definition CE_REMOVE :: u32 where "CE_REMOVE = push_bit 17 1"
definition CE_UPTODATE :: u32 where "CE_UPTODATE = push_bit 18 1"
definition CE_ADDED :: u32 where "CE_ADDED = push_bit 19 1"
definition CE_HASHED :: u32 where "CE_HASHED = push_bit 20 1"
definition CE_FSMONITOR_VALID :: u32 where "CE_FSMONITOR_VALID = push_bit 21 1"
definition CE_WT_REMOVE :: u32 where "CE_WT_REMOVE = push_bit 22 1"
definition CE_CONFLICTED :: u32 where "CE_CONFLICTED = push_bit 23 1"
definition CE_NEW_SKIP_WORKTREE :: u32 where "CE_NEW_SKIP_WORKTREE = push_bit 25 1"
definition CE_SKIP_WORKTREE :: u32 where "CE_SKIP_WORKTREE = push_bit 30 1"

lemmas ce_flag_defs = CE_STAGEMASK_def CE_STAGESHIFT_def CE_VALID_def CE_UPDATE_def CE_REMOVE_def
  CE_UPTODATE_def CE_ADDED_def CE_HASHED_def CE_FSMONITOR_VALID_def CE_WT_REMOVE_def
  CE_CONFLICTED_def CE_NEW_SKIP_WORKTREE_def CE_SKIP_WORKTREE_def

text \<open>\<open>ce->ce_flags & mask\<close> as a truth value.\<close>

definition ce_has :: "u32 \<Rightarrow> cache_entry \<Rightarrow> bool" where
  "ce_has m ce \<longleftrightarrow> ce_flags ce AND m \<noteq> 0"

definition ce_stage :: "cache_entry \<Rightarrow> nat" where
  "ce_stage ce = unat (drop_bit CE_STAGESHIFT (CE_STAGEMASK AND ce_flags ce))"

definition copy_cache_entry :: "cache_entry \<Rightarrow> cache_entry \<Rightarrow> cache_entry" where
  "copy_cache_entry dst src =
     src\<lparr>ce_name := ce_name dst,
         ce_flags := (ce_flags src AND NOT CE_HASHED) OR (ce_flags dst AND CE_HASHED)\<rparr>"

section \<open>Options, state and environment\<close>

datatype unpack_trees_error =
    ERROR_WOULD_OVERWRITE
  | ERROR_NOT_UPTODATE_FILE
  | ERROR_NOT_UPTODATE_DIR
  | ERROR_CWD_IN_THE_WAY
  | ERROR_WOULD_LOSE_UNTRACKED_OVERWRITTEN
  | ERROR_WOULD_LOSE_UNTRACKED_REMOVED
  | ERROR_BIND_OVERLAP
  | ERROR_WOULD_LOSE_SUBMODULE
  | WARNING_SPARSE_NOT_UPTODATE_FILE
  | WARNING_SPARSE_UNMERGED_FILE
  | WARNING_SPARSE_ORPHANED_NOT_OVERWRITTEN

datatype unpack_trees_reset_type =
  UNPACK_RESET_NONE | UNPACK_RESET_INVALID | UNPACK_RESET_PROTECT_UNTRACKED | UNPACK_RESET_OVERWRITE_UNTRACKED

datatype absent_checking_type = COMPLETELY_ABSENT | ABSENT_ANY_DIRECTORY

record unpack_trees_options =
  o_update :: bool
  o_index_only :: bool
  o_aggressive :: bool
  o_initial_checkout :: bool
  o_skip_sparse_checkout :: bool
  o_quiet :: bool
  o_reset :: unpack_trees_reset_type
  o_head_idx :: nat
  o_show_all_errors :: bool
  o_merge_size :: nat

text \<open>
  What a merge function changes: the entries it hands to \<open>add_index_entry\<close> for the result
  index, in order; the paths it invalidates; the rejected paths kept for later and the errors
  printed at once; and the \<open>nontrivial_merge\<close> flag.
\<close>

datatype printed_error =
    Rejected unpack_trees_error string
  | Cannot_stat string
  | Bind_overlap string string
  | Bad_merge_size nat
  | Duplicate_entries string

record unpack_state =
  us_added :: "cache_entry list"
  us_invalidated :: "string list"
  us_rejects :: "(unpack_trees_error \<times> string) list"
  us_printed :: "printed_error list"
  us_nontrivial :: bool

text \<open>\<open>lstat\<close> gives stat data or an error number, of which only \<open>ENOENT\<close> is told apart.\<close>

datatype lstat_result = Stat nat | ENOENT | Other_errno

text \<open>\<open>stages[i]\<close>: \<open>NULL\<close>, the pointer \<open>o->df_conflict_entry\<close>, or another entry.\<close>

datatype stage_ptr = NoEntry | DF_conflict | Entry cache_entry

text \<open>The answers of other code.  \<open>ue_match_stat\<close> says whether \<open>ie_match_stat\<close> finds a change.\<close>

record unpack_env =
  ue_lstat :: "string \<Rightarrow> lstat_result"
  ue_match_stat :: "cache_entry \<Rightarrow> nat \<Rightarrow> bool"
  ue_should_update_submodules :: bool
  ue_submodule_from_path :: "string \<Rightarrow> bool"
  ue_submodule_move_head :: "string \<Rightarrow> revision option \<Rightarrow> revision option \<Rightarrow> bool \<Rightarrow> bool"
  ue_check_leading_path :: "string \<Rightarrow> int"
  ue_check_ok_to_remove :: "string \<Rightarrow> cache_entry option \<Rightarrow> nat \<Rightarrow> unpack_trees_error \<Rightarrow> absent_checking_type
      \<Rightarrow> unpack_state \<Rightarrow> int \<times> unpack_state"
  ue_file_exists :: "string \<Rightarrow> bool"
  ue_original_cwd :: "string option"
  ue_add_index_entry :: "cache_entry \<Rightarrow> bool"
  ue_merged_sparse_dir :: "stage_ptr list \<Rightarrow> nat \<Rightarrow> unpack_state \<Rightarrow> int \<times> unpack_state"

section \<open>Adding entries and rejecting paths\<close>

definition do_add_entry :: "unpack_env \<Rightarrow> cache_entry \<Rightarrow> u32 \<Rightarrow> u32 \<Rightarrow> unpack_state \<Rightarrow> int \<times> unpack_state" where
  "do_add_entry env ce setf clearf s =
     (let clearf = clearf OR CE_HASHED;
          setf = (if setf AND CE_REMOVE \<noteq> 0 then setf OR CE_WT_REMOVE else setf);
          ce = ce\<lparr>ce_flags := (ce_flags ce AND NOT clearf) OR setf\<rparr> in
      (if ue_add_index_entry env ce then 0 else -1, s\<lparr>us_added := us_added s @ [ce]\<rparr>))"

definition add_entry :: "unpack_env \<Rightarrow> cache_entry \<Rightarrow> u32 \<Rightarrow> u32 \<Rightarrow> unpack_state \<Rightarrow> unpack_state" where
  "add_entry env ce setf clearf s = snd (do_add_entry env ce setf clearf s)"

definition add_rejected_path :: "unpack_trees_options \<Rightarrow> unpack_trees_error \<Rightarrow> string \<Rightarrow> unpack_state \<Rightarrow> int \<times> unpack_state" where
  "add_rejected_path opt e path s =
     (if o_quiet opt then (-1, s)
      else if \<not> o_show_all_errors opt then (-1, s\<lparr>us_printed := us_printed s @ [Rejected e path]\<rparr>)
      else (-1, s\<lparr>us_rejects := us_rejects s @ [(e, path)]\<rparr>))"

definition submodule_from_ce :: "unpack_env \<Rightarrow> cache_entry \<Rightarrow> bool" where
  "submodule_from_ce env ce \<longleftrightarrow>
     S_ISGITLINK (ce_mode ce) \<and> ue_should_update_submodules env \<and> ue_submodule_from_path env (ce_name ce)"

definition check_submodule_move_head ::
  "unpack_env \<Rightarrow> unpack_trees_options \<Rightarrow> cache_entry \<Rightarrow> revision option \<Rightarrow> revision option
     \<Rightarrow> unpack_state \<Rightarrow> int \<times> unpack_state" where
  "check_submodule_move_head env opt ce old_id new_id s =
     (if \<not> submodule_from_ce env ce then (0, s)
      else if ue_submodule_move_head env (ce_name ce) old_id new_id (o_reset opt \<noteq> UNPACK_RESET_NONE)
      then add_rejected_path opt ERROR_WOULD_LOSE_SUBMODULE (ce_name ce) s
      else (0, s))"

definition reject_merge :: "unpack_trees_options \<Rightarrow> cache_entry \<Rightarrow> unpack_state \<Rightarrow> int \<times> unpack_state" where
  "reject_merge opt ce s = add_rejected_path opt ERROR_WOULD_OVERWRITE (ce_name ce) s"

fun same :: "cache_entry option \<Rightarrow> cache_entry option \<Rightarrow> bool" where
  "same None None = True"
| "same (Some a) (Some b) =
     (if (ce_flags a OR ce_flags b) AND CE_CONFLICTED \<noteq> 0 then False
      else ce_mode a = ce_mode b \<and> ce_oid a = ce_oid b)"
| "same _ _ = False"

section \<open>Checks of the working tree\<close>

definition verify_uptodate_1 ::
  "unpack_env \<Rightarrow> unpack_trees_options \<Rightarrow> cache_entry \<Rightarrow> unpack_trees_error \<Rightarrow> unpack_state \<Rightarrow> int \<times> unpack_state" where
  "verify_uptodate_1 env opt ce error_type s =
     (if o_index_only opt then (0, s)
      else if \<not> (ce_has CE_VALID ce \<or> ce_has CE_SKIP_WORKTREE ce) \<and>
        (o_reset opt \<noteq> UNPACK_RESET_NONE \<or> ce_has CE_UPTODATE ce) then (0, s)
      else
        (case ue_lstat env (ce_name ce) of
           Stat st \<Rightarrow>
             if submodule_from_ce env ce then
               (case check_submodule_move_head env opt ce (Some HEAD) (Some (Oid (ce_oid ce))) s of
                  (r, s) \<Rightarrow> if r \<noteq> 0 then add_rejected_path opt error_type (ce_name ce) s else (0, s))
             else if \<not> ue_match_stat env ce st then (0, s)
             else if S_ISGITLINK (ce_mode ce) then (0, s)
             else add_rejected_path opt error_type (ce_name ce) s
         | ENOENT \<Rightarrow> (0, s)
         | Other_errno \<Rightarrow> add_rejected_path opt error_type (ce_name ce) s))"

definition verify_uptodate :: "unpack_env \<Rightarrow> unpack_trees_options \<Rightarrow> cache_entry \<Rightarrow> unpack_state \<Rightarrow> int \<times> unpack_state" where
  "verify_uptodate env opt ce s =
     (if \<not> o_skip_sparse_checkout opt \<and> ce_has CE_SKIP_WORKTREE ce \<and> ce_has CE_NEW_SKIP_WORKTREE ce then (0, s)
      else verify_uptodate_1 env opt ce ERROR_NOT_UPTODATE_FILE s)"

definition invalidate_ce_path :: "cache_entry option \<Rightarrow> unpack_state \<Rightarrow> unpack_state" where
  "invalidate_ce_path ce s =
     (case ce of None \<Rightarrow> s | Some ce \<Rightarrow> s\<lparr>us_invalidated := us_invalidated s @ [ce_name ce]\<rparr>)"

definition verify_absent_1 ::
  "unpack_env \<Rightarrow> unpack_trees_options \<Rightarrow> cache_entry \<Rightarrow> unpack_trees_error \<Rightarrow> absent_checking_type
     \<Rightarrow> unpack_state \<Rightarrow> int \<times> unpack_state" where
  "verify_absent_1 env opt ce error_type absent_type s =
     (if o_index_only opt \<or> \<not> o_update opt then (0, s)
      else if o_reset opt = UNPACK_RESET_OVERWRITE_UNTRACKED then
        (if ue_original_cwd env = Some (ce_name ce)
         then add_rejected_path opt ERROR_CWD_IN_THE_WAY (ce_name ce) s
         else (0, s))
      else
        let len = ue_check_leading_path env (ce_name ce) in
        if len = 0 then (0, s)
        else if len > 0 then
          let path = take (nat len) (ce_name ce) in
          (case ue_lstat env path of
             Stat st \<Rightarrow>
               if submodule_from_ce env ce
               then check_submodule_move_head env opt ce (Some (Oid (ce_oid ce))) None s
               else ue_check_ok_to_remove env path None st error_type absent_type s
           | _ \<Rightarrow> (-1, s\<lparr>us_printed := us_printed s @ [Cannot_stat path]\<rparr>))
        else
          (case ue_lstat env (ce_name ce) of
             ENOENT \<Rightarrow> (0, s)
           | Other_errno \<Rightarrow> (-1, s\<lparr>us_printed := us_printed s @ [Cannot_stat (ce_name ce)]\<rparr>)
           | Stat st \<Rightarrow>
               if submodule_from_ce env ce
               then check_submodule_move_head env opt ce (Some (Oid (ce_oid ce))) None s
               else ue_check_ok_to_remove env (ce_name ce) (Some ce) st error_type absent_type s))"

definition verify_absent ::
  "unpack_env \<Rightarrow> unpack_trees_options \<Rightarrow> cache_entry \<Rightarrow> unpack_trees_error \<Rightarrow> unpack_state \<Rightarrow> int \<times> unpack_state" where
  "verify_absent env opt ce error_type s =
     (if \<not> o_skip_sparse_checkout opt \<and> ce_has CE_NEW_SKIP_WORKTREE ce then (0, s)
      else verify_absent_1 env opt ce error_type COMPLETELY_ABSENT s)"

definition verify_absent_if_directory ::
  "unpack_env \<Rightarrow> unpack_trees_options \<Rightarrow> cache_entry \<Rightarrow> unpack_trees_error \<Rightarrow> unpack_state \<Rightarrow> int \<times> unpack_state" where
  "verify_absent_if_directory env opt ce error_type s =
     (if \<not> o_skip_sparse_checkout opt \<and> ce_has CE_NEW_SKIP_WORKTREE ce then (0, s)
      else verify_absent_1 env opt ce error_type ABSENT_ANY_DIRECTORY s)"


section \<open>The three results for a path\<close>

text \<open>
  Outcomes of a merge function: its return value, or a crash on a \<open>NULL\<close> entry, or \<open>BUG\<close>.
\<close>

datatype merge_outcome = Ret int | Null_deref | Bug

definition ret :: "int \<times> unpack_state \<Rightarrow> merge_outcome \<times> unpack_state" where
  "ret r = (Ret (fst r), snd r)"

text \<open>The end of \<open>merged_entry\<close>, once the checks have passed.\<close>

definition merged_finish :: "unpack_env \<Rightarrow> cache_entry \<Rightarrow> u32 \<Rightarrow> unpack_state \<Rightarrow> int \<times> unpack_state" where
  "merged_finish env merge update s =
     (case do_add_entry env merge update CE_STAGEMASK s of
        (r, s) \<Rightarrow> (if r < 0 then -1 else 1, s))"

text \<open>The submodule check that ends the first two branches.\<close>

definition merged_submodule ::
  "unpack_env \<Rightarrow> unpack_trees_options \<Rightarrow> cache_entry \<Rightarrow> revision option \<Rightarrow> unpack_state \<Rightarrow> int \<times> unpack_state" where
  "merged_submodule env opt ce old_id s =
     (if submodule_from_ce env ce \<and> ue_file_exists env (ce_name ce)
      then check_submodule_move_head env opt ce old_id (Some (Oid (ce_oid ce))) s
      else (0, s))"

definition merged_new :: "unpack_env \<Rightarrow> unpack_trees_options \<Rightarrow> cache_entry \<Rightarrow> unpack_state \<Rightarrow> int \<times> unpack_state" where
  "merged_new env opt ce s =
     (let merge = ce\<lparr>ce_flags := ce_flags ce OR CE_NEW_SKIP_WORKTREE\<rparr> in
      case verify_absent env opt merge ERROR_WOULD_LOSE_UNTRACKED_OVERWRITTEN s of
        (r, s) \<Rightarrow>
          if r \<noteq> 0 then (-1, s)
          else
            (case merged_submodule env opt ce None (invalidate_ce_path (Some merge) s) of
               (r, s) \<Rightarrow> if r \<noteq> 0 then (r, s) else merged_finish env merge (CE_UPDATE OR CE_ADDED) s))"

definition merged_over :: "unpack_env \<Rightarrow> unpack_trees_options \<Rightarrow> cache_entry \<Rightarrow> cache_entry \<Rightarrow> unpack_state \<Rightarrow> int \<times> unpack_state" where
  "merged_over env opt ce old s =
     (case
        (if same (Some old) (Some ce) then (0, copy_cache_entry ce old, 0, s)
         else
           (case verify_uptodate env opt old s of
              (r, s) \<Rightarrow>
                if r \<noteq> 0 then (-1, ce, 0, s)
                else (0, ce, CE_UPDATE OR (ce_flags old AND (CE_SKIP_WORKTREE OR CE_NEW_SKIP_WORKTREE)),
                      invalidate_ce_path (Some old) s))) of
        (r, merge, update, s) \<Rightarrow>
          if r \<noteq> 0 then (r, s)
          else
            (case merged_submodule env opt ce (Some (Oid (ce_oid old))) s of
               (r, s) \<Rightarrow> if r \<noteq> 0 then (r, s) else merged_finish env merge update s))"

definition merged_unmerged :: "unpack_env \<Rightarrow> unpack_trees_options \<Rightarrow> cache_entry \<Rightarrow> cache_entry \<Rightarrow> unpack_state \<Rightarrow> int \<times> unpack_state" where
  "merged_unmerged env opt ce old s =
     (case verify_absent_if_directory env opt ce ERROR_WOULD_LOSE_UNTRACKED_OVERWRITTEN s of
        (r, s) \<Rightarrow> if r \<noteq> 0 then (-1, s) else merged_finish env ce CE_UPDATE (invalidate_ce_path (Some old) s))"

definition merged_entry ::
  "unpack_env \<Rightarrow> unpack_trees_options \<Rightarrow> cache_entry \<Rightarrow> cache_entry option \<Rightarrow> unpack_state \<Rightarrow> int \<times> unpack_state" where
  "merged_entry env opt ce old s =
     (case old of
        None \<Rightarrow> merged_new env opt ce s
      | Some old \<Rightarrow>
          if \<not> ce_has CE_CONFLICTED old then merged_over env opt ce old s
          else merged_unmerged env opt ce old s)"

definition deleted_entry ::
  "unpack_env \<Rightarrow> unpack_trees_options \<Rightarrow> cache_entry \<Rightarrow> cache_entry option \<Rightarrow> unpack_state \<Rightarrow> int \<times> unpack_state" where
  "deleted_entry env opt ce old s =
     (case old of
        None \<Rightarrow>
          (case verify_absent env opt ce ERROR_WOULD_LOSE_UNTRACKED_REMOVED s of
             (r, s) \<Rightarrow> (if r \<noteq> 0 then -1 else 0, s))
      | Some old \<Rightarrow>
          (case verify_absent_if_directory env opt ce ERROR_WOULD_LOSE_UNTRACKED_REMOVED s of
             (r, s) \<Rightarrow>
               if r \<noteq> 0 then (-1, s)
               else
                 (case (if ce_has CE_CONFLICTED old then (0, s) else verify_uptodate env opt old s) of
                    (r, s) \<Rightarrow>
                      if r \<noteq> 0 then (-1, s)
                      else (1, invalidate_ce_path (Some ce) (add_entry env ce CE_REMOVE 0 s)))))"

definition keep_entry :: "unpack_env \<Rightarrow> cache_entry \<Rightarrow> unpack_state \<Rightarrow> int \<times> unpack_state" where
  "keep_entry env ce s =
     (let s = add_entry env ce 0 0 s in
      (1, if ce_stage ce \<noteq> 0 then invalidate_ce_path (Some ce) s else s))"

text \<open>Calls with an entry pointer that may be \<open>NULL\<close>.\<close>

definition deleted_entry_ptr ::
  "unpack_env \<Rightarrow> unpack_trees_options \<Rightarrow> cache_entry option \<Rightarrow> cache_entry option \<Rightarrow> unpack_state
     \<Rightarrow> merge_outcome \<times> unpack_state" where
  "deleted_entry_ptr env opt ce old s =
     (case ce of None \<Rightarrow> (Null_deref, s) | Some ce \<Rightarrow> ret (deleted_entry env opt ce old s))"

definition merged_entry_ptr ::
  "unpack_env \<Rightarrow> unpack_trees_options \<Rightarrow> cache_entry option \<Rightarrow> cache_entry option \<Rightarrow> unpack_state
     \<Rightarrow> merge_outcome \<times> unpack_state" where
  "merged_entry_ptr env opt ce old s =
     (case ce of None \<Rightarrow> (Null_deref, s) | Some ce \<Rightarrow> ret (merged_entry env opt ce old s))"

section \<open>The merge functions\<close>

text \<open>
  The entry a stage pointer points to.  \<open>df_conflict_entry\<close> is an all-zero entry.
\<close>

definition df_conflict_entry :: cache_entry where
  "df_conflict_entry = \<lparr>ce_name = [], ce_stat = 0, ce_mode = 0, ce_flags = 0, ce_oid = null_oid\<rparr>"

fun stage_deref :: "stage_ptr \<Rightarrow> cache_entry option" where
  "stage_deref NoEntry = None"
| "stage_deref DF_conflict = Some df_conflict_entry"
| "stage_deref (Entry ce) = Some ce"

text \<open>A stage with the directory/file marker replaced by \<open>NULL\<close>.\<close>

fun stage_entry :: "stage_ptr \<Rightarrow> cache_entry option" where
  "stage_entry (Entry ce) = Some ce"
| "stage_entry _ = None"

text \<open>\<open>head_match\<close> and \<open>remote_match\<close>: the last of the stages before the head that is the same.\<close>

definition stage_match :: "stage_ptr list \<Rightarrow> nat \<Rightarrow> cache_entry option \<Rightarrow> nat" where
  "stage_match stages head_idx ce =
     fold (\<lambda>i m. if same (stage_deref (stages ! i)) ce then i else m) [1..<head_idx] 0"

definition reject_or_sparse ::
  "unpack_env \<Rightarrow> unpack_trees_options \<Rightarrow> stage_ptr list \<Rightarrow> nat \<Rightarrow> cache_entry \<Rightarrow> unpack_state \<Rightarrow> merge_outcome \<times> unpack_state" where
  "reject_or_sparse env opt stages n index s =
     (if S_ISSPARSEDIR (ce_mode index) then ret (ue_merged_sparse_dir env stages n s)
      else ret (reject_merge opt index s))"

text \<open>The last part of \<open>threeway_merge\<close>: the stages of an unresolved path are kept.\<close>

definition threeway_keep ::
  "unpack_env \<Rightarrow> stage_ptr list \<Rightarrow> nat \<Rightarrow> bool \<Rightarrow> cache_entry option \<Rightarrow> cache_entry option \<Rightarrow> unpack_state \<Rightarrow> int \<times> unpack_state" where
  "threeway_keep env stages head_idx both_match head remote s =
     (let s = s\<lparr>us_nontrivial := True\<rparr>;
          (count, s) =
            (if both_match then (0, s)
             else case List.find (\<lambda>st. stage_entry st \<noteq> None) (map (\<lambda>i. stages ! i) [1..<head_idx]) of
                 Some (Entry ce) \<Rightarrow> (1, snd (keep_entry env ce s))
               | _ \<Rightarrow> (0, s));
          (count, s) =
            (case head of None \<Rightarrow> (count, s) | Some ce \<Rightarrow> (count + fst (keep_entry env ce s), snd (keep_entry env ce s))) in
      (case remote of None \<Rightarrow> (count, s) | Some ce \<Rightarrow> (count + fst (keep_entry env ce s), snd (keep_entry env ce s))))"

text \<open>The \<open>no merge\<close> cases, which first make sure that no local change is lost.\<close>

definition threeway_no_merge ::
  "unpack_env \<Rightarrow> unpack_trees_options \<Rightarrow> stage_ptr list \<Rightarrow> cache_entry option \<Rightarrow> cache_entry option \<Rightarrow> cache_entry option
     \<Rightarrow> bool \<Rightarrow> unpack_state \<Rightarrow> merge_outcome \<times> unpack_state" where
  "threeway_no_merge env opt stages index head remote both_match s =
     (case index of
        None \<Rightarrow> ret (threeway_keep env stages (o_head_idx opt) both_match head remote s)
      | Some index \<Rightarrow>
          if S_ISSPARSEDIR (ce_mode index) then ret (ue_merged_sparse_dir env stages 4 s)
          else
            (case verify_uptodate env opt index s of
               (r, s) \<Rightarrow>
                 if r \<noteq> 0 then (Ret (-1), s)
                 else ret (threeway_keep env stages (o_head_idx opt) both_match head remote s)))"

text \<open>The \<open>aggressive\<close> rule; \<open>None\<close> when it does not apply.\<close>

definition threeway_aggressive ::
  "unpack_env \<Rightarrow> unpack_trees_options \<Rightarrow> stage_ptr list \<Rightarrow> cache_entry option \<Rightarrow> cache_entry option \<Rightarrow> cache_entry option
     \<Rightarrow> nat \<Rightarrow> nat \<Rightarrow> bool \<Rightarrow> unpack_state \<Rightarrow> (merge_outcome \<times> unpack_state) option" where
  "threeway_aggressive env opt stages index head remote head_match remote_match no_anc_exists s =
     (let head_deleted = (head = None); remote_deleted = (remote = None);
          ce = (if index \<noteq> None then index else if head \<noteq> None then head else if remote \<noteq> None then remote
                else Option.bind (List.find (\<lambda>st. stage_entry st \<noteq> None) (map (\<lambda>i. stages ! i) [1..<o_head_idx opt])) stage_entry) in
      if head_deleted \<and> remote_deleted \<or> head_deleted \<and> remote \<noteq> None \<and> remote_match \<noteq> 0 \<or>
         remote_deleted \<and> head \<noteq> None \<and> head_match \<noteq> 0
      then
        (case index of
           Some i \<Rightarrow> Some (ret (deleted_entry env opt i (Some i) s))
         | None \<Rightarrow>
            (case ce of
               Some ce \<Rightarrow>
                 if \<not> head_deleted then
                   (case verify_absent env opt ce ERROR_WOULD_LOSE_UNTRACKED_REMOVED s of
                      (r, s) \<Rightarrow> Some (Ret (if r \<noteq> 0 then -1 else 0), s))
                 else Some (Ret 0, s)
             | None \<Rightarrow> Some (Ret 0, s)))
      else if no_anc_exists \<and> head \<noteq> None \<and> remote \<noteq> None \<and> same head remote
      then Some (merged_entry_ptr env opt head index s)
      else None)"

definition threeway_merge ::
  "unpack_env \<Rightarrow> unpack_trees_options \<Rightarrow> stage_ptr list \<Rightarrow> unpack_state \<Rightarrow> merge_outcome \<times> unpack_state" where
  "threeway_merge env opt stages s =
     (let head_idx = o_head_idx opt;
          ancestors = map (\<lambda>i. stages ! i) [1..<head_idx];
          any_anc_missing = list_ex (\<lambda>st. stage_entry st = None) ancestors;
          no_anc_exists = list_all (\<lambda>st. stage_entry st = None) ancestors;
          index = stage_deref (stages ! 0);
          df_conflict_head = (stages ! head_idx = DF_conflict);
          df_conflict_remote = (stages ! (head_idx + 1) = DF_conflict);
          head = stage_entry (stages ! head_idx);
          remote = stage_entry (stages ! (head_idx + 1));
          head_match = (if same remote head then 0 else stage_match stages head_idx head);
          remote_match = (if same remote head then 0 else stage_match stages head_idx remote);
          index_mismatch = (index \<noteq> None \<and> \<not> same index head) in
      if remote \<noteq> None \<and> \<not> df_conflict_head \<and> head_match \<noteq> 0 \<and> remote_match = 0 then
        (if index_mismatch \<and> \<not> same index remote
         then reject_or_sparse env opt stages 4 (the index) s
         else merged_entry_ptr env opt remote index s)
      else if index_mismatch then reject_or_sparse env opt stages 4 (the index) s
      else if head \<noteq> None \<and> same head remote then merged_entry_ptr env opt head index s
      else if head \<noteq> None \<and> \<not> df_conflict_remote \<and> remote_match \<noteq> 0 \<and> head_match = 0
      then merged_entry_ptr env opt head index s
      else if head = None \<and> remote = None \<and> any_anc_missing then (Ret 0, s)
      else
        (case (if o_aggressive opt
               then threeway_aggressive env opt stages index head remote head_match remote_match no_anc_exists s
               else None) of
           Some r \<Rightarrow> r
         | None \<Rightarrow> threeway_no_merge env opt stages index head remote (head_match \<noteq> 0 \<and> remote_match \<noteq> 0) s))"

definition twoway_merge ::
  "unpack_env \<Rightarrow> unpack_trees_options \<Rightarrow> stage_ptr list \<Rightarrow> unpack_state \<Rightarrow> merge_outcome \<times> unpack_state" where
  "twoway_merge env opt src s =
     (let current = stage_deref (src ! 0);
          oldtree = stage_entry (src ! 1);
          newtree = stage_entry (src ! 2) in
      if o_merge_size opt \<noteq> 2 then (Ret (-1), s\<lparr>us_printed := us_printed s @ [Bad_merge_size (o_merge_size opt)]\<rparr>)
      else case current of
        Some ce \<Rightarrow>
          if ce_has CE_CONFLICTED ce then
            (if same oldtree newtree \<or> o_reset opt \<noteq> UNPACK_RESET_NONE then
               (case newtree of
                  None \<Rightarrow> ret (deleted_entry env opt ce current s)
                | Some new \<Rightarrow> ret (merged_entry env opt new current s))
             else ret (reject_merge opt ce s))
          else if (oldtree = None \<and> newtree = None) \<or>
            (oldtree = None \<and> newtree \<noteq> None \<and> same current newtree) \<or>
            (oldtree \<noteq> None \<and> newtree \<noteq> None \<and> same oldtree newtree) \<or>
            (oldtree \<noteq> None \<and> newtree \<noteq> None \<and> \<not> same oldtree newtree \<and> same current newtree)
          then ret (keep_entry env ce s)
          else if oldtree \<noteq> None \<and> newtree = None \<and> same current oldtree
          then ret (deleted_entry env opt (the oldtree) current s)
          else if oldtree \<noteq> None \<and> newtree \<noteq> None \<and> same current oldtree \<and> \<not> same current newtree
          then ret (merged_entry env opt (the newtree) current s)
          else if oldtree = None \<and> newtree \<noteq> None \<and>
            S_ISSPARSEDIR (ce_mode ce) \<noteq> S_ISSPARSEDIR (ce_mode (the newtree)) \<and> ce_stage ce = 0
          then ret (merged_entry env opt (the newtree) current s)
          else reject_or_sparse env opt src 3 ce s
      | None \<Rightarrow>
         (case newtree of
            Some new \<Rightarrow>
              if oldtree \<noteq> None \<and> \<not> o_initial_checkout opt then
                (if same oldtree newtree then (Ret 1, s) else ret (reject_merge opt (the oldtree) s))
              else ret (merged_entry env opt new None s)
          | None \<Rightarrow> deleted_entry_ptr env opt oldtree None s))"

definition bind_merge ::
  "unpack_env \<Rightarrow> unpack_trees_options \<Rightarrow> stage_ptr list \<Rightarrow> unpack_state \<Rightarrow> merge_outcome \<times> unpack_state" where
  "bind_merge env opt src s =
     (let old = stage_deref (src ! 0); a = stage_deref (src ! 1) in
      if o_merge_size opt \<noteq> 1 then (Ret (-1), s\<lparr>us_printed := us_printed s @ [Bad_merge_size (o_merge_size opt)]\<rparr>)
      else case a of
        Some a' \<Rightarrow>
          (case old of
             Some old \<Rightarrow>
               if o_quiet opt then (Ret (-1), s)
               else (Ret (-1), s\<lparr>us_printed := us_printed s @ [Bind_overlap (ce_name a') (ce_name old)]\<rparr>)
           | None \<Rightarrow> ret (merged_entry env opt a' None s))
      | None \<Rightarrow> (case old of None \<Rightarrow> (Null_deref, s) | Some old \<Rightarrow> ret (keep_entry env old s)))"

definition oneway_merge ::
  "unpack_env \<Rightarrow> unpack_trees_options \<Rightarrow> stage_ptr list \<Rightarrow> unpack_state \<Rightarrow> merge_outcome \<times> unpack_state" where
  "oneway_merge env opt src s =
     (let old = stage_deref (src ! 0); a = stage_entry (src ! 1) in
      if o_merge_size opt \<noteq> 1 then (Ret (-1), s\<lparr>us_printed := us_printed s @ [Bad_merge_size (o_merge_size opt)]\<rparr>)
      else case a of
        None \<Rightarrow> deleted_entry_ptr env opt old old s
      | Some a' \<Rightarrow>
         (case old of
            Some o' \<Rightarrow>
              if same old a then
                let update =
                      (if o_reset opt \<noteq> UNPACK_RESET_NONE \<and> o_update opt \<and> \<not> ce_has CE_UPTODATE o' \<and>
                         \<not> ce_has CE_SKIP_WORKTREE o' \<and> \<not> ce_has CE_FSMONITOR_VALID o' \<and>
                         (case ue_lstat env (ce_name o') of Stat st \<Rightarrow> ue_match_stat env o' st | _ \<Rightarrow> True)
                       then CE_UPDATE else 0);
                    (update, s) =
                      (if o_update opt \<and> S_ISGITLINK (ce_mode o') \<and> ue_should_update_submodules env then
                         (case verify_uptodate env opt o' s of
                            (r, s) \<Rightarrow> (if r = 0 then update OR CE_UPDATE else update, s))
                       else (update, s)) in
                (Ret 0, add_entry env o' update CE_STAGEMASK s)
              else ret (merged_entry env opt a' old s)
          | None \<Rightarrow> ret (merged_entry env opt a' None s)))"

definition stash_worktree_untracked_merge ::
  "unpack_env \<Rightarrow> unpack_trees_options \<Rightarrow> stage_ptr list \<Rightarrow> unpack_state \<Rightarrow> merge_outcome \<times> unpack_state" where
  "stash_worktree_untracked_merge env opt src s =
     (let worktree = stage_deref (src ! 1); untracked = stage_deref (src ! 2) in
      if o_merge_size opt \<noteq> 2 then (Bug, s)
      else if worktree \<noteq> None \<and> untracked \<noteq> None
      then (Ret (-1), s\<lparr>us_printed := us_printed s @ [Duplicate_entries (ce_name (the worktree))]\<rparr>)
      else merged_entry_ptr env opt (if worktree \<noteq> None then worktree else untracked) None s)"


section \<open>The trivial merges\<close>

text \<open>Contents decide; \<open>same\<close> compares them when neither entry is marked as conflicted.\<close>

definition ce_content :: "cache_entry \<Rightarrow> u32 \<times> object_id" where
  "ce_content ce = (ce_mode ce, ce_oid ce)"

definition content :: "cache_entry option \<Rightarrow> (u32 \<times> object_id) option" where
  "content = map_option ce_content"

definition plain :: "cache_entry option \<Rightarrow> bool" where
  "plain ce \<longleftrightarrow> (case ce of None \<Rightarrow> True | Some ce \<Rightarrow> \<not> ce_has CE_CONFLICTED ce \<and> \<not> S_ISSPARSEDIR (ce_mode ce))"

lemma word_or_and_0: "(a OR b) AND c = 0 \<longleftrightarrow> a AND c = 0 \<and> b AND c = (0::u32)"
  by (simp add: bit.conj_disj_distrib2 or_eq_0_iff)

lemma same_content: "plain a \<Longrightarrow> plain b \<Longrightarrow> same a b \<longleftrightarrow> content a = content b"
  by (cases a; cases b)
    (auto simp: plain_def ce_has_def content_def ce_content_def word_or_and_0)

lemma content_None [simp]: "content None = None" "content a = None \<longleftrightarrow> a = None" "None = content a \<longleftrightarrow> a = None"
  by (auto simp: content_def)

text \<open>
  The three-way rule on contents: a side that did not change takes the other side; what both
  sides did is done.  Deletions are resolved only by the \<open>aggressive\<close> rule.
\<close>

datatype resolution = Take_head | Take_remote | Remove | Nothing | Unresolved

definition trivial_merge :: "bool \<Rightarrow> 'c option \<Rightarrow> 'c option \<Rightarrow> 'c option \<Rightarrow> resolution" where
  "trivial_merge aggressive anc head remote =
     (let del = (if aggressive then Remove else Unresolved) in
      if head = remote then (if head \<noteq> None then Take_head else if anc = None then Nothing else del)
      else if anc = head then (if remote \<noteq> None then Take_remote else del)
      else if anc = remote then (if head \<noteq> None then Take_head else del)
      else Unresolved)"

text \<open>What \<open>threeway_merge\<close> does for a resolution.\<close>

definition apply_resolution ::
  "unpack_env \<Rightarrow> unpack_trees_options \<Rightarrow> stage_ptr list \<Rightarrow> cache_entry option \<Rightarrow> cache_entry option \<Rightarrow> cache_entry option
     \<Rightarrow> resolution \<Rightarrow> unpack_state \<Rightarrow> merge_outcome \<times> unpack_state" where
  "apply_resolution env opt stages index head remote res s =
     (case res of
        Take_head \<Rightarrow> merged_entry_ptr env opt head index s
      | Take_remote \<Rightarrow> merged_entry_ptr env opt remote index s
      | Nothing \<Rightarrow> (Ret 0, s)
      | Remove \<Rightarrow>
         (case index of
            Some i \<Rightarrow> ret (deleted_entry env opt i (Some i) s)
          | None \<Rightarrow>
             (case head of
                Some h \<Rightarrow>
                  (case verify_absent env opt h ERROR_WOULD_LOSE_UNTRACKED_REMOVED s of
                     (r, s) \<Rightarrow> (Ret (if r \<noteq> 0 then -1 else 0), s))
              | None \<Rightarrow> (Ret 0, s)))
      | Unresolved \<Rightarrow> threeway_no_merge env opt stages index head remote False s)"

text \<open>An ordinary three-way merge: one ancestor, no directory/file conflict.\<close>

definition stage_of :: "cache_entry option \<Rightarrow> stage_ptr" where
  "stage_of ce = (case ce of None \<Rightarrow> NoEntry | Some ce \<Rightarrow> Entry ce)"

lemma stage_of_simps [simp]:
  "stage_deref (stage_of ce) = ce" "stage_entry (stage_of ce) = ce" "stage_of ce \<noteq> DF_conflict"
  by (cases ce; simp add: stage_of_def)+

lemma stage_match_two: "stage_match stages 2 ce = of_bool (same (stage_deref (stages ! 1)) ce)"
  by (simp add: stage_match_def upt_rec)

lemma ancestors_two: "map (\<lambda>i. stages ! i) [1..<2] = [stages ! 1]"
  by (simp add: upt_rec)

lemma same_None [simp]: "same None a \<longleftrightarrow> a = None" "same a None \<longleftrightarrow> a = None"
  by (cases a; simp)+

lemma same_sym: "same a b \<longleftrightarrow> same b a"
  by (cases a; cases b) (auto simp: or.commute)

lemma threeway_two:
  fixes index anc head remote
  assumes "o_head_idx opt = 2" "index = None \<or> same index head"
  defines "stages \<equiv> [stage_of index, stage_of anc, stage_of head, stage_of remote]"
  shows "threeway_merge env opt stages s =
    (let diff = \<not> same remote head; hm = diff \<and> same anc head; rm = diff \<and> same anc remote in
      if remote \<noteq> None \<and> hm \<and> \<not> rm then merged_entry_ptr env opt remote index s
      else if head \<noteq> None \<and> same head remote then merged_entry_ptr env opt head index s
      else if head \<noteq> None \<and> rm \<and> \<not> hm then merged_entry_ptr env opt head index s
      else if head = None \<and> remote = None \<and> anc = None then (Ret 0, s)
      else if o_aggressive opt \<and> (head = None \<and> remote = None \<or> head = None \<and> remote \<noteq> None \<and> rm \<or>
         remote = None \<and> head \<noteq> None \<and> hm) then
        (case index of
           Some i \<Rightarrow> ret (deleted_entry env opt i (Some i) s)
         | None \<Rightarrow>
            (case head of
               Some h \<Rightarrow>
                 (case verify_absent env opt h ERROR_WOULD_LOSE_UNTRACKED_REMOVED s of
                      (r, s) \<Rightarrow> (Ret (if r \<noteq> 0 then -1 else 0), s))
             | None \<Rightarrow> (Ret 0, s)))
      else threeway_no_merge env opt stages index head remote (hm \<and> rm) s)"
proof -
  have nth: "stages ! 0 = stage_of index" "stages ! 1 = stage_of anc" "stages ! 2 = stage_of head" "stages ! (2 + 1) = stage_of remote"
    by (simp_all add: stages_def)
  have anc: "list_ex (\<lambda>st. stage_entry st = None) [stage_of anc] \<longleftrightarrow> anc = None"
    "list_all (\<lambda>st. stage_entry st = None) [stage_of anc] \<longleftrightarrow> anc = None"
    by simp_all
  have mism: "\<not> (index \<noteq> None \<and> \<not> same index head)"
    using assms(2) by auto
  have both: "(if same remote head then 0 else of_bool (same anc c) :: nat) \<noteq> 0 \<longleftrightarrow> \<not> same remote head \<and> same anc c" for c
    by simp
  have ag: "threeway_aggressive env opt stages index head remote hm rm (anc = None) s =
     (if head = None \<and> remote = None \<or> head = None \<and> remote \<noteq> None \<and> rm \<noteq> 0 \<or>
         remote = None \<and> head \<noteq> None \<and> hm \<noteq> 0 then
        Some (case index of
           Some i \<Rightarrow> ret (deleted_entry env opt i (Some i) s)
         | None \<Rightarrow>
            (case head of
               Some h \<Rightarrow>
                 (case verify_absent env opt h ERROR_WOULD_LOSE_UNTRACKED_REMOVED s of
                      (r, s) \<Rightarrow> (Ret (if r \<noteq> 0 then -1 else 0), s))
             | None \<Rightarrow> (Ret 0, s)))
      else if anc = None \<and> head \<noteq> None \<and> remote \<noteq> None \<and> same head remote
      then Some (merged_entry_ptr env opt head index s)
      else None)" for hm rm
    unfolding threeway_aggressive_def Let_def
    by (cases index; cases head) (auto split: option.split prod.split)
  show ?thesis
    unfolding threeway_merge_def Let_def assms(1) ancestors_two stage_match_two nth stage_of_simps both
      anc ag
    using mism
    by (cases "same remote head"; cases "same anc head"; cases "same anc remote"; cases "o_aggressive opt";
        cases "head = None"; cases "remote = None"; cases "anc = None")
      (simp_all only: same_sym [of head remote] if_True if_False simp_thms option.case same_None option.distinct
        stage_of_simps of_bool_eq zero_neq_one one_neq_zero)
qed


text \<open>
  C12: The trivial three-way merge.  With one common ancestor, no directory/file conflict and an index
  that is empty or agrees with the head at this path, \<open>threeway_merge\<close> takes the remote where only
  the remote changed, the head where only the head changed or both agree, removes the path
  under the \<open>aggressive\<close> rule where one side deleted it and the other did not touch it, and
  leaves everything else unmerged.
\<close>

theorem threeway_merge_trivial:
  assumes "plain anc" "plain head" "plain remote" "plain index"
    and "o_head_idx opt = 2" "index = None \<or> content index = content head"
  shows "threeway_merge env opt [stage_of index, stage_of anc, stage_of head, stage_of remote] s =
    apply_resolution env opt [stage_of index, stage_of anc, stage_of head, stage_of remote] index head remote
      (trivial_merge (o_aggressive opt) (content anc) (content head) (content remote)) s"
proof -
  note eqs = same_content [OF assms(3,2)] same_content [OF assms(1,2)] same_content [OF assms(1,3)]
    same_content [OF assms(2,3)]
  have index: "index = None \<or> same index head"
    using assms(6) same_content [OF assms(4,2)] by auto
  show ?thesis
  proof (cases "content head = content remote")
    case True
    then have "head = None \<longleftrightarrow> remote = None" by (metis content_None(2))
    with True show ?thesis
      unfolding threeway_two [OF assms(5) index] Let_def eqs trivial_merge_def apply_resolution_def
      by (cases head; cases remote; cases anc; cases "o_aggressive opt") simp_all
  next
    case False
    then have diff: "content remote \<noteq> content head" "\<not> (head = None \<and> remote = None)" by auto
    show ?thesis
    proof (cases "content anc = content head")
      case True
      then have "content anc \<noteq> content remote" "anc = None \<longleftrightarrow> head = None"
        using False by (metis content_None(2))+
      with True False diff show ?thesis
        unfolding threeway_two [OF assms(5) index] Let_def eqs trivial_merge_def apply_resolution_def
        by (cases head; cases remote; cases "o_aggressive opt") simp_all
    next
      case 1: False
      then show ?thesis
      proof (cases "content anc = content remote")
        case True
        then have "anc = None \<longleftrightarrow> remote = None"
          by (metis content_None(2))
        with True False 1 diff show ?thesis
          unfolding threeway_two [OF assms(5) index] Let_def eqs trivial_merge_def apply_resolution_def
          by (cases head; cases remote; cases "o_aggressive opt") simp_all
      next
        case 2: False
        with False 1 diff show ?thesis
          unfolding threeway_two [OF assms(5) index] Let_def eqs trivial_merge_def apply_resolution_def
          by (cases head; cases remote; cases anc) simp_all
      qed
    qed
  qed
qed

text \<open>A working tree with nothing in it and no submodules, and the options of a plain merge.\<close>

definition empty_worktree :: unpack_env where
  "empty_worktree =
     \<lparr>ue_lstat = \<lambda>_. ENOENT, ue_match_stat = \<lambda>_ _. False, ue_should_update_submodules = False,
      ue_submodule_from_path = \<lambda>_. False, ue_submodule_move_head = \<lambda>_ _ _ _. False,
      ue_check_leading_path = \<lambda>_. 0, ue_check_ok_to_remove = \<lambda>_ _ _ _ _ s. (0, s), ue_file_exists = \<lambda>_. False,
      ue_original_cwd = None, ue_add_index_entry = \<lambda>_. True, ue_merged_sparse_dir = \<lambda>_ _ s. (0, s)\<rparr>"

definition merge_options :: "nat \<Rightarrow> unpack_trees_options" where
  "merge_options n =
     \<lparr>o_update = True, o_index_only = False, o_aggressive = False, o_initial_checkout = False,
      o_skip_sparse_checkout = True, o_quiet = False, o_reset = UNPACK_RESET_NONE, o_head_idx = 2,
      o_show_all_errors = True, o_merge_size = n\<rparr>"

definition unpack_init :: unpack_state where
  "unpack_init = \<lparr>us_added = [], us_invalidated = [], us_rejects = [], us_printed = [], us_nontrivial = False\<rparr>"

definition blob :: "object_id \<Rightarrow> cache_entry" where
  "blob oid = \<lparr>ce_name = ''a'', ce_stat = 0, ce_mode = 0x81a4, ce_flags = 0, ce_oid = oid\<rparr>"

lemma plain_blob: "plain (Some (blob oid))" "plain None"
  by (simp_all add: plain_def blob_def ce_has_def S_ISSPARSEDIR_def S_IFDIR_def)

lemma content_blob: "content (Some (blob a)) = content (Some (blob b)) \<longleftrightarrow> a = b"
  by (simp add: content_def ce_content_def blob_def)

lemma merge_options_simps:
  "o_head_idx (merge_options n) = 2" "o_merge_size (merge_options n) = n" "o_aggressive (merge_options n) = False"
  by (simp_all add: merge_options_def)

lemma threeway_merge_trivial_witness:
  "threeway_merge empty_worktree (merge_options 3)
     [stage_of (Some (blob 1)), stage_of (Some (blob 1)), stage_of (Some (blob 1)), stage_of (Some (blob 2))] unpack_init =
   merged_entry_ptr empty_worktree (merge_options 3) (Some (blob 2)) (Some (blob 1)) unpack_init"
  using threeway_merge_trivial [of "Some (blob 1)" "Some (blob 1)" "Some (blob 2)" "Some (blob 1)"
      "merge_options 3" empty_worktree unpack_init]
  by (simp add: plain_blob merge_options_simps trivial_merge_def apply_resolution_def content_blob)

definition twoway_rule ::
  "unpack_env \<Rightarrow> unpack_trees_options \<Rightarrow> cache_entry option \<Rightarrow> cache_entry option \<Rightarrow> cache_entry option
     \<Rightarrow> unpack_state \<Rightarrow> merge_outcome \<times> unpack_state" where
  "twoway_rule env opt index old new s =
     (case index of
        Some i \<Rightarrow>
          if content old = content new \<or> content index = content new then ret (keep_entry env i s)
          else if content index = content old then
            (case new of
               Some n \<Rightarrow> ret (merged_entry env opt n index s)
             | None \<Rightarrow> ret (deleted_entry env opt (the old) index s))
          else ret (reject_merge opt i s)
      | None \<Rightarrow>
         (case (old, new) of
            (None, None) \<Rightarrow> (Null_deref, s)
          | (None, Some n) \<Rightarrow> ret (merged_entry env opt n None s)
          | (Some o', None) \<Rightarrow> ret (deleted_entry env opt o' None s)
          | (Some o', Some n) \<Rightarrow>
              if o_initial_checkout opt then ret (merged_entry env opt n None s)
              else if content old = content new then (Ret 1, s)
              else ret (reject_merge opt o' s)))"

text \<open>
  C14: The two-way merge of a checkout carries the index forward: an index entry stays when the two trees
  agree or it already is what the new tree has; it moves to the new tree, or is removed, when it
  is what the old tree has; anything else is a staged change that would be lost, and the merge
  is rejected.  Without an index entry the new tree is taken, unless the old tree had the path,
  in which case its removal was staged: that is kept if the trees agree and rejected if not.
\<close>

theorem twoway_merge_carries_forward:
  assumes "plain index" "plain old" "plain new" "o_merge_size opt = 2"
  shows "twoway_merge env opt [stage_of index, stage_of old, stage_of new] s = twoway_rule env opt index old new s"
proof -
  note eqs = same_content [OF assms(2,3)] same_content [OF assms(1,3)] same_content [OF assms(1,2)]
  have nth: "[stage_of index, stage_of old, stage_of new] ! 0 = stage_of index"
    "[stage_of index, stage_of old, stage_of new] ! 1 = stage_of old"
    "[stage_of index, stage_of old, stage_of new] ! 2 = stage_of new"
    by simp_all
  show ?thesis
  proof (cases index)
    case None
    then show ?thesis
      unfolding twoway_merge_def Let_def nth stage_of_simps eqs twoway_rule_def
      by (cases old; cases new) (simp_all add: assms(4) deleted_entry_ptr_def)
  next
    case (Some i)
    have i: "\<not> ce_has CE_CONFLICTED i" "\<not> S_ISSPARSEDIR (ce_mode i)"
      using assms(1) Some by (auto simp: plain_def)
    have n: "new = Some n \<Longrightarrow> \<not> S_ISSPARSEDIR (ce_mode n)" for n
      using assms(3) by (auto simp: plain_def)
    show ?thesis
      unfolding twoway_merge_def Let_def nth stage_of_simps eqs twoway_rule_def
      by (cases old; cases new; cases "content old = content new"; cases "content index = content new"; cases "content index = content old")
        (simp_all add: Some assms(4) i n reject_or_sparse_def)
  qed
qed


lemma twoway_merge_carries_forward_witness:
  "twoway_merge empty_worktree (merge_options 2)
     [stage_of (Some (blob 3)), stage_of (Some (blob 1)), stage_of (Some (blob 2))] unpack_init =
   ret (reject_merge (merge_options 2) (blob 3) unpack_init)"
  using twoway_merge_carries_forward [of "Some (blob 3)" "Some (blob 1)" "Some (blob 2)" "merge_options 2"
      empty_worktree unpack_init]
  by (simp add: plain_blob merge_options_simps twoway_rule_def content_blob)

section \<open>Local changes are not lost\<close>

text \<open>
  \<open>untouched path xs\<close>: none of the entries \<open>xs\<close> makes the checkout write or remove \<open>path\<close>.
\<close>

definition untouched :: "string \<Rightarrow> cache_entry list \<Rightarrow> bool" where
  "untouched path xs \<longleftrightarrow>
     list_all (\<lambda>x. ce_name x = path \<longrightarrow> \<not> ce_has CE_UPDATE x \<and> \<not> ce_has CE_REMOVE x) xs"

text \<open>The entries a step adds leave \<open>path\<close> alone.\<close>

definition adds_untouched :: "string \<Rightarrow> unpack_state \<Rightarrow> unpack_state \<Rightarrow> bool" where
  "adds_untouched path s s' \<longleftrightarrow> (\<exists>xs. us_added s' = us_added s @ xs \<and> untouched path xs)"

lemma adds_untouched_refl [intro, simp]: "adds_untouched path s s"
  by (auto simp: adds_untouched_def untouched_def)





lemma us_added_simps [simp]:
  "us_added (snd (add_rejected_path opt e p s)) = us_added s"
  "us_added (snd (reject_merge opt ce s)) = us_added s"
  "us_added (snd (check_submodule_move_head env opt ce a b s)) = us_added s"
  "us_added (invalidate_ce_path ceo s) = us_added s"
  by (auto simp: add_rejected_path_def reject_merge_def check_submodule_move_head_def invalidate_ce_path_def
      split: option.split)


lemma us_added_merged_submodule [simp]: "us_added (snd (merged_submodule env opt ce old s)) = us_added s"
  by (simp add: merged_submodule_def)

lemma fst_add_rejected_path [simp]: "fst (add_rejected_path opt e p s) = -1"
  by (simp add: add_rejected_path_def)




























section \<open>No crash, and what a reset leaves\<close>

definition no_crash :: "merge_outcome \<times> unpack_state \<Rightarrow> bool" where
  "no_crash r \<longleftrightarrow> (\<exists>n. fst r = Ret n)"


lemma no_crash_simps [simp]:
  "no_crash (ret r)" "no_crash (Ret m, s)" "no_crash (reject_or_sparse env opt stages n e s)"
  "ce \<noteq> None \<Longrightarrow> no_crash (merged_entry_ptr env opt ce index s)"
  "no_crash (threeway_no_merge env opt stages index head remote both s)"
  by (auto simp: no_crash_def ret_def reject_or_sparse_def merged_entry_ptr_def threeway_no_merge_def case_prod_unfold
      split: option.split)


text \<open>What \<open>add_index_entry\<close> is given at stage 0 with the contents of \<open>a\<close>.\<close>

definition stage0_of :: "cache_entry \<Rightarrow> cache_entry \<Rightarrow> bool" where
  "stage0_of a x \<longleftrightarrow> ce_mode x = ce_mode a \<and> ce_oid x = ce_oid a \<and> ce_stage x = 0"

lemma stage0_of_flags:
  "stage0_of ce (ce\<lparr>ce_flags := f\<rparr>) \<longleftrightarrow> unat (drop_bit CE_STAGESHIFT (CE_STAGEMASK AND f)) = 0"
  by (simp add: stage0_of_def ce_stage_def)

lemma do_add_entry_stage0:
  assumes "setf AND CE_STAGEMASK = 0" "setf AND CE_REMOVE = 0"
  shows "\<exists>x. us_added (snd (do_add_entry env ce setf CE_STAGEMASK s)) = us_added s @ [x] \<and>
    stage0_of ce x \<and> ce_stat x = ce_stat ce"
proof -
  let ?f = "(ce_flags ce AND NOT (CE_STAGEMASK OR CE_HASHED)) OR setf"
  have "(ce_flags ce AND NOT (CE_STAGEMASK OR CE_HASHED)) AND CE_STAGEMASK = 0"
    by (rule bit_word_eqI) (auto simp: bit_simps)
  then have "?f AND CE_STAGEMASK = 0"
    using assms(1) by (simp only: word_or_and_0)
  then have f: "CE_STAGEMASK AND ?f = 0"
    by (simp only: and.commute)
  have "stage0_of ce (ce\<lparr>ce_flags := ?f\<rparr>)"
    by (simp only: stage0_of_flags f drop_bit_of_0 unsigned_0)
  moreover have "us_added (snd (do_add_entry env ce setf CE_STAGEMASK s)) = us_added s @ [ce\<lparr>ce_flags := ?f\<rparr>]"
    using assms(2) by (simp add: do_add_entry_def Let_def)
  ultimately show ?thesis by auto
qed

lemma merged_finish_stage0:
  assumes "update AND CE_STAGEMASK = 0" "update AND CE_REMOVE = 0" "merged_finish env merge update s = (r, s')"
  shows "\<exists>x xs. us_added s' = xs @ [x] \<and> stage0_of merge x \<and> ce_stat x = ce_stat merge"
  using do_add_entry_stage0 [OF assms(1,2), of env merge s] assms(3)
  by (auto simp: merged_finish_def case_prod_unfold)

lemma update_flags:
  "CE_UPDATE AND CE_STAGEMASK = 0" "CE_UPDATE AND CE_REMOVE = 0" "CE_ADDED AND CE_STAGEMASK = 0" "CE_ADDED AND CE_REMOVE = 0"
  "(x AND (CE_SKIP_WORKTREE OR CE_NEW_SKIP_WORKTREE)) AND CE_STAGEMASK = 0"
  "(x AND (CE_SKIP_WORKTREE OR CE_NEW_SKIP_WORKTREE)) AND CE_REMOVE = 0"
  by (simp_all add: ce_flag_defs and.assoc)

lemma merged_tail:
  "(if fst v \<noteq> 0 then (-1, snd v) else if fst m \<noteq> 0 then m else f) = (r :: int, s') \<Longrightarrow> 0 \<le> r \<Longrightarrow>
   fst m = 0 \<or> fst m = -1 \<Longrightarrow> f = (r, s' :: unpack_state)"
  by (auto split: if_splits)

lemma merged_entry_stage0:
  assumes "merged_entry env opt ce old s = (r, s')" "0 \<le> r" "plain old"
  shows "\<exists>x xs. us_added s' = xs @ [x] \<and> stage0_of ce x"
proof -
  have sub: "fst (merged_submodule env opt ce o' t) = 0 \<or> fst (merged_submodule env opt ce o' t) = -1" for o' t
    by (simp add: merged_submodule_def check_submodule_move_head_def)
  show ?thesis
  proof (cases old)
    case None
    let ?m = "ce\<lparr>ce_flags := ce_flags ce OR CE_NEW_SKIP_WORKTREE\<rparr>"
    let ?v = "verify_absent env opt ?m ERROR_WOULD_LOSE_UNTRACKED_OVERWRITTEN s"
    let ?M = "merged_submodule env opt ce None (invalidate_ce_path (Some ?m) (snd ?v))"
    have "(if fst ?v \<noteq> 0 then (-1, snd ?v) else if fst ?M \<noteq> 0 then ?M
        else merged_finish env ?m (CE_UPDATE OR CE_ADDED) (snd ?M)) = (r, s')"
      using assms(1) None unfolding merged_entry_def merged_new_def Let_def case_prod_unfold
      by (simp only: option.case prod.collapse)
    from merged_finish_stage0 [OF _ _ merged_tail [OF this assms(2) sub]] show ?thesis
      by (auto simp: update_flags word_or_and_0 stage0_of_def)
  next
    case (Some o')
    then have "\<not> ce_has CE_CONFLICTED o'" using assms(3) by (simp add: plain_def)
    then have over: "merged_over env opt ce o' s = (r, s')"
      using assms(1) Some by (simp add: merged_entry_def)
    show ?thesis
    proof (cases "same (Some o') (Some ce)")
      case True
      then have eq: "ce_mode ce = ce_mode o'" "ce_oid ce = ce_oid o'" by (auto split: if_splits)
      let ?M = "merged_submodule env opt ce (Some (Oid (ce_oid o'))) s"
      have "(if fst (0::int, s) \<noteq> 0 then (-1, snd (0::int, s)) else if fst ?M \<noteq> 0 then ?M
          else merged_finish env (copy_cache_entry ce o') 0 (snd ?M)) = (r, s')"
        using over unfolding merged_over_def case_prod_unfold if_P [OF True] fst_conv snd_conv
        by (simp only: prod.collapse simp_thms if_False)
      from merged_finish_stage0 [OF _ _ merged_tail [OF this assms(2) sub]] show ?thesis
        using eq by (auto simp: stage0_of_def copy_cache_entry_def)
    next
      case False
      let ?v = "verify_uptodate env opt o' s"
      let ?M = "merged_submodule env opt ce (Some (Oid (ce_oid o'))) (invalidate_ce_path (Some o') (snd ?v))"
      have "(if fst ?v \<noteq> 0 then (-1, snd ?v) else if fst ?M \<noteq> 0 then ?M
          else merged_finish env ce (CE_UPDATE OR (ce_flags o' AND (CE_SKIP_WORKTREE OR CE_NEW_SKIP_WORKTREE))) (snd ?M)) = (r, s')"
        using over unfolding merged_over_def case_prod_unfold if_not_P [OF False]
        by (cases "fst ?v = 0") (simp_all only: prod.collapse simp_thms if_False if_True fst_conv snd_conv, simp)
      from merged_finish_stage0 [OF _ _ merged_tail [OF this assms(2) sub]] show ?thesis
        by (auto simp: update_flags word_or_and_0)
    qed
  qed
qed

text \<open>
  \<open>oneway_merge\<close>, which \<open>git reset\<close> uses, makes the index match the tree: when it succeeds on a path
  that the tree has, the last entry it adds is a stage-0 entry with the mode and object of the
  tree's entry.
\<close>

theorem oneway_merge_takes_tree:
  assumes "oneway_merge env opt [stage_of old, Entry a] s = (Ret r, s')" "0 \<le> r" "plain old" "o_merge_size opt = 1"
  shows "\<exists>x xs. us_added s' = xs @ [x] \<and> stage0_of a x"
proof (cases "old \<noteq> None \<and> same old (Some a)")
  case False
  then have "ret (merged_entry env opt a old s) = (Ret r, s')"
    using assms(1,4) by (cases old) (auto simp: oneway_merge_def Let_def)
  then have "merged_entry env opt a old s = (r, s')"
    by (auto simp: ret_def prod_eq_iff)
  then show ?thesis using merged_entry_stage0 assms(2,3) by blast
next
  case True
  then obtain o' where o': "old = Some o'" "ce_mode o' = ce_mode a" "ce_oid o' = ce_oid a"
    by (auto split: if_splits)
  have "\<exists>update t. (update = 0 \<or> update = CE_UPDATE) \<and> s' = add_entry env o' update CE_STAGEMASK t"
    using assms(1,4) True o'(1) by (auto simp: oneway_merge_def Let_def case_prod_unfold split: if_splits)
  then obtain update t where u: "update = 0 \<or> update = CE_UPDATE" "s' = add_entry env o' update CE_STAGEMASK t"
    by blast
  have "update AND CE_STAGEMASK = 0" "update AND CE_REMOVE = 0"
    using u(1) update_flags by auto
  from do_add_entry_stage0 [OF this, of env o' t] show ?thesis
    using u(2) o'(2,3) by (auto simp: add_entry_def stage0_of_def)
qed

lemma oneway_merge_takes_tree_witness:
  "\<exists>x xs. us_added (snd (oneway_merge empty_worktree (merge_options 1) [stage_of None, Entry (blob 1)] unpack_init)) = xs @ [x] \<and>
     stage0_of (blob 1) x"
proof -
  have "oneway_merge empty_worktree (merge_options 1) [stage_of None, Entry (blob 1)] unpack_init =
      (Ret 1, snd (oneway_merge empty_worktree (merge_options 1) [stage_of None, Entry (blob 1)] unpack_init))"
    by (simp add: oneway_merge_def Let_def merge_options_def empty_worktree_def merged_entry_def merged_new_def
        ret_def verify_absent_def verify_absent_1_def merged_submodule_def submodule_from_ce_def merged_finish_def
        do_add_entry_def case_prod_unfold)
  from oneway_merge_takes_tree [OF this] show ?thesis
    by (simp add: plain_blob merge_options_simps)
qed

end
