(* ===== verification/Ctype.thy ===== *)
theory Ctype
  imports Prelude
begin

text \<open>
  \<^verbatim>\<open>ctype.c\<close> and \<^verbatim>\<open>sane-ctype.h\<close>: the locale-independent character classes, which every parser of
  git uses instead of the C library's.
\<close>

definition GIT_SPACE :: nat where "GIT_SPACE = 0x01"
definition GIT_DIGIT :: nat where "GIT_DIGIT = 0x02"
definition GIT_ALPHA :: nat where "GIT_ALPHA = 0x04"
definition GIT_GLOB_SPECIAL :: nat where "GIT_GLOB_SPECIAL = 0x08"
definition GIT_REGEX_SPECIAL :: nat where "GIT_REGEX_SPECIAL = 0x10"
definition GIT_PATHSPEC_MAGIC :: nat where "GIT_PATHSPEC_MAGIC = 0x20"
definition GIT_CNTRL :: nat where "GIT_CNTRL = 0x40"
definition GIT_PUNCT :: nat where "GIT_PUNCT = 0x80"

definition sane_ctype :: "nat list" where
  "sane_ctype =
     (let S = GIT_SPACE; A = GIT_ALPHA; D = GIT_DIGIT; G = GIT_GLOB_SPECIAL; R = GIT_REGEX_SPECIAL;
          P = GIT_PATHSPEC_MAGIC; X = GIT_CNTRL; U = GIT_PUNCT; Z = GIT_CNTRL OR GIT_SPACE in
      [X, X, X, X, X, X, X, X, X, Z, Z, X, X, Z, X, X,
       X, X, X, X, X, X, X, X, X, X, X, X, X, X, X, X,
       S, P, P, P, R, P, P, P, R, R, G, R, P, P, R, P,
       D, D, D, D, D, D, D, D, D, D, P, P, P, P, P, G,
       P, A, A, A, A, A, A, A, A, A, A, A, A, A, A, A,
       A, A, A, A, A, A, A, A, A, A, A, G, G, U, R, P,
       P, A, A, A, A, A, A, A, A, A, A, A, A, A, A, A,
       A, A, A, A, A, A, A, A, A, A, A, R, R, U, P, X]
      @ replicate 128 0)"

definition sane_istest :: "char \<Rightarrow> nat \<Rightarrow> bool" where
  "sane_istest x m \<longleftrightarrow> sane_ctype ! of_char x AND m \<noteq> 0"

definition isspace :: "char \<Rightarrow> bool" where "isspace x = sane_istest x GIT_SPACE"
definition isdigit :: "char \<Rightarrow> bool" where "isdigit x = sane_istest x GIT_DIGIT"
definition isalpha :: "char \<Rightarrow> bool" where "isalpha x = sane_istest x GIT_ALPHA"
definition isalnum :: "char \<Rightarrow> bool" where "isalnum x = sane_istest x (GIT_ALPHA OR GIT_DIGIT)"
definition is_glob_special :: "char \<Rightarrow> bool" where "is_glob_special x = sane_istest x GIT_GLOB_SPECIAL"

definition is_regex_special :: "char \<Rightarrow> bool" where
  "is_regex_special x = sane_istest x (GIT_GLOB_SPECIAL OR GIT_REGEX_SPECIAL)"
definition iscntrl :: "char \<Rightarrow> bool" where "iscntrl x = sane_istest x GIT_CNTRL"
definition ispunct :: "char \<Rightarrow> bool" where
  "ispunct x = sane_istest x (GIT_PUNCT OR GIT_REGEX_SPECIAL OR GIT_GLOB_SPECIAL OR GIT_PATHSPEC_MAGIC)"
definition isprint :: "char \<Rightarrow> bool" where
  "isprint x \<longleftrightarrow> 0x20 \<le> (of_char x :: nat) \<and> (of_char x :: nat) \<le> 0x7e"
definition is_pathspec_magic :: "char \<Rightarrow> bool" where
  "is_pathspec_magic x = sane_istest x GIT_PATHSPEC_MAGIC"

text \<open>\<open>tolower\<close> and \<open>toupper\<close> clear or set bit 5 of the letters.\<close>

definition sane_case :: "char \<Rightarrow> nat \<Rightarrow> char" where
  "sane_case x high =
     (if sane_istest x GIT_ALPHA
      then char_of ((of_char x - (of_char x AND 0x20)) OR high) else x)"

definition tolower :: "char \<Rightarrow> char" where "tolower x = sane_case x 0x20"
definition toupper :: "char \<Rightarrow> char" where "toupper x = sane_case x 0"

definition sane_iscase :: "char \<Rightarrow> bool \<Rightarrow> bool" where
  "sane_iscase x is_lower =
     (if \<not> sane_istest x GIT_ALPHA then False
      else if is_lower then of_char x AND (0x20::nat) \<noteq> 0
      else of_char x AND (0x20::nat) = 0)"

definition islower :: "char \<Rightarrow> bool" where "islower x = sane_iscase x True"
definition isupper :: "char \<Rightarrow> bool" where "isupper x = sane_iscase x False"

section \<open>What the table says\<close>

lemma of_char_lt_256 [simp]: "(of_char c :: nat) < 256"
  using of_char_mod_256 [of c, where ?'a = nat] by (metis mod_less_divisor zero_less_numeral)

lemma sane_ctype_eq:
  "sane_ctype =
     replicate 9 64 @ [65, 65, 64, 64, 65] @ replicate 18 64 @
     [1, 32, 32, 32, 16, 32, 32, 32, 16, 16, 8, 16, 32, 32, 16, 32] @ replicate 10 2 @
     replicate 5 32 @ [8, 32] @ replicate 26 4 @ [8, 8, 128, 16, 32, 32] @ replicate 26 4 @
     [16, 16, 128, 32, 64] @ replicate 128 0"
  by code_simp

lemma length_sane_ctype: "length sane_ctype = 256"
  by (simp add: sane_ctype_eq)

lemma sane_istest_nth: "sane_istest c m \<longleftrightarrow> map (\<lambda>k. k AND m \<noteq> 0) sane_ctype ! of_char c"
  by (simp add: sane_istest_def length_sane_ctype)

lemmas sane_istest_eval =
  sane_istest_nth sane_ctype_eq GIT_SPACE_def GIT_DIGIT_def GIT_ALPHA_def GIT_GLOB_SPECIAL_def
  nth_append nth_Cons'

lemma replicate_nth_False: "i - 128 < n \<Longrightarrow> \<not> replicate n False ! (i - 128)"
  by simp

lemma high_not_in_table [simp]: "\<not> replicate 128 False ! (of_char c - 128)"
  using of_char_lt_256 [of c] by (intro replicate_nth_False) linarith

lemma isdigit_code: "isdigit c \<longleftrightarrow> 48 \<le> (of_char c :: nat) \<and> of_char c < (58 :: nat)"
  using of_char_lt_256 [of c] by (auto simp: isdigit_def sane_istest_eval split: if_splits)

lemma sane_istest_alpha:
  "sane_istest c GIT_ALPHA \<longleftrightarrow>
     65 \<le> (of_char c :: nat) \<and> of_char c < (91 :: nat) \<or>
     97 \<le> (of_char c :: nat) \<and> of_char c < (123 :: nat)"
  using of_char_lt_256 [of c] by (auto simp: sane_istest_eval split: if_splits)

lemma isspace_code: "isspace c \<longleftrightarrow> (of_char c :: nat) \<in> {9, 10, 13, 32}"
  using of_char_lt_256 [of c] by (auto simp: isspace_def sane_istest_eval split: if_splits)

lemma is_glob_special_code: "is_glob_special c \<longleftrightarrow> (of_char c :: nat) \<in> {42, 63, 91, 92}"
  using of_char_lt_256 [of c] by (auto simp: is_glob_special_def sane_istest_eval split: if_splits)

lemma sane_istest_or: "sane_istest c (m OR n) \<longleftrightarrow> sane_istest c m \<or> sane_istest c n"
proof -
  have "(k::nat) AND (m OR n) = 0 \<longleftrightarrow> k AND m = 0 \<and> k AND n = 0" for k
    by (auto simp: bit_eq_iff bit_simps)
  then show ?thesis by (simp add: sane_istest_def)
qed

lemma isalnum_iff: "isalnum c \<longleftrightarrow> isalpha c \<or> isdigit c"
  by (simp add: isalnum_def isalpha_def isdigit_def sane_istest_or)

lemma isspace_iff: "isspace c \<longleftrightarrow> c \<in> {CHR 0x09, CHR 0x0A, CHR 0x0D, CHR '' ''}"
proof -
  note eq = of_char_eq_iff [of c, where ?'a = nat]
  from eq [of "CHR 0x09"] eq [of "CHR 0x0A"] eq [of "CHR 0x0D"] eq [of "CHR '' ''"]
  show ?thesis by (simp add: isspace_code)
qed

lemma is_glob_special_iff: "is_glob_special c \<longleftrightarrow> c \<in> {CHR ''*'', CHR ''?'', CHR ''['', CHR 0x5C}"
proof -
  note eq = of_char_eq_iff [of c, where ?'a = nat]
  from eq [of "CHR ''*''"] eq [of "CHR ''?''"] eq [of "CHR ''[''"] eq [of "CHR 0x5C"]
  show ?thesis by (simp add: is_glob_special_code)
qed

lemma nat_and_exp: "(n::nat) AND 2 ^ k = of_bool (bit n k) * 2 ^ k"
  by (rule bit_eqI) (auto simp: bit_simps)

lemma nat_and_32: "(n::nat) AND 32 = (if odd (n div 32) then 32 else 0)"
  using nat_and_exp [of n 5] by (simp add: bit_iff_odd)

lemma nat_and_32_range:
  "97 \<le> n \<Longrightarrow> n < 123 \<Longrightarrow> (n::nat) AND 32 = 32"
  "65 \<le> n \<Longrightarrow> n < 91 \<Longrightarrow> (n::nat) AND 32 = 0"
  using div_nat_eqI [of 32 3 n] div_nat_eqI [of 32 2 n] by (simp_all add: nat_and_32)

lemma nat_or_32: "(n::nat) AND 32 = 0 \<Longrightarrow> n OR 32 = n + 32"
  by (metis disjunctive_add_eq_or)

lemma islower_code: "islower c \<longleftrightarrow> 97 \<le> (of_char c :: nat) \<and> of_char c < (123 :: nat)"
  by (auto simp: islower_def sane_iscase_def sane_istest_alpha nat_and_32_range)

lemma isupper_code: "isupper c \<longleftrightarrow> 65 \<le> (of_char c :: nat) \<and> of_char c < (91 :: nat)"
  by (auto simp: isupper_def sane_iscase_def sane_istest_alpha nat_and_32_range)

lemma tolower_code: "(of_char (tolower c) :: nat) = (if isupper c then of_char c + 32 else of_char c)"
  by (auto simp: tolower_def sane_case_def sane_istest_alpha isupper_code nat_and_32_range nat_or_32)

lemma toupper_code: "(of_char (toupper c) :: nat) = (if islower c then of_char c - 32 else of_char c)"
  by (auto simp: toupper_def sane_case_def sane_istest_alpha islower_code nat_and_32_range)

lemma not_special_NUL [simp]: "\<not> isspace NUL" "\<not> isalnum NUL" "\<not> isdigit NUL" "\<not> is_glob_special NUL"
  by (simp_all add: isspace_code isalnum_iff isdigit_code isalpha_def sane_istest_alpha is_glob_special_code)

end
