(* ===== verification/Hex.thy ===== *)
theory Hex
  imports Prelude Ctype "HOL-Library.Sublist"
begin

text \<open>
  \<^verbatim>\<open>hex-ll.c\<close>, \<^verbatim>\<open>hex-ll.h\<close>, \<^verbatim>\<open>hex.c\<close> and the hash table of \<^verbatim>\<open>hash.c\<close>: object names in memory and
  their hexadecimal form.  A \<open>const struct git_hash_algo *\<close> always points into \<open>hash_algos\<close>;
  it is modelled by the index.  \<open>the_hash_algo\<close>, the algorithm of the current repository, is an
  argument.  A buffer for a raw hash is a list of \<open>GIT_MAX_RAWSZ\<close> bytes, updated in place; a
  \<open>char *\<close> is the list of the characters up to its terminating NUL.
\<close>

section \<open>Hexadecimal digits\<close>

definition hexval_table :: "int list" where
  "hexval_table =
     replicate 48 (-1) @ [0, 1, 2, 3, 4, 5, 6, 7, 8, 9] @ replicate 7 (-1) @
     [10, 11, 12, 13, 14, 15] @ replicate 26 (-1) @
     [10, 11, 12, 13, 14, 15] @ replicate 153 (-1)"

definition hexval :: "char \<Rightarrow> u32" where
  "hexval c = word_of_int (hexval_table ! of_char c)"

definition isxdigit :: "char \<Rightarrow> bool" where
  "isxdigit x \<longleftrightarrow> hexval_table ! of_char x \<noteq> -1"

definition hex2chr :: "string \<Rightarrow> int" where
  "hex2chr s =
     (let val = hexval (cur s) in
      sint (if val AND NOT 0xf \<noteq> 0 then val else push_bit 4 val OR hexval (cur (tl s))))"

text \<open>\<open>hex_to_bytes\<close> returns its status and the bytes it stored at \<open>binary\<close>.\<close>

fun hex_to_bytes :: "string \<Rightarrow> nat \<Rightarrow> int \<times> byte list" where
  "hex_to_bytes hex 0 = (0, [])"
| "hex_to_bytes hex (Suc len) =
     (let val = push_bit 4 (hexval (cur hex)) OR hexval (cur (tl hex)) in
      if val AND NOT 0xff \<noteq> 0 then (-1, [])
      else case hex_to_bytes (tl (tl hex)) len of (ret, bs) \<Rightarrow> (ret, ucast val # bs))"

section \<open>Hash algorithms and object names\<close>

definition GIT_HASH_UNKNOWN :: nat where "GIT_HASH_UNKNOWN = 0"
definition GIT_HASH_SHA1 :: nat where "GIT_HASH_SHA1 = 1"
definition GIT_HASH_SHA256 :: nat where "GIT_HASH_SHA256 = 2"
definition GIT_HASH_NALGOS :: nat where "GIT_HASH_NALGOS = GIT_HASH_SHA256 + 1"
definition GIT_SHA1_RAWSZ :: nat where "GIT_SHA1_RAWSZ = 20"
definition GIT_SHA1_HEXSZ :: nat where "GIT_SHA1_HEXSZ = 2 * GIT_SHA1_RAWSZ"
definition GIT_SHA256_RAWSZ :: nat where "GIT_SHA256_RAWSZ = 32"
definition GIT_SHA256_HEXSZ :: nat where "GIT_SHA256_HEXSZ = 2 * GIT_SHA256_RAWSZ"
definition GIT_MAX_RAWSZ :: nat where "GIT_MAX_RAWSZ = GIT_SHA256_RAWSZ"

record git_hash_algo =
  ha_name :: "string option"
  format_id :: u32
  rawsz :: nat
  hexsz :: nat

record object_id =
  oid_hash :: "byte list"
  oid_algo :: nat

definition hash_algos :: "git_hash_algo list" where
  "hash_algos =
     [\<lparr> ha_name = None, format_id = 0, rawsz = 0, hexsz = 0 \<rparr>,
      \<lparr> ha_name = Some ''sha1'', format_id = 0x73686131, rawsz = GIT_SHA1_RAWSZ,
        hexsz = GIT_SHA1_HEXSZ \<rparr>,
      \<lparr> ha_name = Some ''sha256'', format_id = 0x73323536, rawsz = GIT_SHA256_RAWSZ,
        hexsz = GIT_SHA256_HEXSZ \<rparr>]"

fun hash_algo_find :: "(git_hash_algo \<Rightarrow> bool) \<Rightarrow> nat \<Rightarrow> nat \<Rightarrow> nat" where
  "hash_algo_find p i 0 = GIT_HASH_UNKNOWN"
| "hash_algo_find p i (Suc n) = (if p (hash_algos ! i) then i else hash_algo_find p (Suc i) n)"

definition hash_algo_by_name :: "string option \<Rightarrow> nat" where
  "hash_algo_by_name name =
     (case name of None \<Rightarrow> GIT_HASH_UNKNOWN
      | Some _ \<Rightarrow> hash_algo_find (\<lambda>a. name = ha_name a) 1 (GIT_HASH_NALGOS - 1))"

definition hash_algo_by_id :: "u32 \<Rightarrow> nat" where
  "hash_algo_by_id fid = hash_algo_find (\<lambda>a. fid = format_id a) 1 (GIT_HASH_NALGOS - 1)"

definition hash_algo_by_length :: "nat \<Rightarrow> nat" where
  "hash_algo_by_length len = hash_algo_find (\<lambda>a. len = rawsz a) 1 (GIT_HASH_NALGOS - 1)"

text \<open>\<open>hash_algo_by_ptr\<close> finds the index of a pointer, which is the pointer here.\<close>

definition hash_algo_by_ptr :: "nat \<Rightarrow> nat" where
  "hash_algo_by_ptr p = (if p < GIT_HASH_NALGOS then p else GIT_HASH_UNKNOWN)"

definition oid_set_algo :: "object_id \<Rightarrow> nat \<Rightarrow> object_id" where
  "oid_set_algo oid algop = oid\<lparr> oid_algo := hash_algo_by_ptr algop \<rparr>"

definition oideq :: "object_id \<Rightarrow> object_id \<Rightarrow> bool" where
  "oideq a b \<longleftrightarrow> take GIT_MAX_RAWSZ (oid_hash a) = take GIT_MAX_RAWSZ (oid_hash b)"

definition oidread :: "object_id \<Rightarrow> byte list \<Rightarrow> nat \<Rightarrow> object_id" where
  "oidread oid hash algop =
     (let n = rawsz (hash_algos ! algop);
          h = take n hash @ drop n (oid_hash oid);
          h = (if n < GIT_MAX_RAWSZ then take n h @ replicate (GIT_MAX_RAWSZ - n) 0 else h) in
      oid\<lparr> oid_hash := h, oid_algo := hash_algo_by_ptr algop \<rparr>)"

definition oidclr :: "object_id \<Rightarrow> nat \<Rightarrow> object_id" where
  "oidclr oid algop =
     oid\<lparr> oid_hash := replicate GIT_MAX_RAWSZ 0, oid_algo := hash_algo_by_ptr algop \<rparr>"

section \<open>Reading hexadecimal object names\<close>

fun get_hash_hex_loop :: "string \<Rightarrow> byte list \<Rightarrow> nat \<Rightarrow> nat \<Rightarrow> int \<times> byte list" where
  "get_hash_hex_loop hex hash i 0 = (0, hash)"
| "get_hash_hex_loop hex hash i (Suc n) =
     (let val = hex2chr hex in
      if val < 0 then (-1, hash)
      else get_hash_hex_loop (tl (tl hex)) (hash[i := word_of_int val]) (Suc i) n)"

definition get_hash_hex_algop :: "string \<Rightarrow> byte list \<Rightarrow> nat \<Rightarrow> int \<times> byte list" where
  "get_hash_hex_algop hex hash algop = get_hash_hex_loop hex hash 0 (rawsz (hash_algos ! algop))"

definition get_hash_hex :: "nat \<Rightarrow> string \<Rightarrow> byte list \<Rightarrow> int \<times> byte list" where
  "get_hash_hex the_hash_algo hex sha1 = get_hash_hex_algop hex sha1 the_hash_algo"

definition get_oid_hex_algop :: "string \<Rightarrow> object_id \<Rightarrow> nat \<Rightarrow> int \<times> object_id" where
  "get_oid_hex_algop hex oid algop =
     (case get_hash_hex_algop hex (oid_hash oid) algop of (ret, h) \<Rightarrow>
      let oid = oid\<lparr> oid_hash := h \<rparr> in
      if ret = 0 then
        let oid = oid_set_algo oid algop;
            n = rawsz (hash_algos ! algop) in
        if n \<noteq> GIT_MAX_RAWSZ
        then (ret, oid\<lparr> oid_hash := take n h @ replicate (GIT_MAX_RAWSZ - n) 0 \<rparr>)
        else (ret, oid)
      else (ret, oid))"

fun get_oid_hex_any_loop :: "string \<Rightarrow> object_id \<Rightarrow> nat \<Rightarrow> nat \<times> object_id" where
  "get_oid_hex_any_loop hex oid 0 = (GIT_HASH_UNKNOWN, oid)"
| "get_oid_hex_any_loop hex oid (Suc i) =
     (case get_oid_hex_algop hex oid (Suc i) of (ret, oid) \<Rightarrow>
      if ret = 0 then (Suc i, oid) else get_oid_hex_any_loop hex oid i)"

definition get_oid_hex_any :: "string \<Rightarrow> object_id \<Rightarrow> nat \<times> object_id" where
  "get_oid_hex_any hex oid = get_oid_hex_any_loop hex oid (GIT_HASH_NALGOS - 1)"

definition get_oid_hex :: "nat \<Rightarrow> string \<Rightarrow> object_id \<Rightarrow> int \<times> object_id" where
  "get_oid_hex the_hash_algo hex oid = get_oid_hex_algop hex oid the_hash_algo"

text \<open>The parsers also return what they store at \<open>end\<close>, \<open>None\<close> when they leave it alone.\<close>

definition parse_oid_hex_algop_impl ::
  "string \<Rightarrow> object_id \<Rightarrow> nat \<Rightarrow> int \<times> object_id \<times> string option" where
  "parse_oid_hex_algop_impl hex oid algop =
     (case get_oid_hex_algop hex oid algop of (ret, oid) \<Rightarrow>
      (ret, oid, if ret = 0 then Some (drop (hexsz (hash_algos ! algop)) hex) else None))"

definition parse_oid_hex_any :: "string \<Rightarrow> object_id \<Rightarrow> nat \<times> object_id \<times> string option" where
  "parse_oid_hex_any hex oid =
     (case get_oid_hex_any hex oid of (ret, oid) \<Rightarrow>
      (ret, oid, if ret \<noteq> 0 then Some (drop (hexsz (hash_algos ! ret)) hex) else None))"

definition parse_oid_hex :: "nat \<Rightarrow> string \<Rightarrow> object_id \<Rightarrow> int \<times> object_id \<times> string option" where
  "parse_oid_hex the_hash_algo hex oid = parse_oid_hex_algop_impl hex oid the_hash_algo"

section \<open>Printing object names\<close>

definition hex_digits :: string where "hex_digits = ''0123456789abcdef''"

fun hash_to_hex_loop :: "byte list \<Rightarrow> nat \<Rightarrow> nat \<Rightarrow> string" where
  "hash_to_hex_loop hash i 0 = []"
| "hash_to_hex_loop hash i (Suc n) =
     (let val = unat (hash ! i) in
      hex_digits ! drop_bit 4 val # hex_digits ! (val AND 0xf) # hash_to_hex_loop hash (Suc i) n)"

definition hash_to_hex_algop_r :: "nat \<Rightarrow> byte list \<Rightarrow> nat \<Rightarrow> string" where
  "hash_to_hex_algop_r the_hash_algo hash algop =
     (let algop = (if algop = 0 then the_hash_algo else algop) in
      hash_to_hex_loop hash 0 (rawsz (hash_algos ! algop)))"

definition oid_to_hex_r :: "nat \<Rightarrow> object_id \<Rightarrow> string" where
  "oid_to_hex_r the_hash_algo oid = hash_to_hex_algop_r the_hash_algo (oid_hash oid) (oid_algo oid)"

fun common_prefix_loop :: "object_id \<Rightarrow> object_id \<Rightarrow> nat \<Rightarrow> nat \<Rightarrow> nat" where
  "common_prefix_loop a b i 0 = i * 2"
| "common_prefix_loop a b i (Suc n) =
     (if oid_hash a ! i = oid_hash b ! i then common_prefix_loop a b (Suc i) n
      else if (oid_hash a ! i XOR oid_hash b ! i) AND 0xf0 \<noteq> 0 then i * 2
      else i * 2 + 1)"

definition oid_common_prefix_hexlen :: "object_id \<Rightarrow> object_id \<Rightarrow> nat" where
  "oid_common_prefix_hexlen a b = common_prefix_loop a b 0 (rawsz (hash_algos ! oid_algo a))"

section \<open>Digits and bytes\<close>

definition xval :: "char \<Rightarrow> nat" where
  "xval c = nat (hexval_table ! of_char c)"

lemma hexval_table_range: "list_all (\<lambda>x. x = -1 \<or> 0 \<le> x \<and> x < 16) hexval_table"
  by (simp add: hexval_table_def list_all_iff)

lemma length_hexval_table: "length hexval_table = 256"
  by (simp add: hexval_table_def)

lemma hexval_table_nth: "hexval_table ! of_char c = -1 \<or> 0 \<le> hexval_table ! of_char c \<and> hexval_table ! of_char c < 16"
  using hexval_table_range by (simp add: list_all_length length_hexval_table)

lemma xval_lt [simp]: "xval c < 16"
  using hexval_table_nth [of c] by (auto simp: xval_def)

lemma hexval_xdigit: "isxdigit c \<Longrightarrow> hexval c = word_of_nat (xval c)"
  using hexval_table_nth [of c] by (auto simp: isxdigit_def hexval_def xval_def)

lemma hexval_other: "\<not> isxdigit c \<Longrightarrow> hexval c = -1"
  by (simp add: isxdigit_def hexval_def)

lemma nibble_high: "k < 16 \<Longrightarrow> (word_of_nat k :: u32) AND - 16 = 0"
proof -
  assume "k < 16"
  then have "k = take_bit 4 k" by (simp add: take_bit_nat_eq_self)
  then have "(word_of_nat k :: u32) = take_bit 4 (word_of_nat k)"
    by (metis of_nat_take_bit)
  moreover have "take_bit 4 (word_of_nat k :: u32) AND NOT (mask 4) = 0"
    by (rule bit_eqI) (simp add: bit_simps)
  ultimately have "(word_of_nat k :: u32) AND NOT (mask 4) = 0"
    by simp
  then show ?thesis by (simp add: mask_eq_exp_minus_1)
qed

lemma nibble_pair:
  "a < 16 \<Longrightarrow> b < 16 \<Longrightarrow> push_bit 4 (word_of_nat a :: u32) OR word_of_nat b = word_of_nat (16 * a + b)"
proof -
  assume "a < 16" "b < 16"
  then have "b OR push_bit 4 a = b + push_bit 4 a" by (intro nat_or_add) simp
  then have "word_of_nat (b OR push_bit 4 a) = (word_of_nat (16 * a + b) :: u32)"
    by (simp add: push_bit_eq_mult ac_simps)
  then show ?thesis by (simp add: of_nat_or_eq push_bit_eq_mult or.commute ac_simps)
qed

lemma isxdigit_NUL [simp]: "\<not> isxdigit NUL"
  by (simp add: isxdigit_def hexval_table_def numeral_eq_Suc)

lemma sint_small: "n < 256 \<Longrightarrow> sint (word_of_nat n :: u32) = int n"
  by (simp add: signed_of_nat signed_take_bit_int_eq_self)

lemma hex2chr_ok:
  assumes "isxdigit (cur s)" "isxdigit (cur (tl s))"
  shows "hex2chr s = int (16 * xval (cur s) + xval (cur (tl s)))"
proof -
  have "hex2chr s = sint (word_of_nat (16 * xval (cur s) + xval (cur (tl s))) :: u32)"
    using assms nibble_pair [of "xval (cur s)" "xval (cur (tl s))"]
    by (simp add: hex2chr_def Let_def hexval_xdigit nibble_high)
  moreover have "16 * xval (cur s) + xval (cur (tl s)) < 256"
    using xval_lt [of "cur s"] xval_lt [of "cur (tl s)"] by linarith
  ultimately show ?thesis by (simp only: sint_small)
qed

lemma hex2chr_bad:
  "\<not> (isxdigit (cur s) \<and> isxdigit (cur (tl s))) \<Longrightarrow> hex2chr s < 0"
  by (cases "isxdigit (cur s)")
    (simp_all add: hex2chr_def Let_def hexval_xdigit hexval_other nibble_high)

lemma hex2chr_neg_iff: "hex2chr s < 0 \<longleftrightarrow> \<not> (isxdigit (cur s) \<and> isxdigit (cur (tl s)))"
  using hex2chr_ok [of s] hex2chr_bad [of s] by linarith

definition byte_hex :: "byte \<Rightarrow> string" where
  "byte_hex b = [hex_digits ! drop_bit 4 (unat b), hex_digits ! (unat b AND 0xf)]"

definition bytes_hex :: "byte list \<Rightarrow> string" where
  "bytes_hex bs = concat (map byte_hex bs)"

fun unhex :: "string \<Rightarrow> byte list" where
  "unhex (a # b # s) = word_of_nat (16 * xval a + xval b) # unhex s"
| "unhex _ = []"

lemma hex_digits_all:
  "list_all (\<lambda>k. isxdigit (hex_digits ! k) \<and> xval (hex_digits ! k) = k) [0..<16]"
  by code_simp

lemma hex_digits_nth [simp]:
  "k < 16 \<Longrightarrow> isxdigit (hex_digits ! k)" "k < 16 \<Longrightarrow> xval (hex_digits ! k) = k"
  using hex_digits_all by (simp_all add: list_all_iff)

lemma byte_hex_eq:
  "byte_hex b = [hex_digits ! (unat b div 16), hex_digits ! (unat b mod 16)]"
  using nat_and_mask [of "unat b" 4]
  by (simp add: byte_hex_def drop_bit_eq_div mask_eq_exp_minus_1)

lemma hexval_high: "\<not> replicate 153 (- 1 :: int) ! (of_char c - 103) \<noteq> - 1"
proof -
  have "of_char c - 103 < (153 :: nat)" using of_char_lt_256 [of c] by linarith
  then show ?thesis by simp
qed

lemma isxdigit_code:
  "isxdigit c \<longleftrightarrow> (of_char c :: nat) \<in> {48..<58} \<union> {65..<71} \<union> {97..<103}"
  using hexval_high [of c]
  by (auto simp: isxdigit_def hexval_table_def nth_append nth_Cons' split: if_splits)

lemma xval_code:
  "of_char c \<in> {48..<58::nat} \<Longrightarrow> xval c = of_char c - 48"
  "of_char c \<in> {65..<71::nat} \<Longrightarrow> xval c = of_char c - 55"
  "of_char c \<in> {97..<103::nat} \<Longrightarrow> xval c = of_char c - 87"
  by (auto simp: xval_def hexval_table_def nth_append nth_Cons' split: if_splits)

lemma hex_digits_code_all:
  "list_all (\<lambda>k. (of_char (hex_digits ! k) :: nat) = (if k < 10 then 48 + k else 87 + k)) [0..<16]"
  by code_simp

lemma hex_digit_lower: "isxdigit c \<Longrightarrow> hex_digits ! xval c = tolower c"
proof -
  assume "isxdigit c"
  moreover have "(of_char (hex_digits ! xval c) :: nat) = (if xval c < 10 then 48 + xval c else 87 + xval c)"
    using hex_digits_code_all xval_lt [of c] by (simp add: list_all_iff)
  ultimately have "(of_char (hex_digits ! xval c) :: nat) = of_char (tolower c)"
    by (auto simp: isxdigit_code xval_code tolower_code isupper_code)
  then show ?thesis by (rule of_char_eqI)
qed

lemma unat_nibble_pair: "unat (word_of_nat (16 * xval a + xval b) :: byte) = 16 * xval a + xval b"
proof -
  have "16 * xval a + xval b < 256" using xval_lt [of a] xval_lt [of b] by linarith
  then show ?thesis by (simp only: unat_of_nat_byte mod_less)
qed

lemma byte_hex_pair:
  "isxdigit a \<Longrightarrow> isxdigit b \<Longrightarrow> byte_hex (word_of_nat (16 * xval a + xval b)) = [tolower a, tolower b]"
  by (simp only: byte_hex_eq unat_nibble_pair) (simp add: hex_digit_lower [symmetric] div_nat_eqI)

section \<open>The loops\<close>

definition hex_prefix :: "nat \<Rightarrow> string \<Rightarrow> bool" where
  "hex_prefix n s \<longleftrightarrow> 2 * n \<le> length s \<and> list_all isxdigit (take (2 * n) s)"

lemma hex_prefix_Suc:
  "hex_prefix (Suc n) s \<longleftrightarrow> isxdigit (cur s) \<and> isxdigit (cur (tl s)) \<and> hex_prefix n (tl (tl s))"
  by (cases s; cases "tl s") (auto simp: hex_prefix_def)

lemma length_bytes_hex [simp]: "length (bytes_hex bs) = 2 * length bs"
  by (induction bs) (simp_all add: bytes_hex_def byte_hex_def)

lemma bytes_hex_Cons: "bytes_hex (b # bs) = byte_hex b @ bytes_hex bs"
  by (simp add: bytes_hex_def)

lemma unhex_bytes_hex [simp]: "unhex (bytes_hex bs @ []) = bs" "unhex (bytes_hex bs) = bs"
proof (induction bs)
  case (Cons b bs)
  have "16 * (unat b div 16) + unat b mod 16 = unat b" by simp
  moreover have "unat b div 16 < 16" using unat_byte_lt [of b] by linarith
  ultimately have "unhex (bytes_hex (b # bs)) = b # bs"
    using Cons by (simp add: bytes_hex_Cons byte_hex_eq del: of_nat_add of_nat_mult)
  then show "unhex (bytes_hex (b # bs) @ []) = b # bs" "unhex (bytes_hex (b # bs)) = b # bs"
    by simp_all
qed (simp_all add: bytes_hex_def)

lemma hex_prefix_bytes_hex [simp]: "hex_prefix (length bs) (bytes_hex bs @ rest)"
proof (induction bs)
  case (Cons b bs)
  have "unat b div 16 < 16" using unat_byte_lt [of b] by linarith
  with Cons show ?case by (simp add: hex_prefix_Suc bytes_hex_Cons byte_hex_eq)
qed (simp add: hex_prefix_def)

lemma bytes_hex_unhex: "hex_prefix n s \<Longrightarrow> bytes_hex (unhex (take (2 * n) s)) = map tolower (take (2 * n) s)"
proof (induction n arbitrary: s)
  case (Suc n)
  then obtain a b t where s: "s = a # b # t" and d: "isxdigit a" "isxdigit b" "hex_prefix n t"
    by (cases s; cases "tl s") (auto simp: hex_prefix_Suc)
  from Suc.IH [OF d(3)] d show ?case
    by (simp add: s bytes_hex_Cons byte_hex_pair del: of_nat_add of_nat_mult)
qed (simp add: bytes_hex_def)

lemma length_unhex: "length (unhex s) = length s div 2"
  by (induction s rule: unhex.induct) simp_all

lemma get_hash_hex_loop_ok:
  "hex_prefix n hex \<Longrightarrow> i + n \<le> length hash \<Longrightarrow>
   get_hash_hex_loop hex hash i n = (0, take i hash @ unhex (take (2 * n) hex) @ drop (i + n) hash)"
proof (induction n arbitrary: hex hash i)
  case (Suc n)
  then obtain a b t where s: "hex = a # b # t" and d: "isxdigit a" "isxdigit b" "hex_prefix n t"
    by (cases hex; cases "tl hex") (auto simp: hex_prefix_Suc)
  let ?v = "16 * xval a + xval b"
  have "get_hash_hex_loop hex hash i (Suc n) =
      get_hash_hex_loop t (hash[i := word_of_nat ?v]) (Suc i) n"
    using hex2chr_ok [of hex] d by (simp add: s)
  also have "\<dots> = (0, take (Suc i) (hash[i := word_of_nat ?v]) @ unhex (take (2 * n) t) @
      drop (Suc i + n) (hash[i := word_of_nat ?v]))"
    using Suc.prems by (intro Suc.IH d(3)) simp
  also have "take (Suc i) (hash[i := word_of_nat ?v]) = take i hash @ [word_of_nat ?v]"
    using Suc.prems by (simp add: take_Suc_conv_app_nth)
  finally show ?case by (simp add: s)
qed (simp add: hex_prefix_def)

lemma get_hash_hex_loop_bad:
  "\<not> hex_prefix n hex \<Longrightarrow> fst (get_hash_hex_loop hex hash i n) = -1"
  by (induction n arbitrary: hex hash i)
    (simp_all add: hex_prefix_def [of 0] hex_prefix_Suc Let_def hex2chr_neg_iff)

lemma get_hash_hex_loop_length: "length (snd (get_hash_hex_loop hex hash i n)) = length hash"
  by (induction n arbitrary: hex hash i) (simp_all add: Let_def)

lemma hash_to_hex_loop_eq:
  "i + n \<le> length hash \<Longrightarrow> hash_to_hex_loop hash i n = bytes_hex (take n (drop i hash))"
proof (induction n arbitrary: i)
  case (Suc n)
  then have "take (Suc n) (drop i hash) = hash ! i # take n (drop (Suc i) hash)"
    by (simp add: Cons_nth_drop_Suc [symmetric])
  with Suc show ?case by (simp add: bytes_hex_Cons byte_hex_def Let_def)
qed (simp add: bytes_hex_def)

section \<open>Object names\<close>

definition oid_wf :: "object_id \<Rightarrow> bool" where
  "oid_wf oid \<longleftrightarrow>
     oid_algo oid \<in> {GIT_HASH_SHA1, GIT_HASH_SHA256} \<and> length (oid_hash oid) = GIT_MAX_RAWSZ \<and>
     drop (rawsz (hash_algos ! oid_algo oid)) (oid_hash oid) =
       replicate (GIT_MAX_RAWSZ - rawsz (hash_algos ! oid_algo oid)) 0"

lemmas git_hash_defs =
  GIT_HASH_UNKNOWN_def GIT_HASH_SHA1_def GIT_HASH_SHA256_def GIT_HASH_NALGOS_def GIT_MAX_RAWSZ_def
  GIT_SHA1_RAWSZ_def GIT_SHA1_HEXSZ_def GIT_SHA256_RAWSZ_def GIT_SHA256_HEXSZ_def hash_algos_def

lemma rawsz_le: "algo \<in> {1, 2} \<Longrightarrow> rawsz (hash_algos ! algo) \<le> GIT_MAX_RAWSZ"
  by (auto simp: git_hash_defs)

lemma hexsz_rawsz: "algo \<in> {1, 2} \<Longrightarrow> hexsz (hash_algos ! algo) = 2 * rawsz (hash_algos ! algo)"
  by (auto simp: git_hash_defs)

lemma get_oid_hex_algop_ok:
  assumes "algo \<in> {1, 2}" "length (oid_hash oid) = GIT_MAX_RAWSZ"
    and "hex_prefix (rawsz (hash_algos ! algo)) hex"
  defines "n \<equiv> rawsz (hash_algos ! algo)"
  shows "get_oid_hex_algop hex oid algo =
    (0, oid\<lparr> oid_hash := unhex (take (2 * n) hex) @ replicate (GIT_MAX_RAWSZ - n) 0,
             oid_algo := algo \<rparr>)"
proof -
  have n: "n \<le> length (oid_hash oid)"
    using assms rawsz_le [of algo] by (simp add: n_def)
  have l: "length (unhex (take (2 * n) hex)) = n"
    using assms(3) by (simp add: length_unhex hex_prefix_def n_def)
  have p: "hash_algo_by_ptr algo = algo"
    using assms(1) by (auto simp: hash_algo_by_ptr_def git_hash_defs)
  have "get_hash_hex_algop hex (oid_hash oid) algo =
      (0, unhex (take (2 * n) hex) @ drop n (oid_hash oid))"
    using get_hash_hex_loop_ok [of n hex 0 "oid_hash oid"] assms(3) n
    by (simp add: get_hash_hex_algop_def n_def)
  then show ?thesis
    using n l assms(2) p
    by (simp add: get_oid_hex_algop_def oid_set_algo_def Let_def flip: n_def)
qed

lemma get_oid_hex_algop_bad:
  assumes "\<not> hex_prefix (rawsz (hash_algos ! algo)) hex"
  shows "fst (get_oid_hex_algop hex oid algo) = -1"
    and "length (oid_hash (snd (get_oid_hex_algop hex oid algo))) = length (oid_hash oid)"
proof -
  obtain r h where g: "get_hash_hex_algop hex (oid_hash oid) algo = (r, h)"
    by (cases "get_hash_hex_algop hex (oid_hash oid) algo")
  then have "r = -1" "length h = length (oid_hash oid)"
    using get_hash_hex_loop_bad [OF assms, of "oid_hash oid" 0]
      get_hash_hex_loop_length [of hex "oid_hash oid" 0 "rawsz (hash_algos ! algo)"]
    by (simp_all add: get_hash_hex_algop_def)
  with g show "fst (get_oid_hex_algop hex oid algo) = -1"
    "length (oid_hash (snd (get_oid_hex_algop hex oid algo))) = length (oid_hash oid)"
    by (simp_all add: get_oid_hex_algop_def)
qed

lemma oid_to_hex_wf:
  "oid_wf oid \<Longrightarrow>
   oid_to_hex_r the_hash_algo oid = bytes_hex (take (rawsz (hash_algos ! oid_algo oid)) (oid_hash oid))"
  using rawsz_le [of "oid_algo oid"]
  by (auto simp: oid_wf_def oid_to_hex_r_def hash_to_hex_algop_r_def Let_def hash_to_hex_loop_eq
      GIT_HASH_SHA1_def GIT_HASH_SHA256_def)

text \<open>
  C17: parsing the hexadecimal form of a valid object name, whatever follows it and whatever the
  destination held before, succeeds, stores that object name with the bytes past the hash cleared
  and leaves \<open>end\<close> just behind the digits.
\<close>

theorem parse_oid_to_hex:
  assumes "oid_wf oid" "length (oid_hash dst) = GIT_MAX_RAWSZ"
  shows "parse_oid_hex_algop_impl (oid_to_hex_r the_hash_algo oid @ rest) dst (oid_algo oid) =
    (0, dst\<lparr> oid_hash := oid_hash oid, oid_algo := oid_algo oid \<rparr>, Some rest)"
proof -
  let ?n = "rawsz (hash_algos ! oid_algo oid)" and ?bs = "take (rawsz (hash_algos ! oid_algo oid)) (oid_hash oid)"
  have algo: "oid_algo oid \<in> {1, 2}" and len: "length (oid_hash oid) = GIT_MAX_RAWSZ"
    using assms(1) by (auto simp: oid_wf_def GIT_HASH_SHA1_def GIT_HASH_SHA256_def)
  have lbs: "length ?bs = ?n"
    using rawsz_le [OF algo] len by simp
  then have "hex_prefix ?n (bytes_hex ?bs @ rest)"
    by (metis hex_prefix_bytes_hex)
  then have "get_oid_hex_algop (bytes_hex ?bs @ rest) dst (oid_algo oid) =
     (0, dst\<lparr> oid_hash := unhex (take (2 * ?n) (bytes_hex ?bs @ rest)) @ replicate (GIT_MAX_RAWSZ - ?n) 0,
              oid_algo := oid_algo oid \<rparr>)"
    by (intro get_oid_hex_algop_ok algo assms(2))
  moreover have "unhex (take (2 * ?n) (bytes_hex ?bs @ rest)) = ?bs"
    using lbs by simp
  moreover have "?bs @ replicate (GIT_MAX_RAWSZ - ?n) 0 = oid_hash oid"
    using assms(1) by (metis append_take_drop_id oid_wf_def)
  ultimately show ?thesis
    using lbs hexsz_rawsz [OF algo]
    by (simp add: oid_to_hex_wf [OF assms(1)] parse_oid_hex_algop_impl_def del: length_take)
qed

definition sample_oid :: object_id where
  "sample_oid = \<lparr> oid_hash = replicate 20 0xa5 @ replicate 12 0, oid_algo = GIT_HASH_SHA1 \<rparr>"

lemma parse_oid_to_hex_witness:
  "oid_wf sample_oid \<and>
   parse_oid_hex_algop_impl (oid_to_hex_r 2 sample_oid @ ''..'') \<lparr> oid_hash = replicate 32 1, oid_algo = 0 \<rparr>
     (oid_algo sample_oid) = (0, sample_oid, Some ''..'')"
proof -
  have "oid_wf sample_oid"
    by (simp add: oid_wf_def sample_oid_def git_hash_defs)
  with parse_oid_to_hex [of sample_oid "\<lparr> oid_hash = replicate 32 1, oid_algo = 0 \<rparr>" 2 "''..''"]
  show ?thesis by (simp add: git_hash_defs)
qed

text \<open>
  C16: \<open>get_oid_hex_any\<close> reads a SHA-256 name whenever the text begins with 64 hexadecimal digits of
  either case, otherwise a SHA-1 name when it begins with 40, otherwise it reports an unknown
  algorithm; a name it reads is valid and prints as the digits it was read from, in lower case.
\<close>

theorem get_oid_hex_any_correct:
  assumes "length (oid_hash dst) = GIT_MAX_RAWSZ" "get_oid_hex_any hex dst = (algo, oid)"
  shows "algo = (if hex_prefix GIT_SHA256_RAWSZ hex then GIT_HASH_SHA256
                 else if hex_prefix GIT_SHA1_RAWSZ hex then GIT_HASH_SHA1 else GIT_HASH_UNKNOWN) \<and>
    (algo \<noteq> GIT_HASH_UNKNOWN \<longrightarrow>
       oid_wf oid \<and> oid_to_hex_r the_hash_algo oid = map tolower (take (hexsz (hash_algos ! algo)) hex))"
proof -
  have raw: "rawsz (hash_algos ! 2) = GIT_SHA256_RAWSZ" "rawsz (hash_algos ! 1) = GIT_SHA1_RAWSZ"
    by (simp_all add: hash_algos_def)
  have printed: "oid_wf oid \<and> oid_to_hex_r the_hash_algo oid = map tolower (take (hexsz (hash_algos ! a)) hex)"
    if "get_oid_hex_algop hex d a = (0, oid)" "hex_prefix (rawsz (hash_algos ! a)) hex"
      "length (oid_hash d) = GIT_MAX_RAWSZ" "a \<in> {1, 2}" for a d
  proof -
    have n: "rawsz (hash_algos ! a) \<le> GIT_MAX_RAWSZ" and l: "length (unhex (take (2 * rawsz (hash_algos ! a)) hex)) = rawsz (hash_algos ! a)"
      using rawsz_le [OF that(4)] that(2) by (simp_all add: length_unhex hex_prefix_def)
    have oid: "oid = d\<lparr> oid_hash := unhex (take (2 * rawsz (hash_algos ! a)) hex) @
        replicate (GIT_MAX_RAWSZ - rawsz (hash_algos ! a)) 0, oid_algo := a \<rparr>"
      using get_oid_hex_algop_ok [OF that(4,3,2)] that(1) by simp
    have wf: "oid_wf oid"
      using n l that(4) by (auto simp: oid oid_wf_def GIT_HASH_SHA1_def GIT_HASH_SHA256_def)
    show ?thesis
      using wf l bytes_hex_unhex [OF that(2)] hexsz_rawsz [OF that(4)]
      by (simp add: oid_to_hex_wf) (simp add: oid)
  qed
  show ?thesis
  proof (cases "hex_prefix GIT_SHA256_RAWSZ hex")
    case True
    with get_oid_hex_algop_ok [of 2 dst hex] assms raw have
      "algo = 2" "get_oid_hex_algop hex dst 2 = (0, oid)"
      by (auto simp: get_oid_hex_any_def GIT_HASH_NALGOS_def GIT_HASH_SHA256_def numeral_2_eq_2)
    with printed [of dst 2] True raw assms(1) show ?thesis
      by (simp add: GIT_HASH_SHA256_def)
  next
    case no: False
    define d where "d = snd (get_oid_hex_algop hex dst 2)"
    have d: "get_oid_hex_algop hex dst 2 = (-1, d)" "length (oid_hash d) = GIT_MAX_RAWSZ"
      using get_oid_hex_algop_bad [of 2 hex dst] no raw assms(1) by (simp_all add: d_def prod_eq_iff)
    have any: "get_oid_hex_any hex dst = get_oid_hex_any_loop hex d 1"
      using d(1) by (simp add: get_oid_hex_any_def GIT_HASH_NALGOS_def GIT_HASH_SHA256_def numeral_2_eq_2)
    show ?thesis
    proof (cases "hex_prefix GIT_SHA1_RAWSZ hex")
      case True
      with get_oid_hex_algop_ok [of 1 d hex] assms any d(2) raw have
        "algo = 1" "get_oid_hex_algop hex d 1 = (0, oid)"
        by auto
      with printed [of d 1] True no raw d(2) show ?thesis
        by (simp add: GIT_HASH_SHA1_def)
    next
      case False
      then have "algo = GIT_HASH_UNKNOWN"
        using get_oid_hex_algop_bad(1) [of 1 hex d] assms(2) any raw
        by (simp split: prod.splits)
      with no False show ?thesis by simp
    qed
  qed
qed

lemma get_oid_hex_any_correct_witness:
  "hex_prefix GIT_SHA1_RAWSZ (replicate 41 CHR ''A'') \<and>
   (\<exists>oid. get_oid_hex_any (replicate 41 CHR ''A'') sample_oid = (GIT_HASH_SHA1, oid) \<and>
      oid_to_hex_r 1 oid = replicate 40 CHR ''a'')"
proof -
  obtain a oid where g: "get_oid_hex_any (replicate 41 CHR ''A'') sample_oid = (a, oid)"
    by (cases "get_oid_hex_any (replicate 41 CHR ''A'') sample_oid")
  have x: "isxdigit CHR ''A''" "tolower CHR ''A'' = CHR ''a''"
    by code_simp+
  have p: "hex_prefix GIT_SHA1_RAWSZ (replicate 41 CHR ''A'')" "\<not> hex_prefix GIT_SHA256_RAWSZ (replicate 41 CHR ''A'')"
    using x by (simp_all add: hex_prefix_def GIT_SHA1_RAWSZ_def GIT_SHA256_RAWSZ_def list_all_iff)
  have "length (oid_hash sample_oid) = GIT_MAX_RAWSZ"
    by (simp add: sample_oid_def git_hash_defs)
  from get_oid_hex_any_correct [OF this g, of 1] p x g show ?thesis
    by (auto simp: git_hash_defs)
qed

section \<open>Common prefixes\<close>

lemma and_not_mask_0: "v AND NOT (mask n) = 0 \<longleftrightarrow> drop_bit n (v::byte) = 0"
proof
  assume z: "v AND NOT (mask n) = 0"
  have "v = (v AND mask n) OR (v AND NOT (mask n))"
    by (rule bit_eqI) (auto simp: bit_simps)
  then have "v = take_bit n v"
    by (simp add: z take_bit_eq_mask)
  then have "drop_bit n v = drop_bit n (take_bit n v)"
    by simp
  then show "drop_bit n v = 0"
    by (simp add: drop_bit_take_bit)
next
  assume "drop_bit n v = 0"
  then have "v = take_bit n v"
    using bits_ident [of n v] by simp
  moreover have "take_bit n v AND NOT (mask n) = 0"
    by (rule bit_eqI) (auto simp: bit_simps)
  ultimately show "v AND NOT (mask n) = 0"
    by simp
qed

lemma xor_eq_0: "a XOR b = 0 \<longleftrightarrow> a = (b::byte)"
proof
  assume "a XOR b = 0"
  then have "(a XOR b) XOR b = b" by (simp only: xor.left_neutral)
  then show "a = b" by (simp only: xor.assoc xor_self_eq xor.right_neutral)
qed simp

lemma xor_high_nibble: "(x XOR y) AND 0xf0 = 0 \<longleftrightarrow> unat x div 16 = unat (y::byte) div 16"
proof -
  have m: "NOT (mask 4) = (0xf0 :: byte)"
    by (simp add: mask_eq_exp_minus_1)
  have "(x XOR y) AND 0xf0 = 0 \<longleftrightarrow> drop_bit 4 (x XOR y) = 0"
    using and_not_mask_0 [of "x XOR y" 4] m by simp
  also have "\<dots> \<longleftrightarrow> drop_bit 4 x = drop_bit 4 y"
    by (simp only: drop_bit_xor xor_eq_0)
  also have "\<dots> \<longleftrightarrow> unat x div 16 = unat y div 16"
    using unat_drop_bit [of 4 x] unat_drop_bit [of 4 y] by (auto intro: word_unat_eqI)
  finally show ?thesis .
qed

lemma hex_digits_inj: "i < 16 \<Longrightarrow> j < 16 \<Longrightarrow> hex_digits ! i = hex_digits ! j \<longleftrightarrow> i = j"
  by (metis hex_digits_nth(2))

lemma unat_byte_div_16 [simp]: "unat (x::byte) div 16 < 16"
  using unat_byte_lt [of x] by linarith

lemma lcp_byte_hex:
  "length (longest_common_prefix (byte_hex x @ s) (byte_hex y @ t)) =
    (if x = y then 2 + length (longest_common_prefix s t)
     else if (x XOR y) AND 0xf0 \<noteq> 0 then 0 else 1)"
proof (cases "x = y")
  case False
  then have "\<not> (unat x div 16 = unat y div 16 \<and> unat x mod 16 = unat y mod 16)"
    by (metis div_mult_mod_eq word_unat_eqI)
  with False show ?thesis
    by (auto simp: byte_hex_eq xor_high_nibble hex_digits_inj)
qed (simp add: byte_hex_eq)

lemma common_prefix_loop_eq:
  "i + n \<le> length (oid_hash a) \<Longrightarrow> i + n \<le> length (oid_hash b) \<Longrightarrow>
   common_prefix_loop a b i n = i * 2 +
     length (longest_common_prefix (bytes_hex (take n (drop i (oid_hash a))))
       (bytes_hex (take n (drop i (oid_hash b)))))"
proof (induction n arbitrary: i)
  case (Suc n)
  then have "take (Suc n) (drop i (oid_hash x)) = oid_hash x ! i # take n (drop (Suc i) (oid_hash x))"
    if "x \<in> {a, b}" for x
    using that by (auto simp: Cons_nth_drop_Suc [symmetric])
  with Suc show ?case by (simp add: bytes_hex_Cons lcp_byte_hex)
qed (simp add: bytes_hex_def)

text \<open>
  C18: \<open>oid_common_prefix_hexlen\<close> is the length of the longest common prefix of the two names as
  they are printed.
\<close>

theorem oid_common_prefix_hexlen_correct:
  assumes "oid_wf a" "oid_wf b" "oid_algo a = oid_algo b"
  shows "oid_common_prefix_hexlen a b =
    length (longest_common_prefix (oid_to_hex_r the_hash_algo a) (oid_to_hex_r the_hash_algo b))"
proof -
  have "rawsz (hash_algos ! oid_algo a) \<le> GIT_MAX_RAWSZ"
    using assms(1) by (intro rawsz_le) (auto simp: oid_wf_def GIT_HASH_SHA1_def GIT_HASH_SHA256_def)
  with common_prefix_loop_eq [of 0 "rawsz (hash_algos ! oid_algo a)" a b] assms show ?thesis
    by (simp add: oid_common_prefix_hexlen_def oid_to_hex_wf) (simp add: oid_wf_def)
qed

lemma oid_common_prefix_hexlen_correct_witness:
  "oid_common_prefix_hexlen sample_oid (sample_oid\<lparr> oid_hash := (replicate 20 0xa5 @ replicate 12 0)[3 := 0xa4] \<rparr>) = 7 \<and>
   length (longest_common_prefix (oid_to_hex_r 1 sample_oid)
     (oid_to_hex_r 1 (sample_oid\<lparr> oid_hash := (replicate 20 0xa5 @ replicate 12 0)[3 := 0xa4] \<rparr>))) = 7"
proof -
  let ?b = "sample_oid\<lparr> oid_hash := (replicate 20 0xa5 @ replicate 12 0)[3 := 0xa4] \<rparr>"
  have "oid_wf sample_oid" "oid_wf ?b"
    by (simp_all add: oid_wf_def sample_oid_def git_hash_defs)
  moreover have "oid_common_prefix_hexlen sample_oid ?b = 7"
    by code_simp
  ultimately show ?thesis
    using oid_common_prefix_hexlen_correct [of sample_oid ?b 1] by simp
qed

end
