(* ===== verification/Quote.thy ===== *)
theory Quote
  imports Prelude Ctype
begin

text \<open>
  \<^verbatim>\<open>quote.c\<close>: quoting for the shell and its inverse, C-style quoting of path names and its inverse,
  and string literals for Perl, Python, Tcl and basic regular expressions.

  A \<open>struct strbuf *\<close> argument is the string it holds, returned extended; an argument that may be
  NULL is an option.  A \<open>char *\<close> into a NUL-terminated string is the list of the characters from
  there on.  \<open>sq_dequote_step\<close> writes its result over its argument; the write position never
  passes the read position, so the result is modelled as a string of its own.
\<close>

abbreviation SQ :: char where "SQ \<equiv> CHR 0x27"
abbreviation DQ :: char where "DQ \<equiv> CHR 0x22"
abbreviation BS :: char where "BS \<equiv> CHR 0x5C"
abbreviation SP :: char where "SP \<equiv> CHR 0x20"

section \<open>Shell quoting\<close>

definition need_bs_quote :: "char \<Rightarrow> bool" where
  "need_bs_quote c \<longleftrightarrow> c = SQ \<or> c = CHR ''!''"

text \<open>The loop of \<open>sq_quote_buf\<close>: \<open>strcspn\<close> to the next special character, then the run of special
  characters.\<close>

fun quote_specials :: "string \<Rightarrow> string \<Rightarrow> string \<times> string" where
  "quote_specials dst (c # src) =
     (if need_bs_quote c then quote_specials (dst @ [SQ, BS] @ [c] @ [SQ]) src else (dst, c # src))"
| "quote_specials dst [] = (dst, [])"

lemma quote_specials_shorter: "length (snd (quote_specials dst src)) \<le> length src"
  by (induction dst src rule: quote_specials.induct) auto

lemma quote_specials_less:
  "need_bs_quote (cur src) \<Longrightarrow> length (snd (quote_specials dst src)) < length src"
  using quote_specials_shorter by (cases src) (auto simp: need_bs_quote_def less_Suc_eq_le)

function (sequential) sq_quote_loop :: "string \<Rightarrow> string \<Rightarrow> string" where
  "sq_quote_loop dst [] = dst"
| "sq_quote_loop dst src =
     (let len = length (takeWhile (\<lambda>c. c \<notin> {SQ, CHR ''!''}) src);
          dst = dst @ take len src;
          (dst, src) = quote_specials dst (drop len src) in
      sq_quote_loop dst src)"
  by pat_completeness auto
termination
proof (relation "measure (\<lambda>(dst, src). length src)")
  fix dst dst2 dst3 len src2 and v :: char and va
  fix p q
  assume len: "len = length (takeWhile (\<lambda>c. c \<notin> {SQ, CHR ''!''}) (v # va))"
    and "dst2 = dst @ take len (v # va)" and p: "p = quote_specials dst2 (drop len (v # va))"
    and "(dst3, src2) = p"
  then have src2: "src2 = snd (quote_specials dst2 (drop len (v # va)))"
    by (metis snd_conv)
  have "length src2 < length (v # va)"
  proof (cases len)
    case 0
    then have "need_bs_quote v"
      by (simp add: len need_bs_quote_def split: if_splits)
    with 0 quote_specials_less [of "v # va" dst2] show ?thesis
      by (simp add: src2)
  next
    case (Suc m)
    with quote_specials_shorter [of dst2 "drop len (v # va)"] show ?thesis
      by (simp add: src2)
  qed
  then show "((dst3, src2), (dst, v # va)) \<in> measure (\<lambda>(dst, src). length src)"
    by simp
qed simp

text \<open>\<open>same\<close> says that \<open>src\<close> is \<open>dst->buf\<close>, in which case the buffer is detached first.\<close>

definition sq_quote_buf :: "bool \<Rightarrow> string \<Rightarrow> string \<Rightarrow> string" where
  "sq_quote_buf same dst src =
     (let dst = (if same then [] else dst);
          dst = dst @ [SQ];
          dst = sq_quote_loop dst src in
      dst @ [SQ])"

definition ok_punct :: string where "ok_punct = ''+,-./:=@_^''"

definition sq_quote_buf_pretty :: "string \<Rightarrow> string \<Rightarrow> string" where
  "sq_quote_buf_pretty dst src =
     (if src = [] then dst @ [SQ, SQ]
      else if list_ex (\<lambda>p. \<not> isalnum p \<and> \<not> List.member ok_punct p) src then sq_quote_buf False dst src
      else dst @ src)"

fun sq_quote_argv :: "string \<Rightarrow> string list \<Rightarrow> string" where
  "sq_quote_argv dst [] = dst"
| "sq_quote_argv dst (a # argv) = sq_quote_argv (sq_quote_buf False (dst @ [SP]) a) argv"

fun append_argv_pretty :: "nat \<Rightarrow> string \<Rightarrow> string list \<Rightarrow> string" where
  "append_argv_pretty i dst [] = dst"
| "append_argv_pretty i dst (a # argv) =
     append_argv_pretty (Suc i) (sq_quote_buf_pretty (if i > 0 then dst @ [SP] else dst) a) argv"

definition sq_append_quote_argv_pretty :: "string \<Rightarrow> string list \<Rightarrow> string" where
  "sq_append_quote_argv_pretty dst argv = append_argv_pretty 0 dst argv"

definition sq_quote_argv_pretty :: "string \<Rightarrow> string list \<Rightarrow> string" where
  "sq_quote_argv_pretty dst argv =
     sq_append_quote_argv_pretty (if argv \<noteq> [] then dst @ [SP] else dst) argv"

text \<open>
  \<open>sq_dequote_step\<close>: \<open>nx\<close> says whether \<open>next\<close> is non-NULL.  The result is the dequoted string and
  the value stored at \<open>next\<close>, where \<open>None\<close> is NULL; failure is \<open>None\<close>.  In the loop \<open>src\<close> is the
  text behind the character the pointer is at.
\<close>

function (sequential) sq_dequote_loop :: "bool \<Rightarrow> string \<Rightarrow> string \<Rightarrow> (string \<times> string option) option" where
  "sq_dequote_loop nx dst [] = None"
| "sq_dequote_loop nx dst (c # src) =
     (if c \<noteq> SQ then sq_dequote_loop nx (dst @ [c]) src
      else case src of
        [] \<Rightarrow> Some (dst, None)
      | d # rest \<Rightarrow>
          if d = BS \<and> need_bs_quote (cur rest) \<and> cur (tl rest) = SQ
          then sq_dequote_loop nx (dst @ [cur rest]) (tl (tl rest))
          else if \<not> nx then None
          else Some (dst, Some src))"
  by pat_completeness auto
termination by (relation "measure (\<lambda>(nx, dst, src). length src)") auto

definition sq_dequote_step :: "bool \<Rightarrow> string \<Rightarrow> (string \<times> string option) option" where
  "sq_dequote_step nx arg = (if cur arg \<noteq> SQ then None else sq_dequote_loop nx [] (tl arg))"

definition sq_dequote :: "string \<Rightarrow> string option" where
  "sq_dequote arg = map_option fst (sq_dequote_step False arg)"

lemma sq_dequote_loop_shorter:
  "sq_dequote_loop nx dst src = Some (w, Some rest) \<Longrightarrow> length rest < length src"
  by (induction nx dst src rule: sq_dequote_loop.induct)
    (fastforce split: if_splits list.splits)+

text \<open>\<open>sq_dequote_to_strvec\<close> returns its status and the vector, which keeps what was pushed before
  an error.\<close>

function (sequential) dequote_to_strvec_loop :: "string \<Rightarrow> string list \<Rightarrow> int \<times> string list" where
  "dequote_to_strvec_loop next array =
     (case sq_dequote_step True next of
        None \<Rightarrow> (-1, array)
      | Some (dequoted, None) \<Rightarrow> (0, array @ [dequoted])
      | Some (dequoted, Some next) \<Rightarrow>
          if \<not> isspace (cur next) then (-1, array)
          else dequote_to_strvec_loop (dropWhile isspace (tl next)) (array @ [dequoted]))"
  by pat_completeness auto
termination
proof (relation "measure (\<lambda>(next, array). length next)")
  fix nx array x d rest nx2
  assume "sq_dequote_step True nx = Some x" "(d, rest) = x" "rest = Some nx2"
  then have "length nx2 < length (tl nx)"
    using sq_dequote_loop_shorter [of True "[]" "tl nx" d nx2]
    by (auto simp: sq_dequote_step_def split: if_splits)
  moreover have "length (dropWhile isspace (tl nx2)) \<le> length nx2"
    using length_dropWhile_le [of isspace "tl nx2"] by simp
  ultimately show "((dropWhile isspace (tl nx2), array @ [d]), (nx, array)) \<in> measure (\<lambda>(next, array). length next)"
    by simp
qed simp

definition sq_dequote_to_strvec :: "string \<Rightarrow> string list \<Rightarrow> int \<times> string list" where
  "sq_dequote_to_strvec arg array = (if arg = [] then (0, array) else dequote_to_strvec_loop arg array)"

section \<open>How a shell reads it\<close>

text \<open>
  The specification: a POSIX shell splitting a line into words, restricted to what quoting needs.
  Blanks separate words, single quotes take everything up to the next single quote literally, a
  backslash takes the next character literally, and every character with a meaning of its own to
  some shell is refused.
\<close>

datatype shell_mode = Between | InWord string | InQuotes string

definition shell_special :: string where
  "shell_special = DQ # CHR 0x0A # ''|&;<>()$`*?[#~%!{}''"

definition word_so_far :: "shell_mode \<Rightarrow> string" where
  "word_so_far m = (case m of Between \<Rightarrow> [] | InWord w \<Rightarrow> w | InQuotes w \<Rightarrow> w)"

fun shell_lex :: "shell_mode \<Rightarrow> string \<Rightarrow> string list option" where
  "shell_lex (InQuotes w) (c # s) =
     (if c = SQ then shell_lex (InWord w) s else shell_lex (InQuotes (w @ [c])) s)"
| "shell_lex (InQuotes w) [] = None"
| "shell_lex Between [] = Some []"
| "shell_lex (InWord w) [] = Some [w]"
| "shell_lex m (c # s) =
     (if c = SP \<or> c = CHR 0x09 then
        (case m of InWord w \<Rightarrow> map_option (Cons w) (shell_lex Between s) | _ \<Rightarrow> shell_lex Between s)
      else if c = SQ then shell_lex (InQuotes (word_so_far m)) s
      else if c = BS then
        (case s of [] \<Rightarrow> None
         | d # t \<Rightarrow> if d = CHR 0x0A then None else shell_lex (InWord (word_so_far m @ [d])) t)
      else if List.member shell_special c then None
      else shell_lex (InWord (word_so_far m @ [c])) s)"

definition shell_words :: "string \<Rightarrow> string list option" where
  "shell_words s = shell_lex Between s"

definition sq_escape :: "string \<Rightarrow> string" where
  "sq_escape s = concat (map (\<lambda>c. if need_bs_quote c then [SQ, BS, c, SQ] else [c]) s)"

lemma sq_escape_simps [simp]:
  "sq_escape [] = []"
  "sq_escape (c # s) = (if need_bs_quote c then SQ # BS # c # SQ # sq_escape s else c # sq_escape s)"
  "sq_escape (s @ t) = sq_escape s @ sq_escape t"
  by (simp_all add: sq_escape_def)

lemma sq_escape_plain: "list_all (\<lambda>c. \<not> need_bs_quote c) s \<Longrightarrow> sq_escape s = s"
  by (induction s) auto

lemma quote_specials_eq:
  "quote_specials dst src =
    (dst @ sq_escape (takeWhile need_bs_quote src), dropWhile need_bs_quote src)"
  by (induction dst src rule: quote_specials.induct) auto

lemma sq_quote_loop_eq: "sq_quote_loop dst src = dst @ sq_escape src"
proof (induction dst src rule: sq_quote_loop.induct)
  case (2 dst v va)
  let ?src = "v # va" and ?P = "\<lambda>c. c \<notin> {SQ, CHR ''!''}"
  let ?len = "length (takeWhile ?P ?src)"
  have split: "take ?len ?src = takeWhile ?P ?src" "drop ?len ?src = dropWhile ?P ?src"
    by (simp_all only: takeWhile_eq_take [symmetric] dropWhile_eq_drop [symmetric])
  have plain: "sq_escape (takeWhile ?P ?src) = takeWhile ?P ?src"
    by (rule sq_escape_plain) (auto simp: list_all_iff need_bs_quote_def dest!: set_takeWhileD)
  have "sq_quote_loop dst ?src =
      sq_quote_loop (dst @ takeWhile ?P ?src @ sq_escape (takeWhile need_bs_quote (dropWhile ?P ?src)))
        (dropWhile need_bs_quote (dropWhile ?P ?src))"
    by (subst sq_quote_loop.simps) (simp only: Let_def split quote_specials_eq prod.case append_assoc)
  also have "\<dots> = dst @ takeWhile ?P ?src @ sq_escape (takeWhile need_bs_quote (dropWhile ?P ?src)) @
      sq_escape (dropWhile need_bs_quote (dropWhile ?P ?src))"
    using 2 [OF refl refl refl, unfolded quote_specials_eq split] by (simp only: append_assoc)
  also have "\<dots> = dst @ sq_escape (takeWhile ?P ?src @
      (takeWhile need_bs_quote (dropWhile ?P ?src) @ dropWhile need_bs_quote (dropWhile ?P ?src)))"
    by (simp only: sq_escape_simps(3) plain)
  also have "\<dots> = dst @ sq_escape ?src"
    by (simp only: takeWhile_dropWhile_id)
  finally show ?case .
qed simp

lemma sq_quote_buf_eq: "sq_quote_buf False dst src = dst @ SQ # sq_escape src @ [SQ]"
  by (simp add: sq_quote_buf_def sq_quote_loop_eq)

lemma shell_lex_escape:
  "shell_lex (InQuotes w) (sq_escape src @ SQ # rest) = shell_lex (InWord (w @ src)) rest"
  by (induction src arbitrary: w) (auto simp: need_bs_quote_def word_so_far_def)

lemma shell_lex_quoted:
  "m = Between \<or> m = InWord w \<Longrightarrow>
   shell_lex m (SQ # sq_escape src @ SQ # rest) = shell_lex (InWord (word_so_far m @ src)) rest"
  by (auto simp: shell_lex_escape word_so_far_def)

lemma shell_lex_plain:
  "list_all (\<lambda>p. isalnum p \<or> List.member ok_punct p) src \<Longrightarrow>
   shell_lex (InWord w) (src @ rest) = shell_lex (InWord (w @ src)) rest"
proof (induction src arbitrary: w)
  case (Cons c src)
  have "\<not> isalnum d \<and> \<not> List.member ok_punct d"
    if "d \<in> {SP, CHR 0x09, SQ, BS} \<union> set shell_special" for d
    using that
    by (auto simp: shell_special_def ok_punct_def isalnum_iff isalpha_def sane_istest_alpha isdigit_code)
  with Cons show ?case
    by (auto simp: word_so_far_def)
qed simp

lemma shell_lex_plain_start:
  "list_all (\<lambda>p. isalnum p \<or> List.member ok_punct p) src \<Longrightarrow> src \<noteq> [] \<Longrightarrow>
   shell_lex Between (src @ rest) = shell_lex (InWord src) rest"
proof (cases src)
  case (Cons c s)
  assume a: "list_all (\<lambda>p. isalnum p \<or> List.member ok_punct p) src"
  have "shell_lex Between (c # s @ rest) = shell_lex (InWord []) (c # s @ rest)"
    using a by (auto simp: Cons word_so_far_def ok_punct_def isalnum_iff isalpha_def sane_istest_alpha isdigit_code)
  then show ?thesis
    using shell_lex_plain [OF a, of "[]" rest] by (simp only: Cons append_Cons append_Nil)
qed simp

lemma shell_lex_pretty:
  "\<exists>q. sq_quote_buf_pretty dst src = dst @ q \<and>
     (\<forall>rest. shell_lex Between (q @ rest) = shell_lex (InWord src) rest)"
proof -
  consider (empty) "src = []" | (quoted) "src \<noteq> []" "list_ex (\<lambda>p. \<not> isalnum p \<and> \<not> List.member ok_punct p) src"
    | (plain) "src \<noteq> []" "list_all (\<lambda>p. isalnum p \<or> List.member ok_punct p) src"
    by (fastforce simp: list_ex_iff list_all_iff)
  then show ?thesis
  proof cases
    case empty
    then show ?thesis
      by (simp add: sq_quote_buf_pretty_def word_so_far_def)
  next
    case quoted
    then show ?thesis
      using shell_lex_quoted [of Between _ src] by (simp add: sq_quote_buf_pretty_def sq_quote_buf_eq word_so_far_def)
  next
    case plain
    then have "\<not> list_ex (\<lambda>p. \<not> isalnum p \<and> \<not> List.member ok_punct p) src"
      by (auto simp: list_ex_iff list_all_iff)
    with plain show ?thesis
      using shell_lex_plain_start by (simp add: sq_quote_buf_pretty_def)
  qed
qed

definition lexes_to :: "string \<Rightarrow> string list \<Rightarrow> bool" where
  "lexes_to q ws \<longleftrightarrow> (\<forall>rest. shell_lex Between (q @ rest) = (case ws of [] \<Rightarrow> shell_lex Between rest
     | _ \<Rightarrow> map_option (append (butlast ws)) (shell_lex (InWord (last ws)) rest)))"

lemma map_append_Nil [simp]: "map_option ((@) []) x = x"
  by (cases x) auto

lemma lexes_to_Nil: "lexes_to [] []"
  by (simp add: lexes_to_def)

lemma shell_lex_blank: "shell_lex (InWord w) (SP # s) = map_option (Cons w) (shell_lex Between s)"
  by simp

lemma lexes_to_snoc:
  assumes "lexes_to q ws" "\<And>rest. shell_lex Between (p @ rest) = shell_lex (InWord w) rest"
  shows "lexes_to (q @ SP # p) (ws @ [w])"
proof -
  have "shell_lex Between (q @ SP # p @ rest) = map_option (append ws) (shell_lex (InWord w) rest)" for rest
  proof (cases ws)
    case Nil
    with assms(1) have "shell_lex Between (q @ SP # p @ rest) = shell_lex Between (SP # p @ rest)"
      by (simp only: lexes_to_def list.case)
    with Nil assms(2) show ?thesis by simp
  next
    case (Cons v vs)
    with assms(1) have "shell_lex Between (q @ SP # p @ rest) =
        map_option (append (butlast ws)) (shell_lex (InWord (last ws)) (SP # p @ rest))"
      by (simp add: lexes_to_def del: shell_lex.simps)
    moreover have "butlast ws @ last ws # x = ws @ x" for x
      using Cons by (metis append.assoc append_Cons append_Nil append_butlast_last_id list.distinct(1))
    ultimately show ?thesis
      by (simp only: shell_lex_blank assms(2) option.map_comp comp_def)
  qed
  then show ?thesis
    by (simp add: lexes_to_def list.case_eq_if del: shell_lex.simps)
qed

lemma lexes_to_single:
  "(\<And>rest. shell_lex Between (p @ rest) = shell_lex (InWord w) rest) \<Longrightarrow> lexes_to p [w]"
  by (simp add: lexes_to_def del: shell_lex.simps)

lemma lexes_to_words: "lexes_to q ws \<Longrightarrow> shell_words q = Some ws"
proof (cases ws)
  case Nil
  assume "lexes_to q ws"
  then have "shell_lex Between (q @ []) = shell_lex Between []"
    using Nil by (simp only: lexes_to_def list.case)
  with Nil show ?thesis by (simp add: shell_words_def)
next
  case (Cons v vs)
  assume "lexes_to q ws"
  then have "shell_lex Between (q @ []) = map_option (append (butlast ws)) (shell_lex (InWord (last ws)) [])"
    using Cons by (simp only: lexes_to_def list.case)
  with Cons show ?thesis by (simp add: shell_words_def)
qed

lemma lexes_to_argv: "lexes_to dst ws \<Longrightarrow> lexes_to (sq_quote_argv dst argv) (ws @ argv)"
proof (induction dst argv arbitrary: ws rule: sq_quote_argv.induct)
  case (2 dst a argv)
  have "lexes_to (dst @ SP # SQ # sq_escape a @ [SQ]) (ws @ [a])"
    using 2(2) by (rule lexes_to_snoc) (simp add: shell_lex_escape word_so_far_def)
  with 2(1) [of "ws @ [a]"] show ?case
    by (simp add: sq_quote_buf_eq)
qed simp

lemma lexes_to_argv_pretty:
  "lexes_to dst ws \<Longrightarrow> i > 0 \<Longrightarrow> lexes_to (append_argv_pretty i dst argv) (ws @ argv)"
proof (induction i dst argv arbitrary: ws rule: append_argv_pretty.induct)
  case (2 i dst a argv)
  obtain q where q: "sq_quote_buf_pretty (dst @ [SP]) a = (dst @ [SP]) @ q"
    "\<And>rest. shell_lex Between (q @ rest) = shell_lex (InWord a) rest"
    using shell_lex_pretty by blast
  have "lexes_to (dst @ SP # q) (ws @ [a])"
    using 2(2) q(2) by (rule lexes_to_snoc)
  with 2(1) [of "ws @ [a]"] 2(3) q(1) show ?case
    by simp
qed simp

lemma lexes_to_argv_pretty_0:
  assumes "dst = [] \<or> dst = [SP]"
  shows "lexes_to (append_argv_pretty 0 dst argv) argv"
proof (cases argv)
  case Nil
  with assms show ?thesis by (auto simp: lexes_to_def)
next
  case (Cons a as)
  obtain q where q: "sq_quote_buf_pretty dst a = dst @ q"
    "\<And>rest. shell_lex Between (q @ rest) = shell_lex (InWord a) rest"
    using shell_lex_pretty by blast
  have "lexes_to (dst @ q) [a]"
    using assms q(2) by (intro lexes_to_single) auto
  from lexes_to_argv_pretty [OF this, of 1 as] Cons q(1) show ?thesis by simp
qed

text \<open>
  C19: a shell that reads what any of the argument quoters writes splits it into exactly the
  arguments given, whatever characters they contain: \<open>sq_quote_argv\<close>,
  \<open>sq_quote_argv_pretty\<close> (which leaves harmless words bare) and
  \<open>sq_append_quote_argv_pretty\<close>.
\<close>

theorem shell_reads_quoted_argv:
  "shell_words (sq_quote_argv [] argv) = Some argv \<and>
   shell_words (sq_quote_argv_pretty [] argv) = Some argv \<and>
   shell_words (sq_append_quote_argv_pretty [] argv) = Some argv"
  using lexes_to_words [OF lexes_to_argv [OF lexes_to_Nil, of argv]]
    lexes_to_words [OF lexes_to_argv_pretty_0, of _ argv]
  by (simp add: sq_quote_argv_pretty_def sq_append_quote_argv_pretty_def)

section \<open>Dequoting\<close>

lemma sq_dequote_loop_escape:
  "sq_dequote_loop nx dst (sq_escape src @ SQ # rest) = sq_dequote_loop nx (dst @ src) (SQ # rest)"
proof (induction src arbitrary: dst)
  case (Cons c src)
  show ?case
  proof (cases "need_bs_quote c")
    case True
    have "sq_dequote_loop nx dst (SQ # BS # c # SQ # x) = sq_dequote_loop nx (dst @ [c]) x" for x
      using True by (subst sq_dequote_loop.simps) simp
    with True Cons show ?thesis by (simp del: sq_dequote_loop.simps)
  next
    case False
    then have "sq_dequote_loop nx dst (c # x) = sq_dequote_loop nx (dst @ [c]) x" for x
      by (subst sq_dequote_loop.simps) (simp add: need_bs_quote_def)
    with False Cons show ?thesis by (simp del: sq_dequote_loop.simps)
  qed
qed simp

lemma sq_dequote_step_quoted:
  "sq_dequote_step nx (SQ # sq_escape src @ SQ # rest) =
     sq_dequote_loop nx src (SQ # rest)"
  by (simp add: sq_dequote_step_def sq_dequote_loop_escape del: sq_dequote_loop.simps)

lemma sq_quote_argv_eq: "sq_quote_argv dst argv = dst @ concat (map (\<lambda>a. SP # SQ # sq_escape a @ [SQ]) argv)"
  by (induction dst argv rule: sq_quote_argv.induct) (simp_all add: sq_quote_buf_eq)

lemma dequote_argv:
  "dequote_to_strvec_loop (tl (sq_quote_argv [] (a # argv))) array = (0, array @ a # argv)"
proof (induction argv arbitrary: a array)
  case Nil
  have "sq_dequote_step True (SQ # sq_escape a @ [SQ]) = Some (a, None)"
    using sq_dequote_step_quoted [of True a "[]"] by simp
  then show ?case
    by (subst dequote_to_strvec_loop.simps) (simp add: sq_quote_argv_eq)
next
  case (Cons b argv)
  let ?rest = "sq_quote_argv [] (b # argv)"
  have rest: "?rest = SP # tl ?rest" "tl ?rest = SQ # tl (tl ?rest)"
    by (simp_all add: sq_quote_argv_eq)
  have "sq_dequote_step True (SQ # sq_escape a @ SQ # SP # t) = Some (a, Some (SP # t))" for t
    by (simp add: sq_dequote_step_quoted)
  then have "sq_dequote_step True (SQ # sq_escape a @ SQ # ?rest) = Some (a, Some ?rest)"
    by (metis rest(1))
  moreover have "isspace SP" "\<not> isspace SQ"
    by (simp_all add: isspace_code)
  then have "isspace (cur ?rest)" "dropWhile isspace (tl ?rest) = tl ?rest"
    by (metis cur.simps(2) rest(1), metis dropWhile.simps(2) rest(2))
  ultimately have "dequote_to_strvec_loop (SQ # sq_escape a @ SQ # ?rest) array =
      dequote_to_strvec_loop (tl ?rest) (array @ [a])"
    by (subst dequote_to_strvec_loop.simps) simp
  moreover have "tl (sq_quote_argv [] (a # b # argv)) = SQ # sq_escape a @ SQ # ?rest"
    by (simp add: sq_quote_argv_eq)
  ultimately show ?case
    using Cons [of b "array @ [a]"] by simp
qed

text \<open>
  C21: \<open>sq_dequote_to_strvec\<close> recovers every argument vector from its shell-quoted form (without the
  leading blank), and \<open>sq_dequote\<close> inverts \<open>sq_quote_buf\<close>.
\<close>

theorem sq_dequote_quoted:
  "sq_dequote_to_strvec (tl (sq_quote_argv [] argv)) array = (0, array @ argv) \<and>
   sq_dequote (sq_quote_buf False [] s) = Some s"
proof -
  have "sq_dequote (sq_quote_buf False [] s) = Some s"
    using sq_dequote_step_quoted [of False s "[]"] by (simp add: sq_quote_buf_eq sq_dequote_def)
  moreover have "sq_dequote_to_strvec (tl (sq_quote_argv [] argv)) array = (0, array @ argv)"
  proof (cases argv)
    case (Cons a as)
    have "tl (sq_quote_argv [] argv) \<noteq> []"
      by (simp add: Cons sq_quote_argv_eq)
    with dequote_argv [of a as array] Cons show ?thesis
      by (simp add: sq_dequote_to_strvec_def)
  qed (simp add: sq_dequote_to_strvec_def)
  ultimately show ?thesis by blast
qed

lemma sq_dequote_loop_shell:
  "sq_dequote_loop False dst src = Some (w, r) \<Longrightarrow> shell_lex (InQuotes dst) src = Some [w]"
proof (induction False dst src rule: sq_dequote_loop.induct)
  case (2 dst c src)
  show ?case
  proof (cases "c = SQ")
    case False
    with 2 show ?thesis by simp
  next
    case True
    then show ?thesis
      using 2(2-)
      by (cases src; cases "tl src"; cases "tl (tl src)")
        (auto simp: word_so_far_def need_bs_quote_def split: if_splits)
  qed
qed simp

text \<open>
  C22: whatever \<open>sq_dequote\<close> accepts, a shell reads as one word, and as the word \<open>sq_dequote\<close>
  returns.
\<close>

theorem sq_dequote_agrees_with_shell:
  assumes "sq_dequote arg = Some w"
  shows "shell_words arg = Some [w]"
  using assms sq_dequote_loop_shell [of "[]" "tl arg"]
  by (cases arg) (auto simp: sq_dequote_def sq_dequote_step_def shell_words_def word_so_far_def split: if_splits)

lemma sq_dequote_agrees_with_shell_witness:
  "shell_words (SQ # ''hi'' @ [SQ, BS, CHR ''!'', SQ, SP, SQ]) = Some [''hi! '']"
  by (rule sq_dequote_agrees_with_shell) code_simp

end
