(* ===== verification/Quote_C.thy ===== *)
theory Quote_C
  imports Quote "HOL-Library.Sublist"
begin

text \<open>
  \<^verbatim>\<open>quote.c\<close>, second part: C-style quoting of path names and its inverse, and string literals for
  Perl, Python, Tcl and basic regular expressions.  The variable \<open>quote_path_fully\<close> (0 or 1, from
  the configuration) is the argument \<open>fully\<close>.
\<close>

section \<open>C-style quoting\<close>

definition CQUOTE_NODQ :: nat where "CQUOTE_NODQ = 1"

definition cq_lookup :: "int list" where
  "cq_lookup =
     replicate 7 1 @ map of_char ''a'' @
     map of_char ''btnvfr'' @ [1, 1] @
     replicate 16 1 @
     [-1, -1, of_char DQ, -1, -1, -1, -1, -1] @
     replicate 48 (-1) @
     [-1, -1, -1, -1, of_char BS, -1, -1, -1] @
     replicate 24 (-1) @
     [-1, -1, -1, -1, -1, -1, -1, 1] @
     replicate 128 0"

definition cq_must_quote :: "int \<Rightarrow> char \<Rightarrow> bool" where
  "cq_must_quote fully c \<longleftrightarrow> cq_lookup ! of_char c + fully > 0"

text \<open>The loop stops at the terminating NUL, which must be quoted; the bound \<open>maxlen\<close> stops it
  before, when there is one.\<close>

definition next_quote_pos :: "int \<Rightarrow> string \<Rightarrow> int \<Rightarrow> nat" where
  "next_quote_pos fully s maxlen =
     (if maxlen < 0 then length (takeWhile (\<lambda>c. \<not> cq_must_quote fully c) s)
      else length (takeWhile (\<lambda>c. \<not> cq_must_quote fully c) (take (nat maxlen) s)))"

text \<open>The two destinations, a \<open>strbuf\<close> and a \<open>FILE\<close>, each of which may be NULL, and the count.\<close>

record quote_out =
  qo_sb :: "string option"
  qo_fp :: "string option"
  qo_count :: nat

definition emit :: "string \<Rightarrow> quote_out \<Rightarrow> quote_out" where
  "emit s out = \<lparr> qo_sb = map_option (\<lambda>x. x @ s) (qo_sb out),
                  qo_fp = map_option (\<lambda>x. x @ s) (qo_fp out),
                  qo_count = qo_count out + length s \<rparr>"

definition emit_char :: "char \<Rightarrow> quote_out \<Rightarrow> quote_out" where
  "emit_char ch out =
     (if cq_lookup ! of_char ch \<ge> of_char SP
      then emit [char_of (nat (cq_lookup ! of_char ch))] out
      else
        let out = emit [char_of ((drop_bit 6 (of_char ch) AND 3) + of_char CHR ''0'' :: nat)] out;
            out = emit [char_of ((drop_bit 3 (of_char ch) AND 7) + of_char CHR ''0'' :: nat)] out in
        emit [char_of ((drop_bit 0 (of_char ch) AND 7) + of_char CHR ''0'' :: nat)] out)"

lemma next_quote_pos_le: "0 \<le> maxlen \<Longrightarrow> int (next_quote_pos fully s maxlen) \<le> maxlen"
  using length_takeWhile_le [of "\<lambda>c. \<not> cq_must_quote fully c" "take (nat maxlen) s"]
  by (simp add: next_quote_pos_def) linarith

text \<open>\<open>start\<close> says that \<open>p\<close> still equals \<open>name\<close>.  The loop returns that flag, \<open>p\<close>, \<open>len\<close> and
  the output.\<close>

function (sequential) quote_c_loop ::
  "int \<Rightarrow> bool \<Rightarrow> bool \<Rightarrow> string \<Rightarrow> int \<Rightarrow> quote_out \<Rightarrow> bool \<times> string \<times> nat \<times> quote_out" where
  "quote_c_loop fully no_dq start p maxlen out =
     (let len = next_quote_pos fully p maxlen in
      if int len = maxlen \<or> maxlen < 0 \<and> cur (drop len p) = NUL then (start, p, len, out)
      else
        let out = (if \<not> no_dq \<and> start then emit [DQ] out else out);
            out = emit (take len p) out;
            out = emit [BS] out;
            p = drop len p;
            ch = cur p;
            p = tl p;
            maxlen = (if maxlen \<ge> 0 then maxlen - (int len + 1) else maxlen);
            out = emit_char ch out in
        quote_c_loop fully no_dq False p maxlen out)"
  by pat_completeness auto

termination
proof (relation "measure (\<lambda>(fully, no_dq, start, p, maxlen, out). if maxlen < 0 then length p else nat maxlen)")
  fix fully :: int and no_dq start :: bool and p :: string and maxlen :: int and out
  fix len and out1 out2 out3 p2 ch p3 maxlen2 out4
  assume len: "len = next_quote_pos fully p maxlen"
    and go: "\<not> (int len = maxlen \<or> maxlen < 0 \<and> cur (drop len p) = NUL)"
    and p: "p2 = drop len p" "p3 = tl p2"
    and m: "maxlen2 = (if 0 \<le> maxlen then maxlen - (int len + 1) else maxlen)"
  show "((fully, no_dq, False, p3, maxlen2, out4), (fully, no_dq, start, p, maxlen, out))
      \<in> measure (\<lambda>(fully, no_dq, start, p, maxlen, out). if maxlen < 0 then length p else nat maxlen)"
  proof (cases "maxlen < 0")
    case True
    with go have "drop len p \<noteq> []" by auto
    then have "len < length p" by simp
    with True m p show ?thesis by simp
  next
    case False
    with go len next_quote_pos_le [of maxlen fully p] have "int len < maxlen"
      by simp
    with False m show ?thesis by simp
  qed
qed simp

declare quote_c_loop.simps [simp del]

definition quote_c_style_counted ::
  "int \<Rightarrow> string \<Rightarrow> int \<Rightarrow> string option \<Rightarrow> string option \<Rightarrow> nat \<Rightarrow> nat \<times> string option \<times> string option" where
  "quote_c_style_counted fully name maxlen sb fp flags =
     (let no_dq = (flags AND CQUOTE_NODQ \<noteq> 0) in
      case quote_c_loop fully no_dq True name maxlen \<lparr> qo_sb = sb, qo_fp = fp, qo_count = 0 \<rparr> of
        (start, p, len, out) \<Rightarrow>
          let out = emit (take len p) out in
          if start then (0, qo_sb out, qo_fp out)
          else
            let out = (if \<not> no_dq then emit [DQ] out else out) in
            (qo_count out, qo_sb out, qo_fp out))"

definition quote_c_style ::
  "int \<Rightarrow> string \<Rightarrow> string option \<Rightarrow> string option \<Rightarrow> nat \<Rightarrow> nat \<times> string option \<times> string option" where
  "quote_c_style fully name sb fp flags = quote_c_style_counted fully name (-1) sb fp flags"

text \<open>What \<open>quote_c_style\<close> leaves in a \<open>strbuf\<close> alone.\<close>

definition quote_c_sb :: "int \<Rightarrow> string \<Rightarrow> string \<Rightarrow> nat \<Rightarrow> string" where
  "quote_c_sb fully name sb flags = the (fst (snd (quote_c_style fully name (Some sb) None flags)))"

definition quote_two_c_style :: "int \<Rightarrow> string \<Rightarrow> string \<Rightarrow> string \<Rightarrow> nat \<Rightarrow> string" where
  "quote_two_c_style fully sb pre path flags =
     (let nodq = (flags AND CQUOTE_NODQ \<noteq> 0) in
      if fst (quote_c_style fully pre None None 0) \<noteq> 0 \<or>
         fst (quote_c_style fully path None None 0) \<noteq> 0
      then
        let sb = (if \<not> nodq then sb @ [DQ] else sb);
            sb = quote_c_sb fully pre sb CQUOTE_NODQ;
            sb = quote_c_sb fully path sb CQUOTE_NODQ in
        if \<not> nodq then sb @ [DQ] else sb
      else sb @ pre @ path)"

definition write_name_quoted :: "int \<Rightarrow> string \<Rightarrow> string \<Rightarrow> char \<Rightarrow> string" where
  "write_name_quoted fully name fp terminator =
     (if terminator \<noteq> NUL then the (snd (snd (quote_c_style fully name None (Some fp) 0)))
      else fp @ name) @ [terminator]"

section \<open>C-style unquoting\<close>

definition c_escape :: "char \<Rightarrow> char option" where
  "c_escape ch =
     (if ch = CHR ''a'' then Some CHR 0x07
      else if ch = CHR ''b'' then Some CHR 0x08
      else if ch = CHR ''f'' then Some CHR 0x0C
      else if ch = CHR ''n'' then Some CHR 0x0A
      else if ch = CHR ''r'' then Some CHR 0x0D
      else if ch = CHR ''t'' then Some CHR 0x09
      else if ch = CHR ''v'' then Some CHR 0x0B
      else if ch = BS \<or> ch = DQ then Some ch
      else None)"

definition octal :: "char \<Rightarrow> bool" where
  "octal ch \<longleftrightarrow> \<not> ((of_char ch :: nat) < of_char CHR ''0'' \<or> of_char CHR ''7'' < (of_char ch :: nat))"

function (sequential) unquote_c_loop :: "string \<Rightarrow> string \<Rightarrow> (string \<times> string) option" where
  "unquote_c_loop sb quoted =
     (let len = length (takeWhile (\<lambda>c. c \<notin> {DQ, BS}) quoted);
          sb = sb @ take len quoted in
      case drop len quoted of
        [] \<Rightarrow> None
      | c # quoted \<Rightarrow>
          if c = DQ then Some (sb, quoted)
          else case quoted of
            [] \<Rightarrow> None
          | ch # quoted \<Rightarrow>
              (case c_escape ch of
                 Some e \<Rightarrow> unquote_c_loop (sb @ [e]) quoted
               | None \<Rightarrow>
                   if List.member ''0123'' ch then
                     let ac = push_bit 6 (of_char ch - of_char CHR ''0'');
                         ch = cur quoted;
                         quoted = tl quoted in
                     if \<not> octal ch then None
                     else
                       let ac = ac OR push_bit 3 (of_char ch - of_char CHR ''0'');
                           ch = cur quoted;
                           quoted = tl quoted in
                       if \<not> octal ch then None
                       else
                         let ac = ac OR (of_char ch - of_char CHR ''0'' :: nat) in
                         unquote_c_loop (sb @ [char_of ac]) quoted
                   else None))"
  by pat_completeness auto
termination
  by (relation "measure (\<lambda>(sb, quoted). length quoted)")
    (auto simp: dest!: arg_cong [where f = length])

declare unquote_c_loop.simps [simp del]

definition unquote_c_style :: "string \<Rightarrow> string \<Rightarrow> int \<times> string \<times> string option" where
  "unquote_c_style sb quoted =
     (if cur quoted \<noteq> DQ then (-1, sb, None)
      else case unquote_c_loop sb (tl quoted) of
        None \<Rightarrow> (-1, sb, None)
      | Some (sb, rest) \<Rightarrow> (0, sb, Some rest))"

section \<open>String literals of other languages\<close>

fun perl_quote_loop :: "string \<Rightarrow> string \<Rightarrow> string" where
  "perl_quote_loop sb [] = sb"
| "perl_quote_loop sb (c # src) =
     (let sb = (if c = SQ \<or> c = BS then sb @ [BS] else sb) in perl_quote_loop (sb @ [c]) src)"

definition perl_quote_buf :: "string \<Rightarrow> string \<Rightarrow> string" where
  "perl_quote_buf sb src = perl_quote_loop (sb @ [SQ]) src @ [SQ]"

definition perl_quote_buf_with_len :: "string \<Rightarrow> string \<Rightarrow> nat \<Rightarrow> string" where
  "perl_quote_buf_with_len sb src len = perl_quote_loop (sb @ [SQ]) (take len src) @ [SQ]"

fun python_quote_loop :: "string \<Rightarrow> string \<Rightarrow> string" where
  "python_quote_loop sb [] = sb"
| "python_quote_loop sb (c # src) =
     (if c = CHR 0x0A then python_quote_loop (sb @ [BS] @ ''n'') src
      else
        let sb = (if c = SQ \<or> c = BS then sb @ [BS] else sb) in python_quote_loop (sb @ [c]) src)"

definition python_quote_buf :: "string \<Rightarrow> string \<Rightarrow> string" where
  "python_quote_buf sb src = python_quote_loop (sb @ [SQ]) src @ [SQ]"

fun tcl_quote_loop :: "string \<Rightarrow> string \<Rightarrow> string" where
  "tcl_quote_loop sb [] = sb"
| "tcl_quote_loop sb (c # src) =
     tcl_quote_loop
       (if List.member (''[]{}$'' @ [BS, DQ]) c then sb @ [BS] @ [c]
        else if c = CHR 0x0C then sb @ [BS] @ ''f''
        else if c = CHR 0x0D then sb @ [BS] @ ''r''
        else if c = CHR 0x0A then sb @ [BS] @ ''n''
        else if c = CHR 0x09 then sb @ [BS] @ ''t''
        else if c = CHR 0x0B then sb @ [BS] @ ''v''
        else sb @ [c]) src"

definition tcl_quote_buf :: "string \<Rightarrow> string \<Rightarrow> string" where
  "tcl_quote_buf sb src = tcl_quote_loop (sb @ [DQ]) src @ [DQ]"

fun regex_quote_loop :: "string \<Rightarrow> string \<Rightarrow> string" where
  "regex_quote_loop sb [] = sb"
| "regex_quote_loop sb (c # src) =
     regex_quote_loop
       (if List.member (''[.*'' @ [BS]) c then sb @ [BS] @ [c]
        else if c = CHR ''$'' then (if src = [] then sb @ [BS] else sb) @ [c]
        else sb @ [c]) src"

definition basic_regex_quote_buf :: "string \<Rightarrow> string \<Rightarrow> string" where
  "basic_regex_quote_buf sb src =
     (let (sb, src) = (if cur src = CHR ''^'' then (sb @ [BS] @ [cur src], tl src) else (sb, src));
          (sb, src) = (if cur src = CHR ''*'' then (sb @ [cur src], tl src) else (sb, src)) in
      regex_quote_loop sb src)"

section \<open>What the quoting loop writes\<close>

definition cq_code :: "char \<Rightarrow> string" where
  "cq_code ch =
     (if cq_lookup ! of_char ch \<ge> of_char SP then [char_of (nat (cq_lookup ! of_char ch))]
      else [char_of ((drop_bit 6 (of_char ch) AND 3) + 48 :: nat),
            char_of ((drop_bit 3 (of_char ch) AND 7) + 48 :: nat),
            char_of ((drop_bit 0 (of_char ch) AND 7) + 48 :: nat)])"

definition cq_esc :: "int \<Rightarrow> string \<Rightarrow> string" where
  "cq_esc fully s = concat (map (\<lambda>c. if cq_must_quote fully c then BS # cq_code c else [c]) s)"

lemma cq_esc_simps [simp]:
  "cq_esc fully [] = []"
  "cq_esc fully (c # s) = (if cq_must_quote fully c then BS # cq_code c else [c]) @ cq_esc fully s"
  "cq_esc fully (s @ t) = cq_esc fully s @ cq_esc fully t"
  by (simp_all add: cq_esc_def)

lemma cq_esc_plain: "\<not> list_ex (cq_must_quote fully) s \<Longrightarrow> cq_esc fully s = s"
  by (induction s) auto

lemma emit_simps [simp]: "emit t (emit s out) = emit (s @ t) out" "emit [] out = out"
  by (simp_all add: emit_def option.map_comp comp_def option.map_ident)

lemma emit_char_eq: "emit_char ch out = emit (cq_code ch) out"
  by (simp add: emit_char_def cq_code_def)

definition whole_name :: "string \<Rightarrow> int \<Rightarrow> bool" where
  "whole_name p maxlen \<longleftrightarrow> maxlen = -1 \<and> cstr p \<or> maxlen = int (length p)"

lemma next_quote_pos_whole:
  "whole_name p maxlen \<Longrightarrow>
   next_quote_pos fully p maxlen = length (takeWhile (\<lambda>c. \<not> cq_must_quote fully c) p)"
  by (auto simp: whole_name_def next_quote_pos_def)

lemma quote_c_loop_eq:
  assumes "whole_name p maxlen"
  shows "\<exists>p2 len2 out2.
    quote_c_loop fully nd start p maxlen out =
      (start \<and> \<not> list_ex (cq_must_quote fully) p, p2, len2, out2) \<and>
    emit (take len2 p2) out2 =
      emit ((if \<not> nd \<and> start \<and> list_ex (cq_must_quote fully) p then [DQ] else []) @ cq_esc fully p) out"
  using assms
proof (induction "length p" arbitrary: p maxlen start out rule: less_induct)
  case less
  let ?P = "\<lambda>c. \<not> cq_must_quote fully c"
  let ?len = "length (takeWhile ?P p)"
  have len: "next_quote_pos fully p maxlen = ?len"
    using less.prems by (rule next_quote_pos_whole)
  have split: "take ?len p = takeWhile ?P p" "drop ?len p = dropWhile ?P p"
    by (simp_all only: takeWhile_eq_take [symmetric] dropWhile_eq_drop [symmetric])
  show ?case
  proof (cases "dropWhile ?P p")
    case Nil
    then have plain: "\<not> list_ex (cq_must_quote fully) p" and all: "takeWhile ?P p = p"
      by (simp_all add: list_ex_iff dropWhile_eq_Nil_conv)
    have "cur (dropWhile ?P p) = NUL" "?len = length p"
      by (simp only: Nil cur.simps) (simp only: all)
    then have "int ?len = maxlen \<or> maxlen < 0 \<and> cur (dropWhile ?P p) = NUL"
      using less.prems by (auto simp only: whole_name_def)
    then have "quote_c_loop fully nd start p maxlen out = (start, p, ?len, out)"
      by (subst quote_c_loop.simps) (simp only: Let_def len split if_True)
    with plain \<open>?len = length p\<close> show ?thesis
      by (simp add: cq_esc_plain)
  next
    case (Cons c rest)
    have p: "p = takeWhile ?P p @ c # rest"
      by (metis Cons takeWhile_dropWhile_id)
    have must: "cq_must_quote fully c"
      using Cons by (metis dropWhile_eq_Cons_conv)
    have shorter: "length rest < length p"
      by (subst p) simp
    define maxlen2 where "maxlen2 = (if maxlen \<ge> 0 then maxlen - (int ?len + 1) else maxlen)"
    have lp: "length p = ?len + Suc (length rest)"
      by (subst p) simp
    have whole: "whole_name rest maxlen2"
      using less.prems lp p by (auto simp: whole_name_def maxlen2_def cstr_def) (metis UnCI list.set_intros(2) set_append)
    have go: "\<not> (int ?len = maxlen \<or> maxlen < 0 \<and> cur (dropWhile ?P p) = NUL)"
      using less.prems lp Cons p by (auto simp: whole_name_def cstr_def) (metis UnCI list.set_intros(1) set_append)
    have any: "list_ex (cq_must_quote fully) p"
      by (subst p) (simp add: must)
    have plain: "cq_esc fully (takeWhile ?P p) = takeWhile ?P p"
      by (rule cq_esc_plain) (auto simp: list_ex_iff dest: set_takeWhileD)
    have esc: "cq_esc fully p = takeWhile ?P p @ BS # cq_code c @ cq_esc fully rest"
      by (subst p) (simp add: must plain)
    let ?out = "emit ((if \<not> nd \<and> start then [DQ] else []) @ takeWhile ?P p @ BS # cq_code c) out"
    have step: "quote_c_loop fully nd start p maxlen out = quote_c_loop fully nd False rest maxlen2 ?out"
      by (subst quote_c_loop.simps)
        (simp only: Let_def len split if_not_P [OF go], simp add: Cons emit_char_eq flip: maxlen2_def)
    from less.hyps [OF shorter whole, of False ?out] obtain p2 len2 out2 where
      "quote_c_loop fully nd False rest maxlen2 ?out = (False, p2, len2, out2)"
      "emit (take len2 p2) out2 = emit (cq_esc fully rest) ?out"
      by auto
    with step any show ?thesis
      by (simp add: esc)
  qed
qed

lemma quote_c_style_counted_eq:
  fixes flags :: nat and fully :: int
  assumes "whole_name name maxlen"
  defines "nd \<equiv> flags AND CQUOTE_NODQ \<noteq> 0"
  defines "q \<equiv> (if nd then cq_esc fully name else DQ # cq_esc fully name @ [DQ])"
  shows "quote_c_style_counted fully name maxlen sb fp flags =
    (if list_ex (cq_must_quote fully) name
     then (length q, map_option (\<lambda>x. x @ q) sb, map_option (\<lambda>x. x @ q) fp)
     else (0, map_option (\<lambda>x. x @ name) sb, map_option (\<lambda>x. x @ name) fp))"
proof -
  let ?out = "\<lparr> qo_sb = sb, qo_fp = fp, qo_count = 0 \<rparr>"
  obtain p2 len2 out2 where
    loop: "quote_c_loop fully nd True name maxlen ?out = (\<not> list_ex (cq_must_quote fully) name, p2, len2, out2)"
    and out: "emit (take len2 p2) out2 =
      emit ((if \<not> nd \<and> list_ex (cq_must_quote fully) name then [DQ] else []) @ cq_esc fully name) ?out"
    using quote_c_loop_eq [OF assms(1), of fully nd True ?out] by auto
  show ?thesis
    unfolding quote_c_style_counted_def Let_def nd_def [symmetric] loop prod.case out
    using cq_esc_plain [of fully name]
    by (cases "list_ex (cq_must_quote fully) name"; cases nd) (simp_all add: q_def, simp_all add: emit_def)
qed

section \<open>Unquoting inverts quoting\<close>

lemma octal_split:
  fixes n :: nat
  assumes "n < 256"
  shows "(push_bit 6 (drop_bit 6 n AND 3) OR push_bit 3 (drop_bit 3 n AND 7)) OR (drop_bit 0 n AND 7) = n"
proof -
  have m: "x AND 3 = take_bit 2 x" "x AND 7 = take_bit 3 x" for x :: nat
    using nat_and_mask [of x 2] nat_and_mask [of x 3]
    by (simp_all add: mask_eq_exp_minus_1 take_bit_eq_mod)
  have n: "n = take_bit 8 n"
    using assms by (simp add: take_bit_nat_eq_self)
  have "push_bit 6 (take_bit 2 (drop_bit 6 n)) OR push_bit 3 (take_bit 3 (drop_bit 3 n)) OR take_bit 3 n
      = take_bit 8 n"
  proof (rule bit_eqI)
    fix i :: nat
    consider "i < 3" | "3 \<le> i \<and> i < 6" | "6 \<le> i \<and> i < 8" | "8 \<le> i" by linarith
    then show "bit (push_bit 6 (take_bit 2 (drop_bit 6 n)) OR push_bit 3 (take_bit 3 (drop_bit 3 n)) OR take_bit 3 n) i
      = bit (take_bit 8 n) i"
      by cases (auto simp: bit_simps)
  qed
  with n m show ?thesis by (simp add: or.assoc)
qed

lemma cq_letters_all:
  "list_all (\<lambda>n. cq_lookup ! n \<ge> 32 \<and> c_escape (char_of (nat (cq_lookup ! n))) = Some (char_of n))
     ([7..<14] @ [34, 92])"
  by code_simp

lemma octal_digits_all:
  "list_all (\<lambda>k. octal (char_of (k + 48 :: nat))) [0..<8] \<and>
   list_all (\<lambda>k. c_escape (char_of (k + 48 :: nat)) = None \<and> List.member ''0123'' (char_of (k + 48 :: nat))) [0..<4]"
  by code_simp

lemma cq_lookup_letters: "cq_lookup ! of_char c \<ge> 32 \<longleftrightarrow> (of_char c :: nat) \<in> set ([7..<14] @ [34, 92])"
proof -
  have "of_char c - 128 < (128 :: nat)"
    using of_char_lt_256 [of c] by linarith
  then have "replicate 128 (0 :: int) ! (of_char c - 128) = 0"
    by simp
  then show ?thesis
    by (auto simp: cq_lookup_def nth_append nth_Cons' split: if_splits)
qed

lemma unquote_c_loop_plain:
  assumes "c \<noteq> DQ" "c \<noteq> BS"
  shows "unquote_c_loop sb (c # q) = unquote_c_loop (sb @ [c]) q"
proof -
  let ?P = "\<lambda>c. c \<notin> {DQ, BS}"
  have "takeWhile ?P (c # q) = c # takeWhile ?P q"
    using assms by simp
  then show ?thesis
    by (subst (1 2) unquote_c_loop.simps)
      (simp only: Let_def length_Cons take_Suc_Cons drop_Suc_Cons append_assoc append_Cons append_Nil
        cong: list.case_cong option.case_cong if_cong)
qed

lemma unquote_c_loop_dq: "unquote_c_loop sb (DQ # q) = Some (sb, q)"
  by (subst unquote_c_loop.simps) simp

lemma unquote_c_loop_code: "unquote_c_loop sb (BS # cq_code c @ q) = unquote_c_loop (sb @ [c]) q"
proof (cases "cq_lookup ! of_char c \<ge> 32")
  case True
  then have "c_escape (char_of (nat (cq_lookup ! of_char c))) = Some c"
    using cq_letters_all unfolding cq_lookup_letters list_all_iff by (metis char_of_char)
  with True show ?thesis
    by (subst unquote_c_loop.simps) (simp add: cq_code_def)
next
  case False
  let ?n = "of_char c :: nat"
  define d2 d1 d0 where "d2 = drop_bit 6 ?n AND 3" and "d1 = drop_bit 3 ?n AND 7" and "d0 = drop_bit 0 ?n AND 7"
  have m: "x AND 3 = x mod 4" "x AND 7 = x mod 8" for x :: nat
    using nat_and_mask [of x 2] nat_and_mask [of x 3] by (simp_all add: mask_eq_exp_minus_1)
  have lt: "d2 < 4" "d1 < 8" "d0 < 8"
    by (simp_all add: d2_def d1_def d0_def m)
  have oct: "octal (char_of (d1 + 48))" "octal (char_of (d0 + 48))"
    "c_escape (char_of (d2 + 48)) = None" "List.member ''0123'' (char_of (d2 + 48))"
    using octal_digits_all lt unfolding list_all_iff set_upt by auto
  have val: "(push_bit 6 d2 OR push_bit 3 d1) OR d0 = ?n"
    unfolding d2_def d1_def d0_def by (rule octal_split) simp
  have code: "cq_code c = [char_of (d2 + 48), char_of (d1 + 48), char_of (d0 + 48)]"
    using False by (simp add: cq_code_def d2_def d1_def d0_def)
  show ?thesis
    unfolding code using lt oct val
    by (subst unquote_c_loop.simps) (simp add: Let_def del: drop_bit_0 id_apply)
qed

lemma cq_must_quote_special: "0 \<le> fully \<Longrightarrow> cq_must_quote fully DQ \<and> cq_must_quote fully BS"
  by (simp add: cq_must_quote_def cq_lookup_def nth_append)

lemma unquote_c_loop_esc:
  "0 \<le> fully \<Longrightarrow> unquote_c_loop sb (cq_esc fully s @ DQ # rest) = Some (sb @ s, rest)"
proof (induction s arbitrary: sb)
  case (Cons c s)
  then show ?case
    using cq_must_quote_special [of fully] unquote_c_loop_plain [of c sb]
    by (cases "cq_must_quote fully c"; cases "c = DQ"; cases "c = BS")
      (simp_all add: unquote_c_loop_code)
qed (simp add: unquote_c_loop_dq)

text \<open>
  C20: C-style quoting is undone by \<open>unquote_c_style\<close>, for every name (with an explicit length also
  for names holding NUL) and either setting of \<open>quote_path_fully\<close>.  When the returned count is
  positive it is the length written, the output starts with a double quote, and reading it back
  gives the name and stops right behind the closing quote; when it is 0 the name was written as it
  is and does not start with a double quote, so a reader can tell the two apart.
\<close>

theorem unquote_quote_c_style:
  assumes "0 \<le> fully" "whole_name name maxlen" "flags AND CQUOTE_NODQ = 0"
    and "quote_c_style_counted fully name maxlen (Some []) fp flags = (n, Some q, fp2)"
  shows "if n = 0 then q = name \<and> cur q \<noteq> DQ
    else n = length q \<and> cur q = DQ \<and> unquote_c_style sb (q @ rest) = (0, sb @ name, Some rest)"
proof (cases "list_ex (cq_must_quote fully) name")
  case True
  then have "n = length q" "q = DQ # cq_esc fully name @ [DQ]"
    using assms(4) quote_c_style_counted_eq [OF assms(2), of fully "Some []" fp flags] assms(3) by auto
  with unquote_c_loop_esc [OF assms(1), of sb name rest] show ?thesis
    by (simp add: unquote_c_style_def)
next
  case False
  then have "n = 0" "q = name"
    using assms(4) quote_c_style_counted_eq [OF assms(2), of fully "Some []" fp flags] by auto
  with False cq_must_quote_special [OF assms(1)] show ?thesis
    by (cases name) auto
qed

lemma unquote_quote_c_style_witness:
  "whole_name (''a b'' @ [CHR 0x0A, DQ, CHR 0xE9]) (-1) \<and>
   unquote_c_style ''x'' (DQ # ''a b'' @ [BS, CHR ''n'', BS, DQ, BS] @ ''351'' @ [DQ] @ ''>'') =
     (0, ''xa b'' @ [CHR 0x0A, DQ, CHR 0xE9], Some ''>'')"
proof -
  let ?name = "''a b'' @ [CHR 0x0A, DQ, CHR 0xE9]"
  let ?q = "DQ # ''a b'' @ [BS, CHR ''n'', BS, DQ, BS] @ ''351'' @ [DQ]"
  have w: "whole_name ?name (-1)"
    by (simp add: whole_name_def)
  have "quote_c_style_counted 1 ?name (-1) (Some []) None 0 = (13, Some ?q, None)"
    by code_simp
  from unquote_quote_c_style [OF _ w _ this, of "''x''" "''>''"] w show ?thesis
    by simp
qed

lemma quote_c_sb_eq:
  "cstr name \<Longrightarrow> quote_c_sb fully name sb flags =
    sb @ (if list_ex (cq_must_quote fully) name
      then if flags AND CQUOTE_NODQ \<noteq> 0 then cq_esc fully name else DQ # cq_esc fully name @ [DQ]
      else name)"
  by (simp add: quote_c_sb_def quote_c_style_def quote_c_style_counted_eq whole_name_def)

text \<open>
  C23: quoting a path given in two pieces writes what quoting the joined path writes.
\<close>

theorem quote_two_c_style_joined:
  assumes "cstr pre" "cstr path"
  shows "quote_two_c_style fully sb pre path flags = quote_c_sb fully (pre @ path) sb flags"
  using assms
  by (cases "list_ex (cq_must_quote fully) pre"; cases "list_ex (cq_must_quote fully) path")
    (simp_all add: quote_two_c_style_def quote_c_sb_eq cq_esc_plain quote_c_style_def
      quote_c_style_counted_eq whole_name_def CQUOTE_NODQ_def)

lemma quote_two_c_style_joined_witness:
  "quote_two_c_style 1 ''> '' ''a/'' [CHR 0x09] 0 = quote_c_sb 1 [CHR ''a'', CHR ''/'', CHR 0x09] ''> '' 0"
  using quote_two_c_style_joined [of "''a/''" "[CHR 0x09]" 1 "''> ''" 0] by simp

section \<open>How the other languages read their literals\<close>

text \<open>
  The specification: the text behind the opening quote of a literal is read up to \<open>close\<close>, which
  must end it; a backslash must be followed by a character \<open>esc\<close> gives a meaning to, and an
  \<open>active\<close> character (one that would substitute something or break the line) is refused.
\<close>

fun literal_read :: "char \<Rightarrow> (char \<Rightarrow> char option) \<Rightarrow> (char \<Rightarrow> bool) \<Rightarrow> string \<Rightarrow> string option" where
  "literal_read close esc active [] = None"
| "literal_read close esc active (c # s) =
     (if c = close then (if s = [] then Some [] else None)
      else if c = BS then
        (case s of [] \<Rightarrow> None
         | d # t \<Rightarrow> (case esc d of None \<Rightarrow> None | Some e \<Rightarrow> map_option (Cons e) (literal_read close esc active t)))
      else if active c then None
      else map_option (Cons c) (literal_read close esc active s))"

definition perl_read :: "string \<Rightarrow> string option" where
  "perl_read s = (if cur s \<noteq> SQ then None
     else literal_read SQ (\<lambda>d. if d = SQ \<or> d = BS then Some d else None) (\<lambda>_. False) (tl s))"

definition python_read :: "string \<Rightarrow> string option" where
  "python_read s = (if cur s \<noteq> SQ then None
     else literal_read SQ
       (\<lambda>d. if d = CHR ''n'' then Some CHR 0x0A else if d = SQ \<or> d = BS then Some d else None)
       (\<lambda>c. c = CHR 0x0A \<or> c = CHR 0x0D) (tl s))"

definition tcl_read :: "string \<Rightarrow> string option" where
  "tcl_read s = (if cur s \<noteq> DQ then None
     else literal_read DQ
       (\<lambda>d. if d = CHR ''f'' then Some CHR 0x0C else if d = CHR ''r'' then Some CHR 0x0D
            else if d = CHR ''n'' then Some CHR 0x0A else if d = CHR ''t'' then Some CHR 0x09
            else if d = CHR ''v'' then Some CHR 0x0B
            else if isalnum d then None else Some d)
       (\<lambda>c. c = CHR ''['' \<or> c = CHR ''$'') (tl s))"

lemma perl_quote_loop_eq: "perl_quote_loop sb src = sb @ perl_quote_loop [] src"
proof (induction src arbitrary: sb)
  case (Cons c src)
  show ?case
    by (simp add: Let_def) (metis Cons append.assoc append_Cons append_Nil)
qed simp

lemma python_quote_loop_eq: "python_quote_loop sb src = sb @ python_quote_loop [] src"
proof (induction src arbitrary: sb)
  case (Cons c src)
  show ?case
    by (simp add: Let_def) (metis Cons append.assoc append_Cons append_Nil)
qed simp

lemma tcl_quote_loop_eq: "tcl_quote_loop sb src = sb @ tcl_quote_loop [] src"
proof (induction src arbitrary: sb)
  case (Cons c src)
  show ?case
    by simp (metis Cons append.assoc append_Cons append_Nil)
qed simp

lemma perl_literal:
  "literal_read SQ (\<lambda>d. if d = SQ \<or> d = BS then Some d else None) (\<lambda>_. False)
     (perl_quote_loop [] src @ [SQ]) = Some src"
proof (induction src)
  case (Cons c src)
  then show ?case
    by (simp add: Let_def perl_quote_loop_eq [of "[c]"] perl_quote_loop_eq [of "[BS, c]"])
qed simp

lemma python_literal:
  "literal_read SQ (\<lambda>d. if d = CHR ''n'' then Some CHR 0x0A else if d = SQ \<or> d = BS then Some d else None)
     (\<lambda>c. c = CHR 0x0A \<or> c = CHR 0x0D) (python_quote_loop [] src @ [SQ]) =
   (if CHR 0x0D \<in> set src then None else Some src)"
proof (induction src)
  case (Cons c src)
  then show ?case
    by (simp add: Let_def python_quote_loop_eq [of "[c]"] python_quote_loop_eq [of "[BS, c]"]
        python_quote_loop_eq [of "BS # ''n''"])
qed simp

lemma tcl_literal:
  "literal_read DQ
     (\<lambda>d. if d = CHR ''f'' then Some CHR 0x0C else if d = CHR ''r'' then Some CHR 0x0D
            else if d = CHR ''n'' then Some CHR 0x0A else if d = CHR ''t'' then Some CHR 0x09
            else if d = CHR ''v'' then Some CHR 0x0B
            else if isalnum d then None else Some d)
     (\<lambda>c. c = CHR ''['' \<or> c = CHR ''$'') (tcl_quote_loop [] src @ [DQ]) = Some src"
proof (induction src)
  case (Cons c src)
  have "\<not> isalnum d" if "d \<in> {CHR ''['', CHR '']'', CHR ''{'', CHR ''}'', CHR ''$'', BS, DQ}" for d
    using that by (auto simp: isalnum_iff isalpha_def sane_istest_alpha isdigit_code)
  with Cons show ?case
    by (simp add: tcl_quote_loop_eq [of "[c]"] tcl_quote_loop_eq [of "[BS, c]"]
        tcl_quote_loop_eq [of "BS # ''f''"] tcl_quote_loop_eq [of "BS # ''r''"]
        tcl_quote_loop_eq [of "BS # ''n''"] tcl_quote_loop_eq [of "BS # ''t''"]
        tcl_quote_loop_eq [of "BS # ''v''"])
qed simp

text \<open>
  C24: the literals for the three languages read back as the quoted string, and nothing in them is
  substituted; a Python literal does so unless the string holds a carriage return, which is left
  bare and ends the line.
\<close>

theorem language_literals_read_back:
  "perl_read (perl_quote_buf [] src) = Some src \<and>
   perl_read (perl_quote_buf_with_len [] src len) = Some (take len src) \<and>
   tcl_read (tcl_quote_buf [] src) = Some src \<and>
   python_read (python_quote_buf [] src) = (if CHR 0x0D \<in> set src then None else Some src)"
proof -
  have "perl_read (perl_quote_buf [] s) = Some s" for s
    using perl_literal [of s] by (simp add: perl_read_def perl_quote_buf_def perl_quote_loop_eq [of "[SQ]"])
  moreover have "perl_read (perl_quote_buf_with_len [] src len) = Some (take len src)"
    using perl_literal [of "take len src"]
    by (simp add: perl_read_def perl_quote_buf_with_len_def perl_quote_loop_eq [of "[SQ]"])
  moreover have "tcl_read (tcl_quote_buf [] src) = Some src"
    using tcl_literal [of src] by (simp add: tcl_read_def tcl_quote_buf_def tcl_quote_loop_eq [of "[DQ]"])
  moreover have "python_read (python_quote_buf [] src) = (if CHR 0x0D \<in> set src then None else Some src)"
    using python_literal [of src]
    by (simp add: python_read_def python_quote_buf_def python_quote_loop_eq [of "[SQ]"])
  ultimately show ?thesis by blast
qed

text \<open>
  The specification of a basic regular expression that stands for one string only: \<open>first\<close> holds at
  its beginning, where \<open>*\<close> is an ordinary character and \<open>^\<close> an anchor; \<open>$\<close> is an anchor at the end.
\<close>

fun bre_read :: "bool \<Rightarrow> string \<Rightarrow> string option" where
  "bre_read first [] = Some []"
| "bre_read first (c # s) =
     (if c = BS then
        (case s of [] \<Rightarrow> None
         | d # t \<Rightarrow> if List.member (''^.[$*'' @ [BS]) d then map_option (Cons d) (bre_read False t) else None)
      else if c = CHR ''^'' \<and> first \<or> c = CHR ''*'' \<and> \<not> first \<or> c = CHR ''$'' \<and> s = [] \<or>
        c = CHR ''.'' \<or> c = CHR ''['' then None
      else map_option (Cons c) (bre_read False s))"

lemma regex_quote_loop_eq: "regex_quote_loop sb src = sb @ regex_quote_loop [] src"
proof (induction src arbitrary: sb)
  case (Cons c src)
  show ?case
    by simp (metis Cons append.assoc append_Cons append_Nil)
qed simp

lemma regex_quote_loop_Nil: "regex_quote_loop [] s = [] \<longleftrightarrow> s = []"
  by (cases s) (simp_all add: regex_quote_loop_eq [of "_ # _"])

lemma bre_read_loop:
  "\<not> first \<or> cur src \<noteq> CHR ''^'' \<Longrightarrow> bre_read first (regex_quote_loop [] src) = Some src"
proof (induction src arbitrary: first)
  case (Cons c src)
  then show ?case
    by (auto simp: regex_quote_loop_eq [of "[_]"] regex_quote_loop_eq [of "[_, _]"] regex_quote_loop_Nil)
qed simp

lemma bre_read_plain:
  "bre_read first (CHR ''*'' # s) = (if first then map_option (Cons CHR ''*'') (bre_read False s) else None)"
  by simp

lemma bre_read_caret: "bre_read first (BS # CHR ''^'' # s) = map_option (Cons CHR ''^'') (bre_read False s)"
  by simp

text \<open>
  the regular expression \<open>basic_regex_quote_buf\<close> builds stands for exactly the given string,
  except when the string begins with \<open>^*\<close>: there the star is left bare behind the quoted caret and
  repeats it.
\<close>

theorem basic_regex_quote_literal:
  "bre_read True (basic_regex_quote_buf [] src) =
    (if prefix ''^*'' src then None else Some src)"
proof -
  have cur_Cons: "\<exists>s. t = c # s" if "cur t = c" "c \<noteq> NUL" for t c
    using that by (cases t) auto
  have "\<exists>t. src = CHR ''^'' # t" if "cur src = CHR ''^''"
    using cur_Cons [OF that] by simp
  moreover have "\<exists>t. src = CHR ''*'' # t" if "cur src = CHR ''*''"
    using cur_Cons [OF that] by simp
  moreover have "\<exists>s. t = CHR ''*'' # s" if "cur t = CHR ''*''" for t
    using cur_Cons [OF that] by simp
  ultimately consider (star) t where "src = CHR ''^'' # CHR ''*'' # t"
    | (caret) t where "src = CHR ''^'' # t" "cur t \<noteq> CHR ''*''"
    | (bare) t where "src = CHR ''*'' # t"
    | (other) "cur src \<noteq> CHR ''^''" "cur src \<noteq> CHR ''*''"
    by metis
  then show ?thesis
  proof cases
    case star
    then show ?thesis
      by (simp add: basic_regex_quote_buf_def regex_quote_loop_eq [of "_ # _"])
  next
    case caret
    then have "\<not> prefix ''^*'' src"
      by (cases t) auto
    with caret bre_read_loop [of False t] show ?thesis
      by (simp add: basic_regex_quote_buf_def regex_quote_loop_eq [of "_ # _"])
  next
    case bare
    then show ?thesis
      using bre_read_loop [of False t] by (simp add: basic_regex_quote_buf_def regex_quote_loop_eq [of "_ # _"])
  next
    case other
    then have "\<not> prefix ''^*'' src"
      by (cases src) auto
    with other bre_read_loop [of True src] show ?thesis
      by (simp add: basic_regex_quote_buf_def)
  qed
qed

end
