(* ===== verification/Refname.thy ===== *)
theory Refname
  imports Prelude Ctype "HOL-Library.Sublist"
begin

text \<open>
  \<^verbatim>\<open>refs.c\<close>: which names a ref may have (\<open>check_refname_format\<close>), and the sanitizer that shares
  the code.  \<open>refname\<close> is the whole NUL-terminated name with a position in it; the \<open>strbuf\<close>
  \<open>sanitized\<close> is an option, \<open>None\<close> when only checking.
\<close>

definition REFNAME_ALLOW_ONELEVEL :: u32 where "REFNAME_ALLOW_ONELEVEL = 1"
definition REFNAME_REFSPEC_PATTERN :: u32 where "REFNAME_REFSPEC_PATTERN = 2"
definition LOCK_SUFFIX :: string where "LOCK_SUFFIX = ''.lock''"
definition LOCK_SUFFIX_LEN :: nat where "LOCK_SUFFIX_LEN = 5"

definition refname_disposition :: "nat list" where
  "refname_disposition =
    [1, 4, 4, 4, 4, 4, 4, 4, 4, 4, 4, 4, 4, 4, 4, 4,
     4, 4, 4, 4, 4, 4, 4, 4, 4, 4, 4, 4, 4, 4, 4, 4,
     4, 0, 0, 0, 0, 0, 0, 0, 0, 0, 5, 0, 0, 0, 2, 1,
     0, 0, 0, 0, 0, 0, 0, 0, 0, 0, 4, 0, 0, 0, 0, 4,
     0, 0, 0, 0, 0, 0, 0, 0, 0, 0, 0, 0, 0, 0, 0, 0,
     0, 0, 0, 0, 0, 0, 0, 0, 0, 0, 0, 4, 4, 0, 4, 0,
     0, 0, 0, 0, 0, 0, 0, 0, 0, 0, 0, 0, 0, 0, 0, 0,
     0, 0, 0, 0, 0, 0, 0, 0, 0, 0, 0, 3, 0, 0, 4, 4]
    @ replicate 128 0"

section \<open>The code\<close>

definition set_last :: "char \<Rightarrow> string \<Rightarrow> string" where
  "set_last c s = s[length s - 1 := c]"

text \<open>
  The loop over \<open>cp\<close>, whose argument is the text from \<open>cp\<close> on.  \<open>None\<close> is \<open>return -1\<close>; otherwise
  the result is \<open>cp - refname\<close> at \<open>out\<close>, the flags and the sanitized text.
\<close>

fun refname_component_loop ::
  "string \<Rightarrow> nat \<Rightarrow> char \<Rightarrow> u32 \<Rightarrow> string option \<Rightarrow> (nat \<times> u32 \<times> string option) option" where
  "refname_component_loop [] n prev flags sanitized = Some (n, flags, sanitized)"
| "refname_component_loop (ch # cp) n prev flags sanitized =
     (let disp = refname_disposition ! of_char ch;
          sanitized = (if disp \<noteq> 1 then map_option (\<lambda>x. x @ [ch]) sanitized else sanitized) in
      if disp = 1 then Some (n, flags, sanitized)
      else if disp = 2 then
        if prev = CHR ''.'' then
          (case sanitized of
             Some x \<Rightarrow> refname_component_loop cp (Suc n) ch flags (Some (take (length x - 1) x))
           | None \<Rightarrow> None)
        else refname_component_loop cp (Suc n) ch flags sanitized
      else if disp = 3 then
        if prev = CHR ''@'' then
          (case sanitized of
             Some x \<Rightarrow> refname_component_loop cp (Suc n) ch flags (Some (set_last CHR ''-'' x))
           | None \<Rightarrow> None)
        else refname_component_loop cp (Suc n) ch flags sanitized
      else if disp = 4 then
        (case sanitized of
           Some x \<Rightarrow> refname_component_loop cp (Suc n) ch flags (Some (set_last CHR ''-'' x))
         | None \<Rightarrow> None)
      else if disp = 5 then
        if flags AND REFNAME_REFSPEC_PATTERN = 0 then
          (case sanitized of
             Some x \<Rightarrow> refname_component_loop cp (Suc n) ch (flags AND NOT REFNAME_REFSPEC_PATTERN)
               (Some (set_last CHR ''-'' x))
           | None \<Rightarrow> None)
        else refname_component_loop cp (Suc n) ch (flags AND NOT REFNAME_REFSPEC_PATTERN) sanitized
      else refname_component_loop cp (Suc n) ch flags sanitized)"

function strip_lock_suffixes :: "string \<Rightarrow> string" where
  "strip_lock_suffixes s =
     (if suffix LOCK_SUFFIX s then strip_lock_suffixes (take (length s - LOCK_SUFFIX_LEN) s) else s)"
  by pat_completeness auto
termination
  by (relation "measure length") (auto simp: suffix_def LOCK_SUFFIX_def LOCK_SUFFIX_LEN_def)

declare strip_lock_suffixes.simps [simp del]

definition check_refname_component ::
  "string \<Rightarrow> u32 \<Rightarrow> string option \<Rightarrow> int \<times> u32 \<times> string option" where
  "check_refname_component refname flags sanitized =
     (let component_start = (case sanitized of Some x \<Rightarrow> length x | None \<Rightarrow> 0) in
      case refname_component_loop refname 0 NUL flags sanitized of
        None \<Rightarrow> (-1, flags, sanitized)
      | Some (n, flags, sanitized) \<Rightarrow>
          if n = 0 then (0, flags, sanitized)
          else if refname ! 0 = CHR ''.'' \<and> sanitized = None then (-1, flags, sanitized)
          else
            let sanitized = (if refname ! 0 = CHR ''.''
                             then map_option (\<lambda>x. x[component_start := CHR ''-'']) sanitized
                             else sanitized) in
            if n \<ge> LOCK_SUFFIX_LEN \<and>
               take LOCK_SUFFIX_LEN (drop (n - LOCK_SUFFIX_LEN) refname) = LOCK_SUFFIX
            then
              if sanitized = None then (-1, flags, sanitized)
              else (int n, flags, map_option strip_lock_suffixes sanitized)
            else (int n, flags, sanitized))"

definition strbuf_complete :: "string \<Rightarrow> char \<Rightarrow> string" where
  "strbuf_complete sb term = (if sb \<noteq> [] \<and> last sb \<noteq> term then sb @ [term] else sb)"

text \<open>
  The loop over the components: \<open>pos\<close> is the offset of \<open>refname\<close>.  \<open>Inl\<close> is \<open>return -1\<close>; \<open>Inr\<close>
  carries the offset, the last component's length, the flags, the count and the sanitized text.
\<close>

function check_refname_loop ::
  "string \<Rightarrow> nat \<Rightarrow> u32 \<Rightarrow> nat \<Rightarrow> string option \<Rightarrow>
   string option + nat \<times> nat \<times> u32 \<times> nat \<times> string option" where
  "check_refname_loop name pos flags component_count sanitized =
     (let sanitized = map_option (\<lambda>x. if x \<noteq> [] then strbuf_complete x CHR ''/'' else x) sanitized in
      case check_refname_component (drop pos name) flags sanitized of (component_len, flags, sanitized) \<Rightarrow>
      if \<not> (sanitized \<noteq> None \<and> component_len = 0) \<and> component_len \<le> 0 then Inl sanitized
      else
        let component_count = component_count + 1;
            len = nat component_len in
        if cur (drop (pos + len) name) = NUL
        then Inr (pos, len, flags, component_count, sanitized)
        else check_refname_loop name (pos + (len + 1)) flags component_count sanitized)"
  by pat_completeness auto
termination
proof (relation "measure (\<lambda>(name, pos, flags, n, sanitized). length name - pos)")
  fix name pos fl n sz x xa y xb ya xc xd and component_len :: int
  fix x2 :: nat
  assume "x2 = nat xa" "cur (drop (pos + x2) name) \<noteq> NUL"
  then have "pos + x2 < length name"
    by (cases "pos + x2 < length name") auto
  then show "((name, pos + (x2 + 1), xb, xd, ya), name, pos, fl, n, sz)
      \<in> measure (\<lambda>(name, pos, flags, n, sanitized). length name - pos)"
    by simp
qed simp

declare check_refname_loop.simps [simp del]

text \<open>
  With \<open>sanitized\<close> the last component may be empty, and then \<open>refname[component_len - 1]\<close> is the
  character before it, or, for the empty name, the byte before the string; the code does nothing
  with it.
\<close>

definition check_or_sanitize_refname :: "string \<Rightarrow> u32 \<Rightarrow> string option \<Rightarrow> int \<times> string option" where
  "check_or_sanitize_refname refname flags sanitized =
     (if refname = ''@'' \<and> sanitized = None then (-1, sanitized)
      else
        let sanitized = (if refname = ''@'' then map_option (\<lambda>x. x @ ''-'') sanitized else sanitized) in
        case check_refname_loop refname 0 flags 0 sanitized of
          Inl sanitized \<Rightarrow> (-1, sanitized)
        | Inr (pos, component_len, flags, component_count, sanitized) \<Rightarrow>
            if pos + component_len > 0 \<and> refname ! (pos + component_len - 1) = CHR ''.'' \<and>
               sanitized = None
            then (-1, sanitized)
            else if flags AND REFNAME_ALLOW_ONELEVEL = 0 \<and> component_count < 2 then (-1, sanitized)
            else (0, sanitized))"

definition check_refname_format :: "string \<Rightarrow> u32 \<Rightarrow> int" where
  "check_refname_format refname flags = fst (check_or_sanitize_refname refname flags None)"

definition sanitize_refname_component :: "string \<Rightarrow> string \<Rightarrow> int \<times> string option" where
  "sanitize_refname_component refname out =
     check_or_sanitize_refname refname REFNAME_ALLOW_ONELEVEL (Some out)"

section \<open>Which names are valid\<close>

text \<open>The rules of the comment above \<open>check_refname_component\<close>, as a specification.\<close>

definition bad_char :: "char \<Rightarrow> bool" where
  "bad_char c \<longleftrightarrow> (of_char c :: nat) < 33 \<or> (of_char c :: nat) = 127 \<or> List.member (CHR 0x5C # '':?[^~'') c"

definition valid_component :: "string \<Rightarrow> bool" where
  "valid_component w \<longleftrightarrow>
     w \<noteq> [] \<and> hd w \<noteq> CHR ''.'' \<and> \<not> sublist ''..'' w \<and> \<not> list_ex bad_char w \<and>
     \<not> suffix ''.lock'' w \<and> \<not> sublist [CHR ''@'', CHR ''{''] w"

function split_slash :: "string \<Rightarrow> string list" where
  "split_slash s =
     takeWhile (\<lambda>c. c \<noteq> CHR ''/'') s #
     (case dropWhile (\<lambda>c. c \<noteq> CHR ''/'') s of [] \<Rightarrow> [] | _ # t \<Rightarrow> split_slash t)"
  by pat_completeness auto
termination
proof (relation "measure length")
  fix s t :: string and x
  assume "dropWhile (\<lambda>c. c \<noteq> CHR ''/'') s = x # t"
  then show "(t, s) \<in> measure length"
    using length_dropWhile_le [of "\<lambda>c. c \<noteq> CHR ''/''" s] by simp
qed simp

declare split_slash.simps [simp del]

definition stars_allowed :: "u32 \<Rightarrow> nat" where
  "stars_allowed flags = (if flags AND REFNAME_REFSPEC_PATTERN = 0 then 0 else 1)"

definition valid_refname :: "u32 \<Rightarrow> string \<Rightarrow> bool" where
  "valid_refname flags name \<longleftrightarrow>
     list_all valid_component (split_slash name) \<and>
     name \<noteq> ''@'' \<and> last name \<noteq> CHR ''.'' \<and>
     count_list name CHR ''*'' \<le> stars_allowed flags \<and>
     (flags AND REFNAME_ALLOW_ONELEVEL = 0 \<longrightarrow> 2 \<le> length (split_slash name))"

section \<open>The check decides it\<close>

definition disposition_code :: "nat \<Rightarrow> nat" where
  "disposition_code n =
     (if n = 0 \<or> n = 47 then 1 else if n = 46 then 2 else if n = 123 then 3
      else if n < 33 \<or> n = 127 \<or> List.member [92, 58, 63, 91, 94, 126] n then 4
      else if n = 42 then 5 else 0)"

lemma disposition_low: "list_all (\<lambda>n. refname_disposition ! n = disposition_code n) [0..<128]"
  by code_simp

lemma disposition_eq: "refname_disposition ! of_char c = disposition_code (of_char c)"
proof (cases "of_char c < (128 :: nat)")
  case True
  then show ?thesis
    using disposition_low by (simp add: list_all_iff)
next
  case False
  have len: "length (take 128 refname_disposition) = 128" "drop 128 refname_disposition = replicate 128 0"
    by (simp_all add: refname_disposition_def)
  have "of_char c - 128 < (128 :: nat)"
    using of_char_lt_256 [of c] False by linarith
  then have "refname_disposition ! of_char c = 0"
    using len False by (metis append_take_drop_id nth_append nth_replicate)
  with False show ?thesis
    by (simp add: disposition_code_def)
qed

lemma char_code_eq: "c = d \<longleftrightarrow> of_char c = (of_char d :: nat)"
  by simp

lemma disposition_cases:
  "refname_disposition ! of_char c = 1 \<longleftrightarrow> c = NUL \<or> c = CHR ''/''"
  "refname_disposition ! of_char c = 2 \<longleftrightarrow> c = CHR ''.''"
  "refname_disposition ! of_char c = 3 \<longleftrightarrow> c = CHR ''{''"
  "refname_disposition ! of_char c = 4 \<longleftrightarrow> bad_char c \<and> c \<noteq> NUL"
  "refname_disposition ! of_char c = 5 \<longleftrightarrow> c = CHR ''*''"
  unfolding disposition_eq disposition_code_def bad_char_def
  by (auto simp add: char_code_eq simp del: of_char_eq_iff)

lemma stars_allowed_clear: "stars_allowed (flags AND NOT REFNAME_REFSPEC_PATTERN) = 0"
  by (simp add: stars_allowed_def and.assoc)

lemma onelevel_clear:
  "(flags AND NOT REFNAME_REFSPEC_PATTERN) AND REFNAME_ALLOW_ONELEVEL = flags AND REFNAME_ALLOW_ONELEVEL"
  by (simp add: REFNAME_REFSPEC_PATTERN_def REFNAME_ALLOW_ONELEVEL_def and.assoc)

definition flags_after :: "u32 \<Rightarrow> string \<Rightarrow> u32" where
  "flags_after flags w = (if CHR ''*'' \<in> set w then flags AND NOT REFNAME_REFSPEC_PATTERN else flags)"

lemma flags_after_simps [simp]:
  "flags_after flags [] = flags"
  "flags_after flags (CHR ''*'' # w) = flags_after (flags AND NOT REFNAME_REFSPEC_PATTERN) w"
  "c \<noteq> CHR ''*'' \<Longrightarrow> flags_after flags (c # w) = flags_after flags w"
  by (auto simp: flags_after_def and.assoc)

abbreviation component :: "string \<Rightarrow> string" where
  "component s \<equiv> takeWhile (\<lambda>c. c \<noteq> CHR ''/'') s"

definition body_ok :: "char \<Rightarrow> string \<Rightarrow> u32 \<Rightarrow> bool" where
  "body_ok prev w flags \<longleftrightarrow>
     \<not> list_ex bad_char w \<and> \<not> sublist ''..'' (prev # w) \<and> \<not> sublist [CHR ''@'', CHR ''{''] (prev # w) \<and>
     count_list w CHR ''*'' \<le> stars_allowed flags"

lemma sublist_pair_Cons:
  "sublist [a, b] (p # c # w) \<longleftrightarrow> p = a \<and> c = b \<or> sublist [a, b] (c # w)"
  by (auto simp: sublist_Cons_right [of "[a, b]" p])

lemma sublist_pair_single [simp]: "\<not> sublist [a, b] [p]"
  using sublist_length_le [of "[a, b]" "[p]"] by auto

lemma body_ok_Nil [simp]: "body_ok prev [] flags"
  by (simp add: body_ok_def)

lemma body_ok_Cons:
  "body_ok prev (c # w) flags \<longleftrightarrow>
     \<not> bad_char c \<and> \<not> (prev = CHR ''.'' \<and> c = CHR ''.'') \<and> \<not> (prev = CHR ''@'' \<and> c = CHR ''{'') \<and>
     (c = CHR ''*'' \<longrightarrow> flags AND REFNAME_REFSPEC_PATTERN \<noteq> 0) \<and>
     body_ok c w (if c = CHR ''*'' then flags AND NOT REFNAME_REFSPEC_PATTERN else flags)"
proof -
  have "stars_allowed flags = (if flags AND REFNAME_REFSPEC_PATTERN \<noteq> 0 then 1 else 0)"
    by (simp add: stars_allowed_def)
  then show ?thesis
    by (auto simp: body_ok_def sublist_pair_Cons stars_allowed_clear)
qed

lemma component_loop_check:
  "cstr cp \<Longrightarrow>
   refname_component_loop cp n prev flags None =
     (if body_ok prev (component cp) flags
      then Some (n + length (component cp), flags_after flags (component cp), None) else None)"
proof (induction cp arbitrary: n prev flags)
  case (Cons ch cp)
  then have nz: "ch \<noteq> NUL" "cstr cp" by auto
  note IH = Cons.IH [OF nz(2), of "Suc n"]
  have simple: "bad_char d = False" if "d \<in> {CHR ''.'', CHR ''{'', CHR ''*'', CHR ''/''}" for d
    using that by (auto simp: bad_char_def)
  obtain d where d: "d = refname_disposition ! of_char ch" by simp
  have step: "refname_component_loop (ch # cp) n prev flags None =
      (if d = 1 then Some (n, flags, None)
       else if d = 2 \<and> prev = CHR ''.'' \<or> d = 3 \<and> prev = CHR ''@'' \<or> d = 4 \<or>
         d = 5 \<and> flags AND REFNAME_REFSPEC_PATTERN = 0 then None
       else refname_component_loop cp (Suc n) ch
         (if d = 5 then flags AND NOT REFNAME_REFSPEC_PATTERN else flags) None)"
    by (simp add: Let_def d)
  have dv: "d = 1 \<longleftrightarrow> ch = CHR ''/''" "d = 2 \<longleftrightarrow> ch = CHR ''.''" "d = 3 \<longleftrightarrow> ch = CHR ''{''"
    "d = 4 \<longleftrightarrow> bad_char ch" "d = 5 \<longleftrightarrow> ch = CHR ''*''"
    using nz(1) by (simp_all only: d disposition_cases simp_thms)
  consider "d = 1" "ch = CHR ''/''" | "d = 2" "ch = CHR ''.''" | "d = 3" "ch = CHR ''{''"
    | "d = 4" "bad_char ch" "ch \<noteq> CHR ''/''" | "d = 5" "ch = CHR ''*''"
    | "d \<noteq> 1" "d \<noteq> 2" "d \<noteq> 3" "d \<noteq> 4" "d \<noteq> 5" "\<not> bad_char ch" "ch \<noteq> CHR ''/''"
      "ch \<noteq> CHR ''.''" "ch \<noteq> CHR ''{''" "ch \<noteq> CHR ''*''"
    using dv by blast
  then show ?case
    unfolding step by cases (simp_all add: IH simple body_ok_Cons del: refname_component_loop.simps)
qed simp

lemma drop_component: "drop (length (component s)) s = dropWhile (\<lambda>c. c \<noteq> CHR ''/'') s"
  by (simp only: dropWhile_eq_drop [symmetric])

lemma take_component: "take (length (component s)) s = component s"
  by (simp only: takeWhile_eq_take [symmetric])

lemma suffix_iff_drop: "suffix x w \<longleftrightarrow> length x \<le> length w \<and> drop (length w - length x) w = x"
  by (metis append_eq_conv_conj append_take_drop_id length_append le_add2 add_diff_cancel_right'
      suffix_def)

lemma component_suffix:
  assumes "n = length (component s)"
  shows "LOCK_SUFFIX_LEN \<le> n \<and> take LOCK_SUFFIX_LEN (drop (n - LOCK_SUFFIX_LEN) s) = LOCK_SUFFIX \<longleftrightarrow>
    suffix ''.lock'' (component s)"
proof (cases "LOCK_SUFFIX_LEN \<le> n")
  case True
  have "take LOCK_SUFFIX_LEN (drop (n - LOCK_SUFFIX_LEN) s) = drop (n - LOCK_SUFFIX_LEN) (take n s)"
    using True by (simp add: take_drop)
  also have "\<dots> = drop (n - LOCK_SUFFIX_LEN) (component s)"
    using assms take_component [of s] by simp
  finally have eq: "take LOCK_SUFFIX_LEN (drop (n - LOCK_SUFFIX_LEN) s) = drop (n - LOCK_SUFFIX_LEN) (component s)" .
  show ?thesis
    using True assms unfolding eq suffix_iff_drop by (simp add: LOCK_SUFFIX_LEN_def LOCK_SUFFIX_def eval_nat_numeral)
next
  case False
  then show ?thesis
    using assms unfolding suffix_iff_drop by (simp add: LOCK_SUFFIX_LEN_def)
qed

lemma component_check:
  assumes "cstr s"
  defines "w \<equiv> component s"
  shows "if valid_component w \<and> count_list w CHR ''*'' \<le> stars_allowed flags
    then check_refname_component s flags None = (int (length w), flags_after flags w, None)
    else \<exists>r fl. r \<le> 0 \<and> check_refname_component s flags None = (r, fl, None)"
proof -
  have first: "s ! 0 = hd w" if "w \<noteq> []"
    using that by (cases s) (auto simp: w_def split: if_splits)
  have nul: "sublist ''..'' (NUL # w) \<longleftrightarrow> sublist ''..'' w" "sublist [CHR ''@'', CHR ''{''] (NUL # w) \<longleftrightarrow> sublist [CHR ''@'', CHR ''{''] w"
    by (auto simp: sublist_Cons_right [of _ NUL])
  have loop: "refname_component_loop s 0 NUL flags None =
      (if body_ok NUL w flags then Some (length w, flags_after flags w, None) else None)"
    using component_loop_check [OF assms(1), of 0 NUL flags] by (simp add: w_def)
  have lock: "LOCK_SUFFIX_LEN \<le> length w \<and> take LOCK_SUFFIX_LEN (drop (length w - LOCK_SUFFIX_LEN) s) = LOCK_SUFFIX
      \<longleftrightarrow> suffix ''.lock'' w"
    unfolding w_def by (rule component_suffix) simp
  show ?thesis
    unfolding check_refname_component_def loop Let_def
    using first nul lock
    by (auto simp: valid_component_def body_ok_def)
qed

lemma split_slash_last:
  "dropWhile (\<lambda>c. c \<noteq> CHR ''/'') s = [] \<Longrightarrow> split_slash s = [component s]"
  by (subst split_slash.simps) (simp only: list.case)

lemma split_slash_more:
  "dropWhile (\<lambda>c. c \<noteq> CHR ''/'') s = x # t \<Longrightarrow> split_slash s = component s # split_slash t"
  by (subst split_slash.simps) simp

lemma check_loop_step:
  assumes "cstr name" "pos \<le> length name"
  defines "w \<equiv> component (drop pos name)"
  shows "check_refname_loop name pos flags n None =
    (if valid_component w \<and> count_list w CHR ''*'' \<le> stars_allowed flags then
       if cur (drop (pos + length w) name) = NUL
       then Inr (pos, length w, flags_after flags w, n + 1, None)
       else check_refname_loop name (pos + (length w + 1)) (flags_after flags w) (n + 1) None
     else Inl None)"
proof -
  have c: "cstr (drop pos name)"
    using assms(1) by (auto simp: cstr_def dest: in_set_dropD)
  show ?thesis
  proof (cases "valid_component w \<and> count_list w CHR ''*'' \<le> stars_allowed flags")
    case True
    then have "w \<noteq> []" by (simp add: valid_component_def)
    with True component_check [OF c, of flags] show ?thesis
      by (subst check_refname_loop.simps) (simp add: Let_def flip: w_def)
  next
    case False
    with component_check [OF c, of flags] show ?thesis
      by (subst check_refname_loop.simps) (auto simp: Let_def simp flip: w_def)
  qed
qed

lemma stars_after:
  "count_list w CHR ''*'' \<le> stars_allowed flags \<Longrightarrow>
   k \<le> stars_allowed (flags_after flags w) \<longleftrightarrow> count_list w CHR ''*'' + k \<le> stars_allowed flags"
  using stars_allowed_clear [of flags] count_list_0_iff [of w "CHR ''*''"]
  by (auto simp: flags_after_def stars_allowed_def split: if_splits)

lemma onelevel_after: "flags_after flags w AND REFNAME_ALLOW_ONELEVEL = flags AND REFNAME_ALLOW_ONELEVEL"
  by (simp add: flags_after_def onelevel_clear)

lemma check_loop_correct:
  assumes "cstr name" "pos \<le> length name"
  shows "if list_all valid_component (split_slash (drop pos name)) \<and>
      count_list (drop pos name) CHR ''*'' \<le> stars_allowed flags
    then \<exists>p l fl. check_refname_loop name pos flags n None =
        Inr (p, l, fl, n + length (split_slash (drop pos name)), None) \<and>
        p + l = length name \<and> fl AND REFNAME_ALLOW_ONELEVEL = flags AND REFNAME_ALLOW_ONELEVEL
    else check_refname_loop name pos flags n None = Inl None"
  using assms
proof (induction "length name - pos" arbitrary: pos flags n rule: less_induct)
  case less
  let ?s = "drop pos name" and ?w = "component (drop pos name)"
  note step = check_loop_step [OF less.prems, of flags n]
  have w: "drop (pos + length ?w) name = dropWhile (\<lambda>c. c \<noteq> CHR ''/'') ?s"
    using drop_component [of ?s] by (simp add: add.commute)
  show ?case
  proof (cases "dropWhile (\<lambda>c. c \<noteq> CHR ''/'') ?s")
    case Nil
    then have all: "?w = ?s"
      by (metis append_Nil2 takeWhile_dropWhile_id)
    have "pos + length ?w = length name"
      using less.prems(2) by (simp add: all)
    then show ?thesis
      unfolding step w Nil split_slash_last [OF Nil]
      by (simp add: all onelevel_after)
  next
    case (Cons x t)
    have x: "x = CHR ''/''"
      using Cons by (metis (mono_tags, lifting) dropWhile_eq_Cons_conv)
    have s: "?s = ?w @ CHR ''/'' # t"
      by (metis Cons takeWhile_dropWhile_id x)
    have t: "drop (pos + (length ?w + 1)) name = t"
      using w unfolding Cons by (metis add.assoc add.commute drop_drop drop_Suc drop_0 list.sel(3) plus_1_eq_Suc)
    have lt: "pos + length ?w < length name"
      using w Cons by (metis drop_all leI list.distinct(1))
    have stars: "count_list ?s CHR ''*'' = count_list ?w CHR ''*'' + count_list t CHR ''*''"
      by (subst s) simp
    have smaller: "length name - (pos + (length ?w + 1)) < length name - pos"
      and le: "pos + (length ?w + 1) \<le> length name"
      using lt by simp_all
    note IH = less.hyps [OF smaller less.prems(1) le, of "flags_after flags ?w" "n + 1", unfolded t]
    show ?thesis
    proof (cases "valid_component ?w \<and> count_list ?w CHR ''*'' \<le> stars_allowed flags")
      case True
      with IH show ?thesis
        unfolding step w Cons split_slash_more [OF Cons] stars
        by (auto simp: x stars_after onelevel_after)
    next
      case False
      then show ?thesis
        unfolding step split_slash_more [OF Cons] stars by auto
    qed
  qed
qed

text \<open>
  C25: \<open>check_refname_format\<close> accepts exactly the valid names: the components between slashes are
  non-empty, do not begin with a dot, contain no \<open>..\<close>, no at-sign with an opening brace and no forbidden character and do not end
  in \<open>.lock\<close>; the name is not \<open>@\<close> and does not end with a dot; there is no asterisk, or at most one
  in the whole name when patterns are allowed; and there are two components unless one is allowed.
\<close>

theorem check_refname_format_correct:
  assumes "cstr refname"
  shows "check_refname_format refname flags = (if valid_refname flags refname then 0 else -1)"
proof (cases "refname = ''@''")
  case True
  then show ?thesis
    by (simp add: check_refname_format_def check_or_sanitize_refname_def valid_refname_def)
next
  case False
  let ?ok = "list_all valid_component (split_slash refname) \<and> count_list refname CHR ''*'' \<le> stars_allowed flags"
  note loop = check_loop_correct [OF assms, of 0 flags 0, unfolded drop_0 add_0]
  show ?thesis
  proof (cases ?ok)
    case True
    with loop obtain p l fl where
      r: "check_refname_loop refname 0 flags 0 None = Inr (p, l, fl, length (split_slash refname), None)"
      "p + l = length refname" "fl AND REFNAME_ALLOW_ONELEVEL = flags AND REFNAME_ALLOW_ONELEVEL"
      by auto
    have "refname \<noteq> []"
      using True by (auto simp: split_slash_last valid_component_def)
    then have "refname ! (p + l - 1) = last refname" "p + l > 0"
      using r(2) by (simp_all add: last_conv_nth)
    with False True r show ?thesis
      by (auto simp: check_refname_format_def check_or_sanitize_refname_def valid_refname_def)
  next
    case no: False
    with loop have "check_refname_loop refname 0 flags 0 None = Inl None"
      by auto
    with False no show ?thesis
      by (auto simp: check_refname_format_def check_or_sanitize_refname_def valid_refname_def)
  qed
qed

lemma check_refname_format_correct_witness:
  "check_refname_format ''refs/heads/*'' REFNAME_REFSPEC_PATTERN = 0 \<and>
   valid_refname REFNAME_REFSPEC_PATTERN ''refs/heads/*''"
proof -
  have "check_refname_format ''refs/heads/*'' REFNAME_REFSPEC_PATTERN = 0"
    by code_simp
  with check_refname_format_correct [of "''refs/heads/*''" REFNAME_REFSPEC_PATTERN] show ?thesis
    by (simp split: if_splits)
qed

section \<open>What the sanitizer leaves behind\<close>

text \<open>
  The sanitizer keeps a trailing dot and a trailing slash, and dropping \<open>.lock\<close> can leave a lone
  \<open>@\<close>: none of these results is a name the check accepts.
\<close>

lemma sanitize_leaves_invalid:
  "sanitize_refname_component ''foo.'' [] = (0, Some ''foo.'')"
  "check_refname_format ''foo.'' REFNAME_ALLOW_ONELEVEL = -1"
  "sanitize_refname_component ''foo/'' [] = (0, Some ''foo/'')"
  "check_refname_format ''foo/'' REFNAME_ALLOW_ONELEVEL = -1"
  "sanitize_refname_component ''@.lock'' [] = (0, Some ''@'')"
  "check_refname_format ''@'' REFNAME_ALLOW_ONELEVEL = -1"
  by code_simp+

end
