(* ===== verification/Wildmatch.thy ===== *)
theory Wildmatch
  imports Prelude Ctype Hex
begin

text \<open>
  \<^verbatim>\<open>wildmatch.c\<close>: the glob matcher behind ignore rules, attributes, pathspecs and refspecs.
  Patterns and texts are NUL-terminated strings.  The characters behind \<open>p\<close> are not kept: the code
  looks only at the one before a double asterisk, which is the argument \<open>before\<close>, \<open>None\<close> at the start
  of the pattern the current call of \<open>dowild\<close> was given.
\<close>

datatype wm_result = WM_MATCH | WM_NOMATCH | WM_ABORT_ALL | WM_ABORT_TO_STARSTAR

definition WM_CASEFOLD :: nat where "WM_CASEFOLD = 1"
definition WM_PATHNAME :: nat where "WM_PATHNAME = 2"

abbreviation STAR :: char where "STAR \<equiv> CHR ''*''"
abbreviation SLASH :: char where "SLASH \<equiv> CHR ''/''"
abbreviation BSLASH :: char where "BSLASH \<equiv> CHR 0x5C"

definition pathname :: "nat \<Rightarrow> bool" where "pathname flags \<longleftrightarrow> flags AND WM_PATHNAME \<noteq> 0"
definition casefold :: "nat \<Rightarrow> bool" where "casefold flags \<longleftrightarrow> flags AND WM_CASEFOLD \<noteq> 0"

definition wm_fold :: "nat \<Rightarrow> char \<Rightarrow> char" where
  "wm_fold flags c = (if casefold flags \<and> isupper c then tolower c else c)"

section \<open>Bracket expressions\<close>

definition ch_le :: "char \<Rightarrow> char \<Rightarrow> bool" where
  "ch_le a b \<longleftrightarrow> (of_char a :: nat) \<le> of_char b"

text \<open>The named classes; \<open>None\<close> is a malformed name.\<close>

definition wm_class :: "nat \<Rightarrow> char \<Rightarrow> string \<Rightarrow> bool option" where
  "wm_class flags t_ch s =
     (if s = ''alnum'' then Some (isalnum t_ch)
      else if s = ''alpha'' then Some (isalpha t_ch)
      else if s = ''blank'' then Some (t_ch = CHR '' '' \<or> t_ch = CHR 0x09)
      else if s = ''cntrl'' then Some (iscntrl t_ch)
      else if s = ''digit'' then Some (isdigit t_ch)
      else if s = ''graph'' then Some (isprint t_ch \<and> \<not> isspace t_ch)
      else if s = ''lower'' then Some (islower t_ch)
      else if s = ''print'' then Some (isprint t_ch)
      else if s = ''punct'' then Some (ispunct t_ch)
      else if s = ''space'' then Some (isspace t_ch)
      else if s = ''upper'' then Some (isupper t_ch \<or> casefold flags \<and> islower t_ch)
      else if s = ''xdigit'' then Some (isxdigit t_ch)
      else None)"

definition wm_range :: "nat \<Rightarrow> char \<Rightarrow> char \<Rightarrow> char \<Rightarrow> bool" where
  "wm_range flags t_ch prev_ch p_ch \<longleftrightarrow>
     ch_le t_ch p_ch \<and> ch_le prev_ch t_ch \<or>
     casefold flags \<and> islower t_ch \<and> ch_le (toupper t_ch) p_ch \<and> ch_le prev_ch (toupper t_ch)"

text \<open>
  One round of the \<open>do\<close> loop, at the character \<open>p_ch\<close> with \<open>p\<close> behind it.  \<open>None\<close> is
  \<open>WM_ABORT_ALL\<close>; otherwise the result is the new \<open>prev_ch\<close>, the text the loop goes on with and
  whether this round matched.
\<close>

definition wm_bracket_step ::
  "nat \<Rightarrow> char \<Rightarrow> char \<Rightarrow> string \<Rightarrow> char \<Rightarrow> (char \<times> string \<times> bool) option" where
  "wm_bracket_step flags t_ch p_ch p prev_ch =
     (if p_ch = BSLASH then
        (case p of [] \<Rightarrow> None | d # p \<Rightarrow> Some (d, p, t_ch = d))
      else if p_ch = CHR ''-'' \<and> prev_ch \<noteq> NUL \<and> p \<noteq> [] \<and> hd p \<noteq> CHR '']'' then
        (if hd p = BSLASH then
           (case tl p of [] \<Rightarrow> None | d # p \<Rightarrow> Some (NUL, p, wm_range flags t_ch prev_ch d))
         else Some (NUL, tl p, wm_range flags t_ch prev_ch (hd p)))
      else if p_ch = CHR ''['' \<and> cur p = CHR '':'' then
        (let name = takeWhile (\<lambda>c. c \<noteq> CHR '']'') (tl p);
             rest = dropWhile (\<lambda>c. c \<noteq> CHR '']'') (tl p) in
         if rest = [] then None
         else if name = [] \<or> last name \<noteq> CHR '':'' then Some (CHR ''['', p, t_ch = CHR ''['')
         else case wm_class flags t_ch (butlast name) of
             None \<Rightarrow> None
           | Some m \<Rightarrow> Some (NUL, tl rest, m))
      else Some (p_ch, p, t_ch = p_ch))"

lemma wm_bracket_step_length:
  "wm_bracket_step flags t_ch p_ch p prev_ch = Some (prev, p2, m) \<Longrightarrow> length p2 \<le> length p"
proof -
  have "length (tl (dropWhile (\<lambda>c. c \<noteq> CHR '']'') (tl p))) \<le> length p"
    using length_dropWhile_le [of "\<lambda>c. c \<noteq> CHR '']''" "tl p"] by simp
  then show "wm_bracket_step flags t_ch p_ch p prev_ch = Some (prev, p2, m) \<Longrightarrow> length p2 \<le> length p"
    by (auto simp: wm_bracket_step_def Let_def split: if_splits list.splits option.splits
        dest!: arg_cong [where f = length])
qed

text \<open>The loop itself: its result is \<open>matched\<close> and the text from the closing bracket on.\<close>

function (sequential) wm_bracket ::
  "nat \<Rightarrow> char \<Rightarrow> string \<Rightarrow> char \<Rightarrow> bool \<Rightarrow> (bool \<times> string) option" where
  "wm_bracket flags t_ch [] prev_ch matched = None"
| "wm_bracket flags t_ch (p_ch # p) prev_ch matched =
     (case wm_bracket_step flags t_ch p_ch p prev_ch of
        None \<Rightarrow> None
      | Some (prev_ch, p2, m) \<Rightarrow>
          if cur p2 = CHR '']'' then Some (matched \<or> m, p2)
          else wm_bracket flags t_ch p2 prev_ch (matched \<or> m))"
  by pat_completeness auto
termination
  by (relation "measure (\<lambda>(flags, t_ch, p, prev_ch, matched). length p)")
    (auto dest!: sym [of "Some _"] wm_bracket_step_length)

declare wm_bracket.simps [simp del]

lemma wm_bracket_length: "wm_bracket flags t_ch p prev_ch matched = Some (m, rest) \<Longrightarrow> length rest \<le> length p"
  by (induction flags t_ch p prev_ch matched arbitrary: m rest rule: wm_bracket.induct)
    (fastforce simp: wm_bracket.simps split: option.splits prod.splits if_splits dest: wm_bracket_step_length)+

text \<open>The whole case of \<open>[\<close>: the argument is the text behind the bracket.\<close>

definition wm_set :: "nat \<Rightarrow> char \<Rightarrow> string \<Rightarrow> (bool \<times> string) option" where
  "wm_set flags t_ch p =
     (let p_ch = (if cur p = CHR ''^'' then CHR ''!'' else cur p);
          negated = (p_ch = CHR ''!'');
          p = (if negated then tl p else p) in
      case wm_bracket flags t_ch p NUL False of
        None \<Rightarrow> None
      | Some (matched, rest) \<Rightarrow> Some (\<not> (matched = negated \<or> pathname flags \<and> t_ch = SLASH), tl rest))"

lemma wm_set_length: "wm_set flags t_ch p = Some (m, rest) \<Longrightarrow> length rest \<le> length p"
  by (auto simp: wm_set_def Let_def split: option.splits prod.splits if_splits dest!: wm_bracket_length)

section \<open>The matcher\<close>

text \<open>
  The \<open>while (1)\<close> loop of an asterisk: \<open>p\<close> is the pattern behind the asterisks and \<open>dw text\<close> the
  recursive call on \<open>p\<close>.  The variable \<open>t_ch\<close> is compared with NUL and the slash only, which folding
  does not change, so it is read from the text.
\<close>

function (sequential) wm_star_loop ::
  "nat \<Rightarrow> bool \<Rightarrow> string \<Rightarrow> (string \<Rightarrow> wm_result) \<Rightarrow> string \<Rightarrow> wm_result" where
  "wm_star_loop flags match_slash p dw text =
     (if text = [] then WM_ABORT_ALL
      else
        let p_ch = wm_fold flags (cur p);
            literal = (\<not> is_glob_special (cur p));
            text = (if literal
                    then dropWhile (\<lambda>t. (match_slash \<or> t \<noteq> SLASH) \<and> wm_fold flags t \<noteq> p_ch) text
                    else text) in
        if literal \<and> wm_fold flags (cur text) \<noteq> p_ch
        then (if match_slash then WM_ABORT_ALL else WM_ABORT_TO_STARSTAR)
        else
          let matched = dw text in
          if matched \<noteq> WM_NOMATCH \<and> (\<not> match_slash \<or> matched \<noteq> WM_ABORT_TO_STARSTAR) then matched
          else if matched = WM_NOMATCH \<and> \<not> match_slash \<and> cur text = SLASH then WM_ABORT_TO_STARSTAR
          else wm_star_loop flags match_slash p dw (tl text))"
  by pat_completeness auto
termination
proof (relation "measure (\<lambda>(flags, match_slash, p, dw, text). length text)")
  fix flags :: nat and match_slash literal :: bool and p tx tx2 :: string and dw and p_ch :: char and m :: wm_result
  assume "tx \<noteq> []" and t: "tx2 = (if literal
      then dropWhile (\<lambda>t. (match_slash \<or> t \<noteq> SLASH) \<and> wm_fold flags t \<noteq> p_ch) tx else tx)"
  then have "length (tl tx2) < length tx"
    using length_dropWhile_le [of "\<lambda>t. (match_slash \<or> t \<noteq> SLASH) \<and> wm_fold flags t \<noteq> p_ch" tx]
    by (auto simp: neq_Nil_conv)
  then show "((flags, match_slash, p, dw, tl tx2), (flags, match_slash, p, dw, tx))
      \<in> measure (\<lambda>(flags, match_slash, p, dw, tx). length tx)"
    by simp
qed simp

declare wm_star_loop.simps [simp del]

function (sequential) dowild :: "nat \<Rightarrow> char option \<Rightarrow> string \<Rightarrow> string \<Rightarrow> wm_result" where
  "dowild flags before [] text = (if text \<noteq> [] then WM_NOMATCH else WM_MATCH)"
| "dowild flags before (c # p) text =
     (if text = [] \<and> c \<noteq> STAR then WM_ABORT_ALL
      else
        let t_ch = wm_fold flags (cur text);
            p_ch = wm_fold flags c in
        if p_ch = BSLASH then
          if p = [] \<or> t_ch \<noteq> hd p then WM_NOMATCH
          else dowild flags (Some (hd p)) (tl p) (tl text)
        else if p_ch = CHR ''?'' then
          if pathname flags \<and> t_ch = SLASH then WM_NOMATCH
          else dowild flags (Some c) p (tl text)
        else if p_ch = STAR then
          let q = dropWhile (\<lambda>x. x = STAR) p;
              proper = ((before = None \<or> before = Some SLASH) \<and>
                        (q = [] \<or> hd q = SLASH \<or> hd q = BSLASH \<and> cur (tl q) = SLASH));
              starstar = (cur p = STAR);
              match_slash = (\<not> pathname flags \<or> starstar \<and> proper) in
          if starstar \<and> pathname flags \<and> proper \<and> cur q = SLASH \<and>
             dowild flags None (tl q) text = WM_MATCH
          then WM_MATCH
          else if q = [] then
            (if \<not> match_slash \<and> SLASH \<in> set text then WM_ABORT_TO_STARSTAR else WM_MATCH)
          else if \<not> match_slash \<and> hd q = SLASH then
            (case dropWhile (\<lambda>t. t \<noteq> SLASH) text of
               [] \<Rightarrow> WM_ABORT_ALL
             | _ # text \<Rightarrow> dowild flags (Some SLASH) (tl q) text)
          else wm_star_loop flags match_slash q (\<lambda>text. dowild flags None q text) text
        else if p_ch = CHR ''['' then
          (case wm_set flags t_ch p of
             None \<Rightarrow> WM_ABORT_ALL
           | Some (ok, rest) \<Rightarrow>
               if \<not> ok then WM_NOMATCH else dowild flags (Some CHR '']'') rest (tl text))
        else if t_ch \<noteq> p_ch then WM_NOMATCH
        else dowild flags (Some c) p (tl text))"
  by pat_completeness auto
termination
proof (relation "measure (\<lambda>(flags, before, p, text). length p)")
qed (auto simp: less_Suc_eq_le dest: sym [of "Some _"] wm_set_length
    intro: le_trans [OF _ length_dropWhile_le [of "\<lambda>x. x = STAR"]])

declare dowild.simps [simp del]

definition wildmatch :: "string \<Rightarrow> string \<Rightarrow> nat \<Rightarrow> wm_result" where
  "wildmatch pattern text flags =
     (let res = dowild flags None pattern text in
      if res = WM_MATCH then WM_MATCH else WM_NOMATCH)"

section \<open>What a pattern means\<close>

text \<open>
  The specification, without the abort codes and the searches: \<open>start\<close> holds at the beginning of the
  pattern and behind a slash.  An asterisk matches any text, without slashes unless \<open>ms\<close> holds.
\<close>

fun star_any :: "bool \<Rightarrow> (string \<Rightarrow> bool) \<Rightarrow> string \<Rightarrow> bool" where
  "star_any ms f [] = f []"
| "star_any ms f (c # t) \<longleftrightarrow> f (c # t) \<or> (ms \<or> c \<noteq> SLASH) \<and> star_any ms f t"

text \<open>
  A pattern element other than an asterisk: whether it matches \<open>t_ch\<close>, its last character and the
  pattern behind it, or \<open>None\<close> for a malformed bracket expression.
\<close>

definition wm_token :: "nat \<Rightarrow> char \<Rightarrow> string \<Rightarrow> char \<Rightarrow> (bool \<times> char \<times> string) option" where
  "wm_token flags c p t_ch =
     (if c = BSLASH then
        if p = [] then Some (False, c, []) else Some (t_ch = hd p, hd p, tl p)
      else if c = CHR ''?'' then Some (\<not> (pathname flags \<and> t_ch = SLASH), c, p)
      else if c = CHR ''['' then
        map_option (\<lambda>(ok, rest). (ok, CHR '']'', rest)) (wm_set flags t_ch p)
      else Some (t_ch = wm_fold flags c, c, p))"

lemma wm_token_length: "wm_token flags c p t_ch = Some (ok, b, rest) \<Longrightarrow> length rest \<le> length p"
  by (auto simp: wm_token_def split: if_splits dest: wm_set_length)

function (sequential) wm_spec :: "nat \<Rightarrow> bool \<Rightarrow> string \<Rightarrow> string \<Rightarrow> bool" where
  "wm_spec flags start [] t \<longleftrightarrow> t = []"
| "wm_spec flags start (c # p) t \<longleftrightarrow>
     (if c = STAR then
        let q = dropWhile (\<lambda>x. x = STAR) p;
            whole = (cur p = STAR \<and> start \<and> (q = [] \<or> hd q = SLASH \<or> hd q = BSLASH \<and> cur (tl q) = SLASH)) in
        pathname flags \<and> whole \<and> cur q = SLASH \<and> wm_spec flags True (tl q) t \<or>
        star_any (\<not> pathname flags \<or> whole) (\<lambda>t. wm_spec flags False q t) t
      else case t of [] \<Rightarrow> False
        | t_ch # t \<Rightarrow>
            (case wm_token flags c p (wm_fold flags t_ch) of None \<Rightarrow> False
             | Some (ok, b, rest) \<Rightarrow> ok \<and> wm_spec flags (b = SLASH) rest t))"
  by pat_completeness auto
termination
proof (relation "measure (\<lambda>(flags, start, p, t). length p)")
qed (auto simp: less_Suc_eq_le dest: sym [of "Some _"] wm_token_length
    intro: le_trans [OF _ length_dropWhile_le [of "\<lambda>x. x = STAR"]])

declare wm_spec.simps [simp del]

section \<open>Elements\<close>

lemma wm_fold_eq:
  assumes "d \<in> {NUL, BSLASH, CHR ''?'', CHR ''['', STAR, SLASH}"
  shows "wm_fold flags c = d \<longleftrightarrow> c = d"
proof (cases "casefold flags \<and> isupper c")
  case True
  then have "(of_char (tolower c) :: nat) = of_char c + 32" "65 \<le> (of_char c :: nat)" "of_char c < (91 :: nat)"
    by (simp_all add: tolower_code isupper_code)
  then have "97 \<le> (of_char (tolower c) :: nat)" "(of_char (tolower c) :: nat) < 123" by simp_all
  with assms have "tolower c \<noteq> d" by auto
  moreover have "c \<noteq> d"
    using assms True by (auto simp: isupper_code)
  ultimately show ?thesis using True by (simp add: wm_fold_def)
qed (auto simp: wm_fold_def)

lemmas wm_fold_eqs [simp] =
  wm_fold_eq [where d = NUL, simplified] wm_fold_eq [where d = BSLASH, simplified]
  wm_fold_eq [where d = "CHR ''?''", simplified] wm_fold_eq [where d = "CHR ''[''", simplified]
  wm_fold_eq [where d = STAR, simplified] wm_fold_eq [where d = SLASH, simplified]

lemma wm_fold_slash [simp]: "wm_fold flags SLASH = SLASH"
  by (simp add: wm_fold_eqs)

lemma wm_class_indep: "wm_class flags t1 s = None \<longleftrightarrow> wm_class flags t2 s = None"
  by (simp add: wm_class_def)

lemma wm_bracket_step_indep:
  "map_option (\<lambda>(a, b, m). (a, b)) (wm_bracket_step flags t1 c p prev) =
   map_option (\<lambda>(a, b, m). (a, b)) (wm_bracket_step flags t2 c p prev)"
proof -
  let ?h = "\<lambda>(a :: char, b :: string, m :: bool). (a, b)"
  have key: "map_option ?h (case wm_class flags t1 n of None \<Rightarrow> None | Some m \<Rightarrow> Some (NUL, r, m)) =
      map_option ?h (case wm_class flags t2 n of None \<Rightarrow> None | Some m \<Rightarrow> Some (NUL, r, m))" for n r
    using wm_class_indep [of flags t1 n t2] by (auto split: option.splits)
  define name rest where "name = takeWhile (\<lambda>c. c \<noteq> CHR '']'') (tl p)"
    and "rest = dropWhile (\<lambda>c. c \<noteq> CHR '']'') (tl p)"
  note step = wm_bracket_step_def [of flags _ c p prev, unfolded Let_def, folded name_def rest_def]
  consider "c = BSLASH" | "c \<noteq> BSLASH" "c = CHR ''-'' \<and> prev \<noteq> NUL \<and> p \<noteq> [] \<and> hd p \<noteq> CHR '']''"
    | "c \<noteq> BSLASH" "\<not> (c = CHR ''-'' \<and> prev \<noteq> NUL \<and> p \<noteq> [] \<and> hd p \<noteq> CHR '']'')"
      "c = CHR ''['' \<and> cur p = CHR '':''"
    | "c \<noteq> BSLASH" "\<not> (c = CHR ''-'' \<and> prev \<noteq> NUL \<and> p \<noteq> [] \<and> hd p \<noteq> CHR '']'')"
      "\<not> (c = CHR ''['' \<and> cur p = CHR '':'')"
    by argo
  then show ?thesis
  proof cases
    case 1
    then show ?thesis unfolding step by (cases p) simp_all
  next
    case 2
    then show ?thesis unfolding step by (cases "tl p") simp_all
  next
    case 3
    then show ?thesis
      unfolding step by (simp only: if_not_P if_P simp_thms) (simp add: key del: map_option_case)
  next
    case 4
    then show ?thesis
      unfolding step by (simp only: if_not_P simp_thms) simp
  qed
qed

lemma wm_bracket_indep:
  "map_option snd (wm_bracket flags t1 p prev m1) = map_option snd (wm_bracket flags t2 p prev m2)"
proof (induction "length p" arbitrary: p prev m1 m2 rule: less_induct)
  case less
  show ?case
  proof (cases p)
    case (Cons c r)
    show ?thesis
    proof (cases "wm_bracket_step flags t1 c r prev")
      case None
      then have "wm_bracket_step flags t2 c r prev = None"
        using wm_bracket_step_indep [of flags t1 c r prev t2] by simp
      with None Cons show ?thesis by (simp add: wm_bracket.simps)
    next
      case (Some x)
      then obtain a b m where s1: "wm_bracket_step flags t1 c r prev = Some (a, b, m)"
        by (cases x) auto
      then obtain m' where s2: "wm_bracket_step flags t2 c r prev = Some (a, b, m')"
        using wm_bracket_step_indep [of flags t1 c r prev t2]
        by (cases "wm_bracket_step flags t2 c r prev") auto
      have "length b < length p"
        using wm_bracket_step_length [OF s1] Cons by simp
      from less [OF this] s1 s2 Cons show ?thesis by (simp add: wm_bracket.simps)
    qed
  qed (simp add: wm_bracket.simps)
qed

lemma wm_set_eq:
  "\<exists>s negated. \<forall>t. wm_set flags t p =
     map_option (\<lambda>x. (\<not> (fst x = negated \<or> pathname flags \<and> t = SLASH), tl (snd x)))
       (wm_bracket flags t s NUL False)"
proof (intro exI allI)
  let ?n = "(if cur p = CHR ''^'' then CHR ''!'' else cur p) = CHR ''!''"
  show "wm_set flags t p =
     map_option (\<lambda>x. (\<not> (fst x = ?n \<or> pathname flags \<and> t = SLASH), tl (snd x)))
       (wm_bracket flags t (if ?n then tl p else p) NUL False)" for t
    unfolding wm_set_def Let_def by (auto split: option.splits prod.splits)
qed

lemma wm_set_indep: "map_option snd (wm_set flags t1 p) = map_option snd (wm_set flags t2 p)"
proof -
  obtain s negated where eq: "\<And>t. wm_set flags t p =
     map_option (\<lambda>x. (\<not> (fst x = negated \<or> pathname flags \<and> t = SLASH), tl (snd x)))
       (wm_bracket flags t s NUL False)"
    using wm_set_eq [of flags p] by blast
  have "map_option (\<lambda>x. tl (snd x)) (wm_bracket flags t1 s NUL False) =
      map_option (\<lambda>x. tl (snd x)) (wm_bracket flags t2 s NUL False)"
    using arg_cong [OF wm_bracket_indep [of flags t1 s NUL False t2 False], of "map_option tl"]
    by (simp add: option.map_comp comp_def)
  then show ?thesis
    by (simp add: eq option.map_comp comp_def)
qed

lemma wm_bracket_step_set:
  "wm_bracket_step flags t_ch p_ch p prev_ch = Some (prev, p2, m) \<Longrightarrow> set p2 \<subseteq> set p"
proof -
  have "set (tl x) \<subseteq> set x" for x :: string
    by (cases x) auto
  then have "set (tl (dropWhile (\<lambda>c. c \<noteq> CHR '']'') (tl p))) \<subseteq> set p" "set (tl p) \<subseteq> set p" "set (tl (tl p)) \<subseteq> set p"
    by (meson order_trans set_dropWhileD subsetI)+
  then show "wm_bracket_step flags t_ch p_ch p prev_ch = Some (prev, p2, m) \<Longrightarrow> set p2 \<subseteq> set p"
    by (auto simp: wm_bracket_step_def Let_def split: if_splits list.splits option.splits)
qed

lemma wm_bracket_set: "wm_bracket flags t_ch p prev_ch matched = Some (m, rest) \<Longrightarrow> set rest \<subseteq> set p"
proof (induction flags t_ch p prev_ch matched arbitrary: m rest rule: wm_bracket.induct)
  case (2 flags t_ch p_ch p prev_ch matched)
  then show ?case
    by (fastforce simp: wm_bracket.simps split: option.splits prod.splits if_splits dest: wm_bracket_step_set)
qed (simp add: wm_bracket.simps)

lemma wm_token_set: "wm_token flags c p t_ch = Some (ok, b, rest) \<Longrightarrow> set rest \<subseteq> set p"
proof -
  have tl: "set (tl x) \<subseteq> set x" for x :: string
    by (cases x) auto
  have "set rest \<subseteq> set p" if "wm_set flags t_ch p = Some (ok, rest)" for ok
  proof -
    define n where "n = ((if cur p = CHR ''^'' then CHR ''!'' else cur p) = CHR ''!'')"
    define s where "s = (if n then tl p else p)"
    have "\<exists>m r. wm_bracket flags t_ch s NUL False = Some (m, r) \<and> rest = tl r"
      using that unfolding wm_set_def Let_def n_def [symmetric] s_def [symmetric]
      by (auto split: option.splits prod.splits)
    moreover have "set s \<subseteq> set p"
      using tl [of p] by (simp add: s_def)
    ultimately obtain m r where "wm_bracket flags t_ch s NUL False = Some (m, r)" "rest = tl r" "set s \<subseteq> set p"
      by blast
    then show ?thesis
      using wm_bracket_set tl by (metis order_trans)
  qed
  then show "wm_token flags c p t_ch = Some (ok, b, rest) \<Longrightarrow> set rest \<subseteq> set p"
    using tl [of p] by (auto simp: wm_token_def split: if_splits)
qed

lemma wm_token_indep: "map_option snd (wm_token flags c p t1) = map_option snd (wm_token flags c p t2)"
proof -
  have "map_option (\<lambda>x. (CHR '']'', snd x)) (wm_set flags t1 p) = map_option (\<lambda>x. (CHR '']'', snd x)) (wm_set flags t2 p)"
    using arg_cong [OF wm_set_indep [of flags t1 p t2], of "map_option (Pair CHR '']'')"]
    by (simp add: option.map_comp comp_def)
  then show ?thesis
    by (simp add: wm_token_def option.map_comp comp_def case_prod_unfold)
qed

lemma wm_token_slash:
  "wm_token flags c p t_ch = Some (True, SLASH, rest) \<Longrightarrow> t_ch = SLASH"
  by (auto simp: wm_token_def split: if_splits)

lemma wm_token_pathname:
  "pathname flags \<Longrightarrow> c \<noteq> STAR \<Longrightarrow> wm_token flags c p SLASH = Some (True, b, rest) \<Longrightarrow> b = SLASH"
  using wm_set_eq [of flags p] eq_commute [of SLASH "wm_fold flags c"]
  by (auto simp: wm_token_def split: if_splits)

lemma dowild_token:
  "c \<noteq> STAR \<Longrightarrow> text \<noteq> [] \<Longrightarrow> dowild flags before (c # p) text =
    (case wm_token flags c p (wm_fold flags (cur text)) of
       None \<Rightarrow> WM_ABORT_ALL
     | Some (ok, b, rest) \<Rightarrow> if ok then dowild flags (Some b) rest (tl text) else WM_NOMATCH)"
  by (subst dowild.simps, cases "c = BSLASH"; cases "c = CHR ''?''"; cases "c = CHR ''[''")
    (simp_all add: wm_token_def Let_def option.case_eq_if case_prod_unfold option.map_sel)

section \<open>The search of an asterisk\<close>

lemma star_any_iff: "star_any ms f t \<longleftrightarrow> (\<exists>u v. t = u @ v \<and> (ms \<or> SLASH \<notin> set u) \<and> f v)"
proof (induction t)
  case (Cons c t)
  show ?case
  proof
    assume "star_any ms f (c # t)"
    then consider "f (c # t)" | "ms \<or> c \<noteq> SLASH" "star_any ms f t" by auto
    then show "\<exists>u v. c # t = u @ v \<and> (ms \<or> SLASH \<notin> set u) \<and> f v"
    proof cases
      case 1
      then show ?thesis by (intro exI [of _ "[]"] exI [of _ "c # t"]) simp
    next
      case 2
      then obtain u v where "t = u @ v" "ms \<or> SLASH \<notin> set u" "f v" using Cons by blast
      with 2 show ?thesis by (intro exI [of _ "c # u"] exI [of _ v]) auto
    qed
  next
    assume "\<exists>u v. c # t = u @ v \<and> (ms \<or> SLASH \<notin> set u) \<and> f v"
    then obtain u v where uv: "c # t = u @ v" "ms \<or> SLASH \<notin> set u" "f v" by blast
    show "star_any ms f (c # t)"
    proof (cases u)
      case Nil
      with uv show ?thesis by (metis append_Nil star_any.simps(2))
    next
      case (Cons d u2)
      with uv have "star_any ms f t" using Cons.IH by auto
      with Cons uv show ?thesis by auto
    qed
  qed
qed simp

definition refuted :: "(string \<Rightarrow> bool) \<Rightarrow> (string \<Rightarrow> bool) \<Rightarrow> string \<Rightarrow> bool" where
  "refuted F ok t \<longleftrightarrow> (\<forall>u v. t = u @ v \<and> ok u \<longrightarrow> \<not> F v)"

definition star_result :: "bool \<Rightarrow> (string \<Rightarrow> bool) \<Rightarrow> string \<Rightarrow> wm_result \<Rightarrow> bool" where
  "star_result ms F t r \<longleftrightarrow>
     (r = WM_MATCH \<longleftrightarrow> star_any ms F t) \<and> r \<noteq> WM_NOMATCH \<and>
     (r = WM_ABORT_ALL \<longrightarrow> refuted F (\<lambda>u. True) t) \<and>
     (r = WM_ABORT_TO_STARSTAR \<longrightarrow> \<not> ms \<and> refuted F (\<lambda>u. SLASH \<notin> set u) t)"

lemma refuted_skip:
  assumes "\<And>u v. s @ t = u @ v \<Longrightarrow> F v \<Longrightarrow> \<exists>x. u = s @ x \<and> t = x @ v"
    and "refuted F ok2 t" "\<And>x. ok (s @ x) \<Longrightarrow> ok2 x"
  shows "refuted F ok (s @ t)"
  unfolding refuted_def
proof (intro allI impI notI)
  fix u v
  assume uv: "s @ t = u @ v \<and> ok u" and "F v"
  then obtain x where x: "u = s @ x" "t = x @ v" using assms(1) by blast
  with uv assms(3) have "ok2 x" by blast
  with assms(2) x(2) \<open>F v\<close> show False by (auto simp: refuted_def)
qed

lemma star_any_skip:
  assumes "\<And>u v. s @ t = u @ v \<Longrightarrow> F v \<Longrightarrow> \<exists>x. u = s @ x \<and> t = x @ v" "ms \<or> SLASH \<notin> set s"
  shows "star_any ms F (s @ t) \<longleftrightarrow> star_any ms F t"
proof
  assume "star_any ms F (s @ t)"
  then obtain u v where uv: "s @ t = u @ v" "ms \<or> SLASH \<notin> set u" "F v"
    unfolding star_any_iff by blast
  obtain x where "u = s @ x" "t = x @ v" using assms(1) [OF uv(1,3)] by blast
  with uv show "star_any ms F t"
    unfolding star_any_iff by (intro exI [of _ x] exI [of _ v]) auto
next
  assume "star_any ms F t"
  then obtain u v where "t = u @ v" "ms \<or> SLASH \<notin> set u" "F v"
    unfolding star_any_iff by blast
  with assms(2) show "star_any ms F (s @ t)"
    unfolding star_any_iff by (intro exI [of _ "s @ u"] exI [of _ v]) auto
qed

lemma star_result_skip:
  assumes "\<And>u v. s @ t = u @ v \<Longrightarrow> F v \<Longrightarrow> \<exists>x. u = s @ x \<and> t = x @ v" "ms \<or> SLASH \<notin> set s"
    and "star_result ms F t r"
  shows "star_result ms F (s @ t) r"
proof -
  have "refuted F (\<lambda>u. True) (s @ t)" if "refuted F (\<lambda>u. True) t"
    using refuted_skip [OF assms(1) that] by blast
  moreover have "refuted F (\<lambda>u. SLASH \<notin> set u) (s @ t)" if "refuted F (\<lambda>u. SLASH \<notin> set u) t"
    by (rule refuted_skip [OF assms(1) that]) auto
  ultimately show ?thesis
    using assms(3) star_any_skip [OF assms(1,2)] by (simp add: star_result_def)
qed

lemma not_head_suffix:
  assumes "\<not> F (c # t)" "c # t = u @ v" "F v"
  shows "\<exists>x. u = [c] @ x \<and> t = x @ v"
  using assms by (cases u) auto

lemma star_result_next:
  assumes "\<not> F (c # t)" "ms \<or> c \<noteq> SLASH" "star_result ms F t r"
  shows "star_result ms F (c # t) r"
proof -
  have "\<exists>x. u = [c] @ x \<and> t = x @ v" if "[c] @ t = u @ v" "F v" for u v
    using not_head_suffix [of F c t u v] assms(1) that by simp
  from star_result_skip [OF this _ assms(3)] assms(2) show ?thesis by auto
qed

text \<open>What the search relies on: the recursive call decides \<open>F\<close> and its abort codes are right.\<close>

definition sound_call :: "nat \<Rightarrow> string \<Rightarrow> (string \<Rightarrow> wm_result) \<Rightarrow> (string \<Rightarrow> bool) \<Rightarrow> bool" where
  "sound_call flags p dw F \<longleftrightarrow>
     cur p \<noteq> NUL \<and> \<not> F [] \<and>
     (\<forall>w. dw w = WM_MATCH \<longleftrightarrow> F w) \<and>
     (\<forall>w. dw w = WM_ABORT_ALL \<longrightarrow> refuted F (\<lambda>u. True) w) \<and>
     (\<forall>w. dw w = WM_ABORT_TO_STARSTAR \<longrightarrow> refuted F (\<lambda>u. SLASH \<notin> set u) w) \<and>
     (\<forall>w. \<not> is_glob_special (cur p) \<longrightarrow> F w \<longrightarrow> w \<noteq> [] \<and> wm_fold flags (hd w) = wm_fold flags (cur p))"

lemma wm_star_loop_correct:
  assumes "sound_call flags p dw F"
  shows "star_result ms F t (wm_star_loop flags ms p dw t)"
proof (induction "length t" arbitrary: t rule: less_induct)
  case less
  note sound = assms [unfolded sound_call_def]
  show ?case
  proof (cases "t = []")
    case True
    with sound show ?thesis
      by (subst wm_star_loop.simps) (simp add: star_result_def refuted_def)
  next
    case False
    let ?lit = "\<not> is_glob_special (cur p)" and ?pc = "wm_fold flags (cur p)"
    let ?Q = "\<lambda>t. (ms \<or> t \<noteq> SLASH) \<and> wm_fold flags t \<noteq> ?pc"
    define s where "s = (if ?lit then takeWhile ?Q t else [])"
    define t2 where "t2 = (if ?lit then dropWhile ?Q t else t)"
    have t: "t = s @ t2"
      by (simp add: s_def t2_def)
    have sQ: "?Q c" if "c \<in> set s" for c
      using that set_takeWhileD [of c ?Q t] by (auto simp: s_def split: if_splits)
    have skip: "\<exists>x. u = s @ x \<and> t2 = x @ v" if "s @ t2 = u @ v" "F v" for u v
    proof (cases "length u \<ge> length s")
      case True
      with that(1) show ?thesis by (auto simp: append_eq_append_conv2)
    next
      case no: False
      define z where "z = drop (length u) s"
      have "u = take (length u) s"
        using that(1) no by (metis append_eq_conv_conj le_cases take_all_iff take_append take_eq_Nil2 diff_is_0_eq append_Nil2)
      then have z: "s = u @ z" "z \<noteq> []"
        using no by (simp_all add: z_def) (metis append_take_drop_id)
      then have "z @ t2 = v"
        using that(1) by simp
      note z = z(1) this z(2)
      have "?lit"
        using z by (auto simp: s_def split: if_splits)
      then have "wm_fold flags (hd v) = ?pc"
        using sound that(2) by blast
      moreover have "hd v \<in> set s"
        using z by (cases z) auto
      ultimately show ?thesis using sQ by blast
    qed
    have ms_s: "ms \<or> SLASH \<notin> set s"
      using sQ by blast
    have loop: "wm_star_loop flags ms p dw t =
        (if ?lit \<and> wm_fold flags (cur t2) \<noteq> ?pc then (if ms then WM_ABORT_ALL else WM_ABORT_TO_STARSTAR)
         else if dw t2 \<noteq> WM_NOMATCH \<and> (\<not> ms \<or> dw t2 \<noteq> WM_ABORT_TO_STARSTAR) then dw t2
         else if dw t2 = WM_NOMATCH \<and> \<not> ms \<and> cur t2 = SLASH then WM_ABORT_TO_STARSTAR
         else wm_star_loop flags ms p dw (tl t2))"
      using False by (subst wm_star_loop.simps) (simp only: if_False Let_def t2_def)
    have shorter: "length (tl t2) < length t"
      using False t by (cases t2) auto
    have "star_result ms F t2 (wm_star_loop flags ms p dw t)"
    proof (cases "?lit \<and> wm_fold flags (cur t2) \<noteq> ?pc")
      case True
      have nF: "\<not> F t2"
        using sound True by (cases t2) auto
      have stop: "t2 = [] \<or> \<not> ?Q (hd t2)"
        using True hd_dropWhile [of ?Q t] by (auto simp: t2_def)
      then have "ms \<Longrightarrow> t2 = []" "t2 \<noteq> [] \<Longrightarrow> hd t2 = SLASH"
        using True by (cases t2; auto)+
      then have "refuted F (\<lambda>u. ms \<or> SLASH \<notin> set u) t2"
        using nF unfolding refuted_def by (metis append_Nil append_is_Nil_conv hd_append list.set_sel(1))
      then show ?thesis
        using True unfolding loop star_result_def star_any_iff
        by (cases ms) (auto simp: refuted_def)
    next
      case go: False
      have ne: "t2 \<noteq> []"
      proof (cases ?lit)
        case True
        with go have "wm_fold flags (cur t2) = ?pc" by simp
        moreover have "?pc \<noteq> NUL" "wm_fold flags NUL = NUL" using sound by simp_all
        ultimately show ?thesis by (metis cur.simps(1))
      next
        case no: False
        with False show ?thesis by (simp add: t2_def)
      qed
      show ?thesis
      proof (cases "dw t2")
        case WM_MATCH
        then have "F t2" using sound by blast
        then have "star_any ms F t2" by (cases t2) auto
        with WM_MATCH go show ?thesis unfolding loop by (simp add: star_result_def)
      next
        case WM_ABORT_ALL
        then have "refuted F (\<lambda>u. True) t2" using sound by blast
        with WM_ABORT_ALL go show ?thesis
          unfolding loop by (auto simp: star_result_def star_any_iff refuted_def)
      next
        case WM_NOMATCH
        then have nF: "\<not> F t2" using sound by (metis wm_result.distinct(1))
        show ?thesis
        proof (cases "\<not> ms \<and> cur t2 = SLASH")
          case True
          then have "refuted F (\<lambda>u. SLASH \<notin> set u) t2"
            using nF ne unfolding refuted_def
            by (metis append_Cons append_Nil cur.simps(2) list.inject list.set_intros(1) neq_Nil_conv)
          with WM_NOMATCH go True show ?thesis
            unfolding loop by (auto simp: star_result_def star_any_iff refuted_def)
        next
          case no: False
          with ne have "ms \<or> hd t2 \<noteq> SLASH" by (cases t2) auto
          with less.hyps [OF shorter] nF ne star_result_next [of F "hd t2" "tl t2" ms]
          have "star_result ms F t2 (wm_star_loop flags ms p dw (tl t2))" by simp
          with WM_NOMATCH go no show ?thesis unfolding loop by auto
        qed
      next
        case WM_ABORT_TO_STARSTAR
        then have nF: "\<not> F t2" using sound by (metis wm_result.distinct(5))
        show ?thesis
        proof (cases ms)
          case True
          with less.hyps [OF shorter] nF ne star_result_next [of F "hd t2" "tl t2" ms]
          have "star_result ms F t2 (wm_star_loop flags ms p dw (tl t2))" by simp
          with WM_ABORT_TO_STARSTAR go True show ?thesis unfolding loop by auto
        next
          case no: False
          have "refuted F (\<lambda>u. SLASH \<notin> set u) t2"
            using WM_ABORT_TO_STARSTAR sound by blast
          with WM_ABORT_TO_STARSTAR go no show ?thesis
            unfolding loop by (auto simp: star_result_def star_any_iff refuted_def)
        qed
      qed
    qed
    from star_result_skip [OF skip ms_s this] show ?thesis
      by (simp flip: t)
  qed
qed

section \<open>The matcher decides the specification\<close>

lemma wm_spec_start: "cur p \<noteq> STAR \<Longrightarrow> wm_spec flags a p t = wm_spec flags b p t"
  by (cases p) (simp_all add: wm_spec.simps)

lemma wm_spec_token:
  "c \<noteq> STAR \<Longrightarrow> wm_spec flags start (c # p) (t_ch # t) \<longleftrightarrow>
    (case wm_token flags c p (wm_fold flags t_ch) of None \<Rightarrow> False
     | Some (ok, b, rest) \<Rightarrow> ok \<and> wm_spec flags (b = SLASH) rest t)"
  by (simp add: wm_spec.simps)

lemma wm_spec_Nil: "p \<noteq> [] \<Longrightarrow> cur p \<noteq> STAR \<Longrightarrow> \<not> wm_spec flags start p []"
  by (cases p) (simp_all add: wm_spec.simps)

lemma wm_spec_literal:
  assumes "\<not> is_glob_special (cur p)" "cur p \<noteq> NUL" "wm_spec flags start p w"
  shows "w \<noteq> [] \<and> wm_fold flags (hd w) = wm_fold flags (cur p)"
proof -
  obtain c q where p: "p = c # q" using assms(2) by (cases p) auto
  have c: "c \<noteq> STAR" "c \<noteq> BSLASH" "c \<noteq> CHR ''?''" "c \<noteq> CHR ''[''"
    using assms(1) by (auto simp: p is_glob_special_iff)
  have w: "w \<noteq> []" using assms(3) wm_spec_Nil [of p] c by (auto simp: p)
  with assms(3) c show ?thesis
    by (cases w) (auto simp: p wm_spec_token wm_token_def)
qed

text \<open>
  Where an abort code of \<open>dowild\<close> on \<open>p\<close> and \<open>u @ v\<close> speaks about the match of \<open>p\<close> and \<open>v\<close>: always
  for \<open>v\<close> the whole text; otherwise only when a double asterisk at the head of \<open>p\<close> would be read the
  same way.
\<close>

definition compat :: "char option \<Rightarrow> string \<Rightarrow> string \<Rightarrow> bool" where
  "compat before p u \<longleftrightarrow> u = [] \<or>
     (case before of None \<Rightarrow> cur p \<noteq> STAR | Some b \<Rightarrow> b = SLASH \<longrightarrow> last u = SLASH)"

definition at_start :: "char option \<Rightarrow> bool" where
  "at_start before \<longleftrightarrow> before = None \<or> before = Some SLASH"

definition sound_result :: "nat \<Rightarrow> char option \<Rightarrow> string \<Rightarrow> string \<Rightarrow> wm_result \<Rightarrow> bool" where
  "sound_result flags before p t r \<longleftrightarrow>
     (r = WM_MATCH \<longleftrightarrow> wm_spec flags (at_start before) p t) \<and>
     (r = WM_ABORT_ALL \<longrightarrow> refuted (wm_spec flags (at_start before) p) (compat before p) t) \<and>
     (r = WM_ABORT_TO_STARSTAR \<longrightarrow> pathname flags \<and>
        refuted (wm_spec flags (at_start before) p) (\<lambda>u. SLASH \<notin> set u \<and> compat before p u) t)"

lemma refutedI: "(\<And>u v. t = u @ v \<Longrightarrow> ok u \<Longrightarrow> F v \<Longrightarrow> False) \<Longrightarrow> refuted F ok t"
  by (auto simp: refuted_def)

lemma refutedD: "refuted F ok t \<Longrightarrow> t = u @ v \<Longrightarrow> ok u \<Longrightarrow> \<not> F v"
  by (auto simp: refuted_def)

text \<open>One element: the codes of the rest of the pattern carry over.\<close>

lemma token_Some_indep:
  "wm_token flags c p t1 = Some (ok1, b, rest) \<Longrightarrow>
   \<exists>ok2. wm_token flags c p t2 = Some (ok2, b, rest)"
  using wm_token_indep [of flags c p t1 t2]
  by (cases "wm_token flags c p t2") (simp_all add: prod_eq_iff)

lemma token_window:
  assumes "t_ch # t = u @ c1 # v"
  shows "t = tl (u @ [c1]) @ v"
  using assms by (cases u) auto

lemma token_compat:
  assumes "wm_token flags c p (wm_fold flags c1) = Some (True, b, rest)" "t_ch # t = u @ c1 # v"
  shows "compat (Some b) rest (tl (u @ [c1]))"
proof (cases u)
  case Nil
  then show ?thesis by (simp add: compat_def)
next
  case (Cons x xs)
  then have "last (tl (u @ [c1])) = c1" by simp
  moreover have "b = SLASH \<Longrightarrow> c1 = SLASH"
    using wm_token_slash assms(1) by fastforce
  ultimately show ?thesis unfolding compat_def by auto
qed

lemma sound_token:
  assumes c: "c \<noteq> STAR"
    and IH: "\<And>ok b rest. wm_token flags c p (wm_fold flags t_ch) = Some (ok, b, rest) \<Longrightarrow>
      sound_result flags (Some b) rest t (dowild flags (Some b) rest t)"
  shows "sound_result flags before (c # p) (t_ch # t) (dowild flags before (c # p) (t_ch # t))"
proof -
  let ?S = "wm_spec flags (at_start before) (c # p)"
  have start: "at_start (Some b) \<longleftrightarrow> b = SLASH" for b
    by (simp add: at_start_def)
  have step: "dowild flags before (c # p) (t_ch # t) =
    (case wm_token flags c p (wm_fold flags t_ch) of
       None \<Rightarrow> WM_ABORT_ALL
     | Some (ok, b, rest) \<Rightarrow> if ok then dowild flags (Some b) rest t else WM_NOMATCH)"
    unfolding dowild_token [OF c list.distinct(2)] cur.simps list.sel ..
  have S_Cons: "\<exists>c1 v2. v = c1 # v2" if "?S v" for v
    using that wm_spec_Nil [of "c # p"] c by (cases v) auto
  show ?thesis
  proof (cases "wm_token flags c p (wm_fold flags t_ch)")
    case None
    have "\<not> ?S v" for v
    proof
      assume "?S v"
      then obtain c1 v2 where "v = c1 # v2" using S_Cons by blast
      moreover have "wm_token flags c p (wm_fold flags c1) = None"
        using wm_token_indep [of flags c p "wm_fold flags t_ch" "wm_fold flags c1"] None by simp
      ultimately show False using \<open>?S v\<close> c by (simp add: wm_spec_token)
    qed
    then show ?thesis
      by (simp add: step None sound_result_def refuted_def)
  next
    case (Some x)
    then obtain ok b rest where tok: "wm_token flags c p (wm_fold flags t_ch) = Some (ok, b, rest)"
      by (cases x) auto
    have spec: "?S (t_ch # t) \<longleftrightarrow> ok \<and> wm_spec flags (b = SLASH) rest t"
      using c tok by (simp add: wm_spec_token)
    show ?thesis
    proof (cases ok)
      case False
      with tok spec step show ?thesis by (simp add: sound_result_def)
    next
      case True
      let ?r = "dowild flags (Some b) rest t"
      have r: "dowild flags before (c # p) (t_ch # t) = ?r"
        using True by (simp add: step tok)
      note snd = IH [OF tok, unfolded sound_result_def start]
      have tail: "\<exists>c1 v2. v = c1 # v2 \<and> wm_token flags c p (wm_fold flags c1) = Some (True, b, rest) \<and>
          wm_spec flags (b = SLASH) rest v2" if "?S v" for v
      proof -
        obtain c1 v2 where v: "v = c1 # v2" using S_Cons [OF \<open>?S v\<close>] by blast
        obtain ok2 where "wm_token flags c p (wm_fold flags c1) = Some (ok2, b, rest)"
          using token_Some_indep [OF tok] by blast
        with v that c show ?thesis by (simp add: wm_spec_token)
      qed
      have "refuted ?S (compat before (c # p)) (t_ch # t)" if "?r = WM_ABORT_ALL"
      proof (rule refutedI)
        fix u v
        assume uv: "t_ch # t = u @ v" and "?S v"
        then obtain c1 v2 where v: "v = c1 # v2" and t1: "wm_token flags c p (wm_fold flags c1) = Some (True, b, rest)"
          and s: "wm_spec flags (b = SLASH) rest v2"
          using tail by blast
        have "refuted (wm_spec flags (b = SLASH) rest) (compat (Some b) rest) t"
          using snd that by blast
        from refutedD [OF this token_window token_compat [OF t1]] uv s show False
          unfolding v by blast
      qed
      moreover have "pathname flags \<and> refuted ?S (\<lambda>u. SLASH \<notin> set u \<and> compat before (c # p) u) (t_ch # t)"
        if "?r = WM_ABORT_TO_STARSTAR"
      proof (intro conjI refutedI)
        show pn: "pathname flags" using snd that by blast
        fix u v
        assume uv: "t_ch # t = u @ v" and nos: "SLASH \<notin> set u \<and> compat before (c # p) u" and "?S v"
        then obtain c1 v2 where v: "v = c1 # v2" and t1: "wm_token flags c p (wm_fold flags c1) = Some (True, b, rest)"
          and s: "wm_spec flags (b = SLASH) rest v2"
          using tail by blast
        have "SLASH \<notin> set (tl (u @ [c1]))"
        proof
          assume "SLASH \<in> set (tl (u @ [c1]))"
          then have "u \<noteq> []" "c1 = SLASH"
            using nos by (cases u; auto)+
          then have "b = SLASH"
            using wm_token_pathname [OF pn c] t1 by simp
          then have "wm_fold flags t_ch = SLASH"
            using wm_token_slash [of flags c p "wm_fold flags t_ch" rest] tok True by simp
          then have "t_ch = SLASH" by simp
          with \<open>u \<noteq> []\<close> uv nos show False by (cases u) auto
        qed
        moreover have "refuted (wm_spec flags (b = SLASH) rest) (\<lambda>u. SLASH \<notin> set u \<and> compat (Some b) rest u) t"
          using snd that by blast
        ultimately show False
          using refutedD [OF _ token_window] token_compat [OF t1] uv s unfolding v by blast
      qed
      ultimately show ?thesis
        using spec snd True by (simp add: r sound_result_def)
    qed
  qed
qed

section \<open>An asterisk\<close>

lemma slash_split:
  assumes "dropWhile (\<lambda>t. t \<noteq> SLASH) t = x # t2"
  shows "t = takeWhile (\<lambda>t. t \<noteq> SLASH) t @ SLASH # t2" "SLASH \<notin> set (takeWhile (\<lambda>t. t \<noteq> SLASH) t)"
proof -
  have "x = SLASH" using assms by (metis (mono_tags, lifting) dropWhile_eq_Cons_conv)
  then show "t = takeWhile (\<lambda>t. t \<noteq> SLASH) t @ SLASH # t2"
    using assms by (metis takeWhile_dropWhile_id)
  show "SLASH \<notin> set (takeWhile (\<lambda>t. t \<noteq> SLASH) t)"
    by (auto dest: set_takeWhileD)
qed

lemma wm_spec_slash:
  "wm_spec flags start (SLASH # q) v \<longleftrightarrow> (\<exists>v2. v = SLASH # v2 \<and> wm_spec flags True q v2)"
proof (cases v)
  case (Cons c v2)
  have "wm_token flags SLASH q (wm_fold flags c) = Some (c = SLASH, SLASH, q)"
    by (simp add: wm_token_def)
  with Cons show ?thesis by (auto simp: wm_spec_token)
qed (simp add: wm_spec_Nil)

lemma first_slash:
  assumes "s @ SLASH # t = u @ SLASH # v" "SLASH \<notin> set s"
  shows "\<exists>x. SLASH # t = x @ SLASH # v \<and> u = s @ x"
proof (cases "length s \<le> length u")
  case True
  then have "u = s @ drop (length s) u"
    using assms(1) by (metis append_eq_append_conv_if append_take_drop_id)
  with assms(1) show ?thesis by (metis append.assoc same_append_eq)
next
  case False
  have "(s @ SLASH # t) ! length u = s ! length u"
    using False by (simp add: nth_append)
  moreover have "(s @ SLASH # t) ! length u = SLASH"
    unfolding assms(1) by simp
  ultimately have "s ! length u = SLASH" by simp
  with False assms(2) show ?thesis by (metis not_le nth_mem)
qed

text \<open>One asterisk followed by a slash: the text goes on behind its next slash.\<close>

lemma sound_star_slash:
  assumes pn: "pathname flags"
    and IH: "\<And>t2. sound_result flags (Some SLASH) q t2 (dowild flags (Some SLASH) q t2)"
    and spec: "\<And>v. wm_spec flags start p v \<longleftrightarrow> star_any False (wm_spec flags False (SLASH # q)) v"
    and start: "start = at_start before"
  shows "sound_result flags before p t
    (case dropWhile (\<lambda>t. t \<noteq> SLASH) t of [] \<Rightarrow> WM_ABORT_ALL | _ # t2 \<Rightarrow> dowild flags (Some SLASH) q t2)"
proof -
  have meaning: "wm_spec flags start p v \<longleftrightarrow> (\<exists>s v2. v = s @ SLASH # v2 \<and> SLASH \<notin> set s \<and> wm_spec flags True q v2)" for v
    by (auto simp: spec star_any_iff wm_spec_slash)
  show ?thesis
  proof (cases "dropWhile (\<lambda>t. t \<noteq> SLASH) t")
    case Nil
    then have "SLASH \<notin> set t" by (simp add: dropWhile_eq_Nil_conv) blast
    then have "\<not> wm_spec flags start p v" if "t = u @ v" for u v
      using that by (auto simp: meaning)
    then have "refuted (wm_spec flags start p) ok t" for ok
      by (auto simp: refuted_def)
    moreover have "\<not> wm_spec flags start p t"
      using \<open>\<And>u v. t = u @ v \<Longrightarrow> \<not> wm_spec flags start p v\<close> [of "[]" t] by simp
    ultimately show ?thesis
      by (simp add: Nil sound_result_def flip: start)
  next
    case (Cons x t2)
    define s where "s = takeWhile (\<lambda>t. t \<noteq> SLASH) t"
    have t: "t = s @ SLASH # t2" and s: "SLASH \<notin> set s"
      using slash_split [OF Cons] by (simp_all add: s_def)
    let ?r = "dowild flags (Some SLASH) q t2"
    have snd: "(?r = WM_MATCH \<longleftrightarrow> wm_spec flags True q t2)"
      "?r = WM_ABORT_ALL \<Longrightarrow> refuted (wm_spec flags True q) (compat (Some SLASH) q) t2"
      "?r = WM_ABORT_TO_STARSTAR \<Longrightarrow> \<not> wm_spec flags True q t2"
      using IH [of t2] refutedD [of "wm_spec flags True q" _ t2 "[]" t2]
      by (auto simp: sound_result_def at_start_def compat_def)
    have unique: "\<exists>y. SLASH # t2 = y @ SLASH # v2 \<and> u @ s2 = s @ y"
      if "t = u @ v" "v = s2 @ SLASH # v2" for u v s2 v2
      using first_slash [of s t2 "u @ s2" v2] that t s by auto
    have whole: "wm_spec flags start p t \<longleftrightarrow> wm_spec flags True q t2"
    proof
      assume "wm_spec flags start p t"
      then obtain s2 v2 where v2: "t = s2 @ SLASH # v2" "SLASH \<notin> set s2" "wm_spec flags True q v2"
        unfolding meaning by blast
      then obtain y where "SLASH # t2 = y @ SLASH # v2" "s2 = s @ y"
        using unique [of "[]" t s2 v2] by auto
      with v2 show "wm_spec flags True q t2" by (cases y) auto
    qed (use t s meaning in blast)
    have "refuted (wm_spec flags start p) ok t" if "?r = WM_ABORT_ALL" for ok
    proof (rule refutedI)
      fix u v assume "t = u @ v" "wm_spec flags start p v"
      then obtain s2 v2 where v2: "v = s2 @ SLASH # v2" "wm_spec flags True q v2"
        unfolding meaning by blast
      then obtain y where y: "SLASH # t2 = y @ SLASH # v2"
        using unique [OF \<open>t = u @ v\<close>] by blast
      have "\<exists>z. t2 = z @ v2 \<and> compat (Some SLASH) q z"
      proof (cases y)
        case Nil
        with y show ?thesis by (intro exI [of _ "[]"]) (simp add: compat_def)
      next
        case (Cons y0 ys)
        with y show ?thesis by (intro exI [of _ "ys @ [SLASH]"]) (simp add: compat_def)
      qed
      with snd(2) [OF that] v2(2) show False by (auto simp: refuted_def)
    qed
    moreover have "refuted (wm_spec flags start p) (\<lambda>u. SLASH \<notin> set u \<and> compat before p u) t"
      if "?r = WM_ABORT_TO_STARSTAR"
    proof (rule refutedI)
      fix u v assume uv: "t = u @ v" "SLASH \<notin> set u \<and> compat before p u" "wm_spec flags start p v"
      then obtain s2 v2 where v2: "v = s2 @ SLASH # v2" "SLASH \<notin> set s2" "wm_spec flags True q v2"
        unfolding meaning by blast
      then obtain y where y: "SLASH # t2 = y @ SLASH # v2" "u @ s2 = s @ y"
        using unique [OF uv(1)] by blast
      have "SLASH \<notin> set y" using y(2) uv(2) v2(2) by (metis UnCI UnE set_append)
      with y(1) have "v2 = t2" by (cases y) auto
      with v2(3) snd(3) [OF that] show False by blast
    qed
    ultimately show ?thesis
      using snd(1) whole pn by (simp add: Cons sound_result_def flip: start)
  qed
qed

lemma star_result_sound:
  assumes r: "star_result ms F t r" and spec: "\<And>v. wm_spec flags (at_start before) p v \<longleftrightarrow> star_any ms F v"
    and pn: "\<not> ms \<Longrightarrow> pathname flags"
  shows "sound_result flags before p t r"
proof -
  have "refuted (wm_spec flags (at_start before) p) ok t" if none: "refuted F (\<lambda>u. True) t" for ok
  proof (rule refutedI)
    fix u v assume "t = u @ v" "wm_spec flags (at_start before) p v"
    then obtain u2 w where "t = (u @ u2) @ w" "F w" by (auto simp: spec star_any_iff)
    then show False using none by (auto simp: refuted_def)
  qed
  moreover have "refuted (wm_spec flags (at_start before) p) (\<lambda>u. SLASH \<notin> set u \<and> compat before p u) t"
    if none: "refuted F (\<lambda>u. SLASH \<notin> set u) t" and nms: "\<not> ms"
  proof (rule refutedI)
    fix u v assume "t = u @ v" "SLASH \<notin> set u \<and> compat before p u" "wm_spec flags (at_start before) p v"
    then obtain u2 w where "t = (u @ u2) @ w" "SLASH \<notin> set (u @ u2)" "F w"
      using nms by (auto simp: spec star_any_iff)
    then show False using refutedD [OF none] by blast
  qed
  ultimately show ?thesis
    using r pn by (simp add: sound_result_def star_result_def spec)
qed

lemma sound_call_dowild:
  assumes "\<And>w. sound_result flags None q w (dowild flags None q w)" "cur q \<noteq> STAR" "q \<noteq> []" "cstr q"
  shows "sound_call flags q (\<lambda>w. dowild flags None q w) (wm_spec flags False q)"
proof -
  have start: "wm_spec flags (at_start None) q = wm_spec flags False q"
    using wm_spec_start [OF assms(2)] by blast
  have compat: "compat None q u" for u
    using assms(2) by (simp add: compat_def)
  have nul: "cur q \<noteq> NUL"
    using cur_eq_NUL [OF assms(4)] assms(3) by simp
  have ok: "(\<lambda>u. SLASH \<notin> set u \<and> compat None q u) = (\<lambda>u. SLASH \<notin> set u)" "compat None q = (\<lambda>u. True)"
    using compat by auto
  note res = assms(1) [unfolded sound_result_def start ok]
  show ?thesis
    unfolding sound_call_def
  proof (intro conjI allI impI)
    show "\<not> wm_spec flags False q []"
      using wm_spec_Nil [OF assms(3,2)] .
    fix w
    show "dowild flags None q w = WM_MATCH \<longleftrightarrow> wm_spec flags False q w"
      using res [of w] by (rule conjunct1)
    show "refuted (wm_spec flags False q) (\<lambda>u. True) w" if "dowild flags None q w = WM_ABORT_ALL"
      using res [of w] that by (elim conjE) (rule mp)
    show "refuted (wm_spec flags False q) (\<lambda>u. SLASH \<notin> set u) w" if "dowild flags None q w = WM_ABORT_TO_STARSTAR"
      using res [of w] that by (elim conjE) simp
    show "w \<noteq> []" "wm_fold flags (hd w) = wm_fold flags (cur q)"
      if "\<not> is_glob_special (cur q)" "wm_spec flags False q w"
      using wm_spec_literal [OF that(1) nul that(2)] by simp_all
  qed (rule nul)
qed

lemma cur_dropWhile_star: "cur (dropWhile (\<lambda>x. x = STAR) p) \<noteq> STAR"
  by (induction p) simp_all

lemma cstr_dropWhile: "cstr p \<Longrightarrow> cstr (dropWhile P p)"
  by (auto simp: cstr_def dest: set_dropWhileD)

lemma cstr_tl: "cstr p \<Longrightarrow> cstr (tl p)"
  by (cases p) auto

lemma sound_star:
  assumes IH: "\<And>before q t. length q \<le> length p \<Longrightarrow> cstr q \<Longrightarrow> sound_result flags before q t (dowild flags before q t)"
    and cstr: "cstr p"
  shows "sound_result flags before (STAR # p) t (dowild flags before (STAR # p) t)"
proof -
  define q where "q = dropWhile (\<lambda>x. x = STAR) p"
  define proper where "proper \<longleftrightarrow> at_start before \<and> (q = [] \<or> hd q = SLASH \<or> hd q = BSLASH \<and> cur (tl q) = SLASH)"
  define whole where "whole \<longleftrightarrow> cur p = STAR \<and> proper"
  define ms where "ms \<longleftrightarrow> \<not> pathname flags \<or> whole"
  let ?F = "wm_spec flags False q"
  have q: "length q \<le> length p" "cstr q" "cur q \<noteq> STAR"
    using cstr length_dropWhile_le [of "\<lambda>x. x = STAR" p]
    by (simp_all add: q_def cur_dropWhile_star cstr_dropWhile)
  have spec: "wm_spec flags (at_start before) (STAR # p) v \<longleftrightarrow>
      pathname flags \<and> whole \<and> cur q = SLASH \<and> wm_spec flags True (tl q) v \<or> star_any ms ?F v" for v
    unfolding ms_def whole_def proper_def q_def
    by (subst wm_spec.simps) (simp only: Let_def simp_thms if_True)
  have wild: "dowild flags before (STAR # p) t =
      (if cur p = STAR \<and> pathname flags \<and> proper \<and> cur q = SLASH \<and> dowild flags None (tl q) t = WM_MATCH then WM_MATCH
       else if q = [] then (if \<not> ms \<and> SLASH \<in> set t then WM_ABORT_TO_STARSTAR else WM_MATCH)
       else if \<not> ms \<and> hd q = SLASH then
         (case dropWhile (\<lambda>t. t \<noteq> SLASH) t of [] \<Rightarrow> WM_ABORT_ALL | _ # t \<Rightarrow> dowild flags (Some SLASH) (tl q) t)
       else wm_star_loop flags ms q (\<lambda>t. dowild flags None q t) t)"
  proof -
    have "wm_fold flags STAR = STAR" "(STAR = BSLASH) = False" "(STAR = CHR ''?'') = False"
      by (simp_all add: wm_fold_eqs)
    then show ?thesis
      unfolding ms_def whole_def proper_def at_start_def q_def
      by (subst dowild.simps) (simp only: Let_def simp_thms if_True if_False)
  qed
  have loop: "star_result ms ?F t (wm_star_loop flags ms q (\<lambda>t. dowild flags None q t) t)" if "q \<noteq> []"
    by (intro wm_star_loop_correct sound_call_dowild IH q that)
  show ?thesis
  proof (cases "pathname flags \<and> whole \<and> cur q = SLASH")
    case True
    then have "q \<noteq> []" by (cases "q = []") simp_all
    then have qs: "q = SLASH # tl q" "q \<noteq> []" using True by (cases q, simp, simp)+
    have ms using True by (simp add: ms_def)
    have start: "at_start before" using True by (simp add: whole_def proper_def)
    have tlq: "length (tl q) \<le> length p" "cstr (tl q)"
      using q by (auto simp: cstr_tl)
    let ?r1 = "dowild flags None (tl q) t" and ?r2 = "wm_star_loop flags ms q (\<lambda>t. dowild flags None q t) t"
    have r1: "?r1 = WM_MATCH \<longleftrightarrow> wm_spec flags True (tl q) t"
      using IH [OF tlq, of None t] by (simp add: sound_result_def at_start_def)
    have r2: "(?r2 = WM_MATCH \<longleftrightarrow> star_any ms ?F t) \<and> ?r2 \<noteq> WM_NOMATCH \<and> ?r2 \<noteq> WM_ABORT_TO_STARSTAR \<and>
        (?r2 = WM_ABORT_ALL \<longrightarrow> refuted ?F (\<lambda>u. True) t)"
      using loop [OF qs(2)] \<open>ms\<close> by (simp add: star_result_def)
    have r: "dowild flags before (STAR # p) t = (if ?r1 = WM_MATCH then WM_MATCH else ?r2)"
      unfolding wild using True [unfolded whole_def] qs(2) \<open>ms\<close> by (simp only: simp_thms if_True if_False)
    have "refuted (wm_spec flags (at_start before) (STAR # p)) (compat before (STAR # p)) t"
      if no: "?r1 \<noteq> WM_MATCH" and all: "refuted ?F (\<lambda>u. True) t"
    proof (rule refutedI)
      fix u v assume uv: "t = u @ v" "compat before (STAR # p) u" "wm_spec flags (at_start before) (STAR # p) v"
      have "\<not> star_any ms ?F v"
        using all uv(1) by (auto simp: star_any_iff refuted_def)
      then have v: "wm_spec flags True (tl q) v" using uv(3) spec by blast
      with no r1 uv(1) have "u \<noteq> []" by auto
      with uv(2) start have "last u = SLASH"
        by (auto simp: compat_def at_start_def)
      then obtain u2 where "u = u2 @ [SLASH]"
        using \<open>u \<noteq> []\<close> append_butlast_last_id [of u] by metis
      then have "t = u2 @ SLASH # v"
        using uv(1) by simp
      moreover have "?F (SLASH # v)"
        using v qs(1) wm_spec_slash [of flags False "tl q"] by metis
      ultimately show False using all by (auto simp: refuted_def)
    qed
    then show ?thesis
      unfolding r sound_result_def using True spec [of t] r1 r2 by auto
  next
    case False
    then have spec2: "wm_spec flags (at_start before) (STAR # p) v \<longleftrightarrow> star_any ms ?F v" for v
      using spec by blast
    have pn: "\<not> ms \<Longrightarrow> pathname flags"
      by (simp add: ms_def)
    have "\<not> (cur p = STAR \<and> pathname flags \<and> proper \<and> cur q = SLASH \<and> dowild flags None (tl q) t = WM_MATCH)"
      using False whole_def by blast
    note wild2 = wild [unfolded if_not_P [OF this]]
    consider "q = []" | "q \<noteq> []" "\<not> ms" "hd q = SLASH" | "q \<noteq> []" "ms \<or> hd q \<noteq> SLASH"
      by blast
    then show ?thesis
    proof cases
      case 1
      have F: "?F v \<longleftrightarrow> v = []" for v
        unfolding 1 wm_spec.simps(1) ..
      have any: "star_any ms ?F v \<longleftrightarrow> ms \<or> SLASH \<notin> set v" for v
        unfolding star_any_iff F by simp
      have "star_result ms ?F t (if \<not> ms \<and> SLASH \<in> set t then WM_ABORT_TO_STARSTAR else WM_MATCH)"
        unfolding star_result_def any refuted_def F by auto
      from star_result_sound [OF this spec2 pn] show ?thesis
        unfolding wild2 if_P [OF 1] .
    next
      case 2
      have "q = SLASH # tl q" using list.collapse [OF 2(1)] 2(3) by simp
      then have spec3: "wm_spec flags (at_start before) (STAR # p) v \<longleftrightarrow>
          star_any False (wm_spec flags False (SLASH # tl q)) v" for v
        using spec2 2 by metis
      have "sound_result flags (Some SLASH) (tl q) t2 (dowild flags (Some SLASH) (tl q) t2)" for t2
        using q by (intro IH) (auto simp: cstr_tl)
      from sound_star_slash [OF pn [OF 2(2)] this spec3 refl] 2 show ?thesis
        unfolding wild2 by simp
    next
      case 3
      then have "dowild flags before (STAR # p) t = wm_star_loop flags ms q (\<lambda>t. dowild flags None q t) t"
        unfolding wild2 by auto
      with star_result_sound [OF loop spec2 pn] 3 show ?thesis by simp
    qed
  qed
qed

lemma dowild_correct: "cstr p \<Longrightarrow> sound_result flags before p t (dowild flags before p t)"
proof (induction "length p" arbitrary: before p t rule: less_induct)
  case less
  show ?case
  proof (cases p)
    case Nil
    then show ?thesis
      by (simp add: sound_result_def dowild.simps wm_spec.simps)
  next
    case (Cons c r)
    have IH: "sound_result flags b q t2 (dowild flags b q t2)" if "length q \<le> length r" "cstr q" for b q t2
      using less.hyps [of q] that Cons by simp
    have cr: "cstr r" using less.prems Cons by simp
    show ?thesis
    proof (cases "c = STAR")
      case True
      with sound_star [OF IH cr] Cons show ?thesis by blast
    next
      case False
      show ?thesis
      proof (cases t)
        case Nil
        then show ?thesis
          using wm_spec_Nil [of p flags] False Cons
          by (simp add: sound_result_def dowild.simps refuted_def)
      next
        case t: (Cons t_ch t2)
        have "sound_result flags (Some b) rest t2 (dowild flags (Some b) rest t2)"
          if "wm_token flags c r (wm_fold flags t_ch) = Some (ok, b, rest)" for ok b rest
          using wm_token_length [OF that] wm_token_set [OF that] cr
          by (intro IH) (auto simp: cstr_def)
        then have "sound_result flags before (c # r) (t_ch # t2) (dowild flags before (c # r) (t_ch # t2))"
          by (rule sound_token [OF False])
        then show ?thesis
          unfolding Cons t .
      qed
    qed
  qed
qed

text \<open>
  C26: the matcher decides the meaning of the pattern.  In particular the two abort codes and the
  skips over text that cannot match never lose a match, for any pattern, nested asterisks, path name
  mode and malformed brackets included.
\<close>

theorem wildmatch_correct:
  assumes "cstr pattern"
  shows "wildmatch pattern text flags = (if wm_spec flags True pattern text then WM_MATCH else WM_NOMATCH)"
  using dowild_correct [OF assms, of flags None "text"]
  by (simp add: wildmatch_def Let_def sound_result_def at_start_def)

lemma wildmatch_correct_witness:
  "wildmatch ''a/**/b*[x-z]'' ''a/c/bay'' WM_PATHNAME = WM_MATCH \<and>
   wm_spec WM_PATHNAME True ''a/**/b*[x-z]'' ''a/c/bay''"
proof -
  have "wildmatch ''a/**/b*[x-z]'' ''a/c/bay'' WM_PATHNAME = WM_MATCH"
    by code_simp
  with wildmatch_correct [of "''a/**/b*[x-z]''" "''a/c/bay''" WM_PATHNAME] show ?thesis
    by (simp split: if_splits)
qed

section \<open>Case folding\<close>

text \<open>
  Folding applies to the text and to a bare pattern character, but not to an escaped one nor to a
  single character of a bracket expression: an upper-case letter there matches nothing, not even
  itself.
\<close>

lemma casefold_loses_escaped_upper:
  "wildmatch [BSLASH, CHR ''A''] ''A'' WM_CASEFOLD = WM_NOMATCH"
  "wildmatch ''[A]'' ''A'' WM_CASEFOLD = WM_NOMATCH"
  "wildmatch [BSLASH, CHR ''A''] ''A'' 0 = WM_MATCH"
  "wildmatch ''[A]'' ''A'' 0 = WM_MATCH"
  by code_simp+

end
