(* ===== verification/Pretty_Utf8.thy ===== *)
theory Pretty_Utf8
  imports Prelude "HOL-Library.Sublist"
begin

text \<open>
  UTF-8 boundaries in a byte stream: \<^verbatim>\<open>incomplete_utf8_suffix\<close> of \<^verbatim>\<open>diff-pretty.c\<close>, the routine that
  decides how many bytes at the end of a buffer belong to a code point whose remaining bytes have
  not been read yet, and the well-formedness of UTF-8 (table 3-7 of the Unicode standard) it is
  proved against.
\<close>

section \<open>The routine\<close>

text \<open>The \<^verbatim>\<open>while (start && ...) start--\<close> loop.\<close>

fun utf8_start :: "byte list \<Rightarrow> nat \<Rightarrow> nat" where
  "utf8_start d 0 = 0"
| "utf8_start d (Suc n) = (if d ! Suc n AND 0xc0 = 0x80 then utf8_start d n else Suc n)"

definition incomplete_utf8_suffix :: "byte list \<Rightarrow> nat" where
  "incomplete_utf8_suffix d =
     (let len = length d in
      if len = 0 then 0
      else
        let start = utf8_start d (len - 1); first = d ! start in
        if first < 0x80 then 0
        else
          let expected = (if first AND 0xe0 = 0xc0 then Some 2
                          else if first AND 0xf0 = 0xe0 then Some 3
                          else if first AND 0xf8 = 0xf0 then Some 4 else None)
          in case expected of None \<Rightarrow> 0
             | Some e \<Rightarrow> if len - start < e then len - start else 0)"

section \<open>Well-formed UTF-8\<close>

definition cont :: "byte \<Rightarrow> bool" where
  "cont b \<longleftrightarrow> 0x80 \<le> b \<and> b \<le> 0xbf"

definition utf8_char :: "byte list \<Rightarrow> bool" where
  "utf8_char c =
     (case c of
        [a] \<Rightarrow> a \<le> 0x7f
      | [a, b] \<Rightarrow> 0xc2 \<le> a \<and> a \<le> 0xdf \<and> cont b
      | [a, b, d] \<Rightarrow> cont b \<and> cont d \<and>
          (a = 0xe0 \<and> 0xa0 \<le> b \<or> 0xe1 \<le> a \<and> a \<le> 0xec \<or> a = 0xed \<and> b \<le> 0x9f \<or>
           0xee \<le> a \<and> a \<le> 0xef)
      | [a, b, d, e] \<Rightarrow> cont b \<and> cont d \<and> cont e \<and>
          (a = 0xf0 \<and> 0x90 \<le> b \<or> 0xf1 \<le> a \<and> a \<le> 0xf3 \<or> a = 0xf4 \<and> b \<le> 0x8f)
      | _ \<Rightarrow> False)"

inductive utf8 :: "byte list \<Rightarrow> bool" where
  utf8_Nil: "utf8 []"
| utf8_snoc: "utf8 s \<Longrightarrow> utf8_char c \<Longrightarrow> utf8 (s @ c)"

lemma utf8_append: "utf8 t \<Longrightarrow> utf8 s \<Longrightarrow> utf8 (s @ t)"
  by (induction rule: utf8.induct) (auto simp: append_assoc [symmetric] simp del: append_assoc intro: utf8.intros)

lemma utf8_charI: "utf8_char c \<Longrightarrow> utf8 c"
  using utf8_snoc [OF utf8_Nil] by simp

section \<open>Bytes by their top bits\<close>

lemma unat_and_not_mask: "unat ((w :: byte) AND NOT (mask n)) = unat w div 2 ^ n * 2 ^ n"
proof -
  have "w AND NOT (mask n) = push_bit n (drop_bit n w)"
    by (rule bit_eqI) (auto simp: bit_simps)
  moreover have "unat (drop_bit n w) * 2 ^ n < 2 ^ LENGTH(8)"
    using unat_byte_lt [of w] div_times_less_eq_dividend [of "unat w" "2 ^ n"]
    by (simp add: unat_drop_bit del: div_times_less_eq_dividend unat_byte_lt)
  ultimately show ?thesis
    by (simp add: unat_push_bit_lt unat_drop_bit)
qed

lemma byte_prefix_masks [byte_simps]:
  fixes b :: byte
  shows "b AND 0xc0 = 0x80 \<longleftrightarrow> unat b div 64 = 2"
    "b AND 0xe0 = 0xc0 \<longleftrightarrow> unat b div 32 = 6"
    "b AND 0xf0 = 0xe0 \<longleftrightarrow> unat b div 16 = 14"
    "b AND 0xf8 = 0xf0 \<longleftrightarrow> unat b div 8 = 30"
proof -
  have m: "(0xc0 :: byte) = NOT (mask 6)" "(0xe0 :: byte) = NOT (mask 5)"
    "(0xf0 :: byte) = NOT (mask 4)" "(0xf8 :: byte) = NOT (mask 3)"
    by code_simp+
  have k: "\<And>n c. b AND NOT (mask n) = c \<longleftrightarrow> unat b div 2 ^ n * 2 ^ n = unat c"
    by (simp add: unat_and_not_mask [symmetric] word_unat_eq_iff)
  show "b AND 0xc0 = 0x80 \<longleftrightarrow> unat b div 64 = 2"
    unfolding m k by simp
  show "b AND 0xe0 = 0xc0 \<longleftrightarrow> unat b div 32 = 6"
    unfolding m(2) k by simp
  show "b AND 0xf0 = 0xe0 \<longleftrightarrow> unat b div 16 = 14"
    unfolding m(3) k by simp
  show "b AND 0xf8 = 0xf0 \<longleftrightarrow> unat b div 8 = 30"
    unfolding m(4) k by simp
qed

lemma cont_iff [byte_simps]: "cont b \<longleftrightarrow> unat b div 64 = 2"
  by (auto simp: cont_def word_le_nat_alt)

section \<open>What the routine computes\<close>

text \<open>The length the lead byte announces, as the routine reads it.\<close>

definition lead_len :: "byte \<Rightarrow> nat option" where
  "lead_len a = (if a < 0x80 then Some 1 else if a AND 0xe0 = 0xc0 then Some 2
     else if a AND 0xf0 = 0xe0 then Some 3 else if a AND 0xf8 = 0xf0 then Some 4 else None)"

lemma lead_len_le4: "lead_len a = Some e \<Longrightarrow> e \<le> 4"
  by (auto simp: lead_len_def split: if_splits)

lemma utf8_char_shape:
  assumes "utf8_char c"
  obtains a t where "c = a # t" "\<not> cont a" "list_all cont t" "lead_len a = Some (length c)"
proof (rule that [of "hd c" "tl c"])
  show "c = hd c # tl c" "list_all cont (tl c)"
    using assms by (auto simp: utf8_char_def split: list.splits)
  show "\<not> cont (hd c)" "lead_len (hd c) = Some (length c)"
    using assms
    by (auto simp: utf8_char_def lead_len_def cont_def byte_prefix_masks word_le_nat_alt
        word_less_nat_alt split: list.splits)
qed

lemma utf8_start_eq:
  "\<not> cont a \<Longrightarrow> list_all cont t \<Longrightarrow> k \<le> length t \<Longrightarrow>
   utf8_start (p @ a # t) (length p + k) = length p"
proof (induction k)
  case 0
  then show ?case
    by (cases "length p") (auto simp: cont_iff byte_prefix_masks nth_append)
next
  case (Suc k)
  then have "cont ((p @ a # t) ! (length p + Suc k))"
    by (simp add: nth_append list_all_length)
  with Suc show ?case by (simp add: cont_iff byte_prefix_masks)
qed

lemma incomplete_utf8_suffix_lead:
  assumes "\<not> cont a" "list_all cont t" "lead_len a = Some e"
  shows "incomplete_utf8_suffix (p @ a # t) = (if Suc (length t) < e then Suc (length t) else 0)"
proof -
  have "utf8_start (p @ a # t) (length (p @ a # t) - 1) = length p"
    using utf8_start_eq [OF assms(1,2) order_refl, of p] by simp
  then show ?thesis
    using assms(3) unfolding incomplete_utf8_suffix_def
    by (auto simp: Let_def lead_len_def nth_append split: if_splits)
qed

lemma utf8_start_le: "utf8_start d n \<le> n"
  by (induction n) auto

text \<open>The bytes kept back fit the three bytes of \<^verbatim>\<open>pending\<close>, and are fewer than a fresh read.\<close>

lemma incomplete_utf8_suffix_le: "incomplete_utf8_suffix d \<le> 3" "incomplete_utf8_suffix d \<le> length d"
  by (auto simp: incomplete_utf8_suffix_def Let_def split: option.splits if_splits)

lemma incomplete_utf8_suffix_Nil [simp]: "incomplete_utf8_suffix [] = 0"
  by (simp add: incomplete_utf8_suffix_def)

text \<open>A prefix of UTF-8 text is UTF-8 text followed by a proper prefix of one code point.\<close>

lemma prefix_utf8_cases:
  assumes "utf8 s" "prefix p s"
  obtains u q c where "p = u @ q" "utf8 u" "q = [] \<or> utf8_char c \<and> strict_prefix q c"
  using assms
proof (induction arbitrary: thesis rule: utf8.induct)
  case utf8_Nil
  show ?case by (rule utf8_Nil.prems(1) [of "[]" "[]"]) (use utf8_Nil.prems in \<open>auto intro: utf8.intros\<close>)
next
  case (utf8_snoc s c)
  show ?case
  proof (cases "prefix p s")
    case True
    then show ?thesis using utf8_snoc.IH utf8_snoc.prems(1) by blast
  next
    case False
    with utf8_snoc.prems(2) obtain q where q: "p = s @ q" "prefix q c"
      by (auto simp: prefix_append)
    show ?thesis
    proof (cases "q = c")
      case True
      then show ?thesis
        using q utf8_snoc by (metis append_Nil2 utf8.utf8_snoc)
    next
      case False
      then show ?thesis
        using q utf8_snoc by (metis strict_prefix_def)
    qed
  qed
qed

lemma utf8_cases_last:
  assumes "utf8 u" "u \<noteq> []"
  obtains v c where "u = v @ c" "utf8 v" "utf8_char c"
  using assms by (cases rule: utf8.cases) auto

lemma incomplete_utf8_suffix_utf8: "utf8 u \<Longrightarrow> incomplete_utf8_suffix u = 0"
proof (cases "u = []")
  case False
  assume "utf8 u"
  then obtain v c where c: "u = v @ c" "utf8_char c" by (rule utf8_cases_last [OF _ False])
  then show ?thesis
    by (elim utf8_char_shape) (simp add: incomplete_utf8_suffix_lead)
qed simp

lemma incomplete_utf8_suffix_partial:
  assumes "utf8_char c" "strict_prefix q c" "q \<noteq> []"
  shows "incomplete_utf8_suffix (u @ q) = length q"
proof -
  obtain a t where c: "c = a # t" "\<not> cont a" "list_all cont t" "lead_len a = Some (length c)"
    by (rule utf8_char_shape [OF assms(1)])
  obtain r where q: "q = a # r" "strict_prefix r t"
    using assms(2,3) c(1) by (cases q) auto
  then have "list_all cont r"
    using c(3) by (auto simp: strict_prefix_def prefix_def)
  moreover have "length r < length t"
    using q(2) by (rule prefix_length_less)
  ultimately show ?thesis
    using c q by (simp add: incomplete_utf8_suffix_lead)
qed

text \<open>
  Splitting a prefix of UTF-8 text where the routine says leaves UTF-8 text in front.
\<close>

lemma incomplete_utf8_suffix_splits:
  assumes "utf8 s" "prefix p s"
  shows "utf8 (take (length p - incomplete_utf8_suffix p) p)"
    "\<exists>c. p = take (length p - incomplete_utf8_suffix p) p @ c \<and>
       (c = [] \<or> (\<exists>d. utf8_char d \<and> strict_prefix c d))"
proof -
  obtain u q c where p: "p = u @ q" "utf8 u" "q = [] \<or> utf8_char c \<and> strict_prefix q c"
    by (rule prefix_utf8_cases [OF assms])
  have n: "incomplete_utf8_suffix p = length q"
  proof (cases "q = []")
    case True
    then show ?thesis using p by (simp add: incomplete_utf8_suffix_utf8)
  next
    case False
    then show ?thesis using p incomplete_utf8_suffix_partial [of c q u] by simp
  qed
  show "utf8 (take (length p - incomplete_utf8_suffix p) p)"
    using p(1,2) unfolding n by simp
  show "\<exists>c. p = take (length p - incomplete_utf8_suffix p) p @ c \<and>
       (c = [] \<or> (\<exists>d. utf8_char d \<and> strict_prefix c d))"
    unfolding n using p by auto
qed

lemma utf8_cases_first:
  assumes "utf8 s" "s \<noteq> []"
  obtains c v where "s = c @ v" "utf8_char c" "utf8 v"
  using assms
proof (induction arbitrary: thesis rule: utf8.induct)
  case (utf8_snoc s c)
  show ?case
  proof (cases "s = []")
    case True
    then show ?thesis
      using utf8_snoc.prems(1) [of c "[]"] utf8_snoc.hyps by (simp add: utf8_Nil)
  next
    case False
    with utf8_snoc.IH obtain d v where "s = d @ v" "utf8_char d" "utf8 v" by blast
    then show ?thesis
      using utf8_snoc.prems(1) [of d "v @ c"] utf8_snoc.hyps by (simp add: utf8.utf8_snoc)
  qed
qed simp

lemma utf8_char_unique:
  assumes "utf8_char c" "utf8_char d" "c @ u = d @ v"
  shows "c = d"
proof -
  obtain a t where c: "c = a # t" "lead_len a = Some (length c)"
    by (rule utf8_char_shape [OF assms(1)])
  obtain b r where d: "d = b # r" "lead_len b = Some (length d)"
    by (rule utf8_char_shape [OF assms(2)])
  have "length c = length d"
    using assms(3) c d by simp
  then show ?thesis
    using assms(3) by simp
qed

lemma utf8_drop_char:
  assumes "utf8 (c @ s)" "utf8_char c"
  shows "utf8 s"
proof -
  have "c @ s \<noteq> []" using assms(2) by (auto elim: utf8_char_shape)
  then obtain d v where d: "c @ s = d @ v" "utf8_char d" "utf8 v"
    by (rule utf8_cases_first [OF assms(1)])
  with utf8_char_unique [OF assms(2) d(2) d(1)] show ?thesis by simp
qed

lemma utf8_remainder: "utf8 u \<Longrightarrow> utf8 (u @ s) \<Longrightarrow> utf8 s"
  by (induction arbitrary: s rule: utf8.induct) (auto dest: utf8_drop_char)

end
