(* ===== verification/Diff_Pretty.thy ===== *)
theory Diff_Pretty
  imports Pretty_Utf8
begin

text \<open>
  The native diff pager of this repository: \<^verbatim>\<open>diff-pretty.c\<close>, its hooks in \<^verbatim>\<open>diff.c\<close>,
  \<^verbatim>\<open>log-tree.c\<close> and \<^verbatim>\<open>builtin/log.c\<close>, and \<^verbatim>\<open>git_pager\<close> of \<^verbatim>\<open>pager.c\<close> that selects it.

  The renderer library behind \<^verbatim>\<open>diff_pretty.h\<close> is not part of the repository: it is the record
  \<open>renderer\<close>, an argument of every operation that calls it.  Its answers may depend on the whole
  history of calls, which the state keeps in order in \<open>calls\<close>.  What the operating system
  answers (pipe, thread creation, the sizes of reads, close, join) are arguments as well.

  The reader thread runs between \<^verbatim>\<open>capture_begin\<close> and the join in \<^verbatim>\<open>capture_end\<close>, while the main
  thread only writes into the pipe; the model lets it run at the join, on all that was written.
\<close>

section \<open>Outcomes, the renderer and the state\<close>

datatype ffi_call =
    Ffi_begin
  | Ffi_push_event u32 u32 "byte list"
  | Ffi_push_patch "byte list"
  | Ffi_last_error
  | Ffi_finish
  | Ffi_page
  | Ffi_abort

text \<open>
  The last call of the history is the one being answered: whether a session was opened, the
  status returned, the error text if there is one.
\<close>

record renderer =
  opens :: "ffi_call list \<Rightarrow> bool"
  status :: "ffi_call list \<Rightarrow> int"
  error_text :: "ffi_call list \<Rightarrow> string option"
  status_quit :: int

datatype stream = Out | Pipe_writer
datatype fd = Read_end | Write_end

record dp =
  native_session :: bool
  native_failed :: bool
  native_quit :: bool
  native_command_session :: bool
  native_error :: string
  native_capture :: bool
  out_file :: "stream option"
  saved_file :: "stream option"
  open_fds :: "fd list"
  pipe_data :: "byte list"
  printed :: "byte list"
  pager_in_use :: bool
  atexits :: nat
  calls :: "ffi_call list"
  errors :: "string list"

text \<open>
  How an operation can stop the process: \<^verbatim>\<open>BUG()\<close> aborts it, a write outside a buffer is undefined,
  \<^verbatim>\<open>die()\<close> exits through the handlers of \<^verbatim>\<open>atexit\<close>.
\<close>

datatype halt = Bug | Overflow | Die string dp

fun and_then :: "'e + 'a \<Rightarrow> ('a \<Rightarrow> 'e + 'b) \<Rightarrow> 'e + 'b" where
  "and_then (Inl e) f = Inl e"
| "and_then (Inr a) f = f a"

lemma and_then_Inr: "and_then m f = Inr b \<longleftrightarrow> (\<exists>a. m = Inr a \<and> f a = Inr b)"
  by (cases m) auto

lemma and_then_Inl:
  "and_then m f = Inl e \<Longrightarrow> (m = Inl e \<Longrightarrow> P) \<Longrightarrow> (\<And>a. m = Inr a \<Longrightarrow> f a = Inl e \<Longrightarrow> P) \<Longrightarrow> P"
  by (cases m) auto

definition initial_dp :: dp where
  "initial_dp = \<lparr>native_session = False, native_failed = False, native_quit = False,
     native_command_session = False, native_error = [], native_capture = False,
     out_file = Some Out, saved_file = None, open_fds = [], pipe_data = [], printed = [],
     pager_in_use = False, atexits = 0, calls = [], errors = []\<rparr>"

definition call :: "ffi_call \<Rightarrow> dp \<Rightarrow> dp" where
  "call c s = s\<lparr>calls := calls s @ [c]\<rparr>"

definition native_error_size :: nat where
  "native_error_size = 256"

text \<open>\<^verbatim>\<open>xsnprintf\<close> with the format \<^verbatim>\<open>%s\<close>: the text must fit with its terminator.\<close>

definition xsnprintf :: "nat \<Rightarrow> string \<Rightarrow> halt + string" where
  "xsnprintf sz txt = (if length txt \<ge> sz then Inl Bug else Inr txt)"

definition remember_native_error :: "renderer \<Rightarrow> string \<Rightarrow> dp \<Rightarrow> halt + dp" where
  "remember_native_error r fallback s =
     (let s = (if native_session s then call Ffi_last_error s else s);
          error = (if native_session s then error_text r (calls s) else None)
      in and_then (xsnprintf native_error_size (case error of Some e \<Rightarrow> e | None \<Rightarrow> fallback))
           (\<lambda>txt. Inr (s\<lparr>native_error := txt, native_failed := True\<rparr>)))"

section \<open>Selecting the pager and opening the session\<close>

record pager_config =
  stdout_is_tty :: bool
  env_git_pager :: "string option"
  core_pager :: "string option"
  env_pager :: "string option"
  default_pager :: string

definition git_pager :: "pager_config \<Rightarrow> string option" where
  "git_pager cfg =
     (if \<not> stdout_is_tty cfg then None
      else
        let pager = (case env_git_pager cfg of None \<Rightarrow> core_pager cfg | Some p \<Rightarrow> Some p);
            pager = (case pager of None \<Rightarrow> env_pager cfg | Some p \<Rightarrow> Some p);
            pager = (case pager of None \<Rightarrow> default_pager cfg | Some p \<Rightarrow> p)
        in if pager = [] \<or> pager = ''cat'' then None else Some pager)"

definition diff_pretty_setup :: "renderer \<Rightarrow> pager_config \<Rightarrow> dp \<Rightarrow> halt + dp \<times> int" where
  "diff_pretty_setup r cfg s =
     (if native_session s then Inr (s, 1)
      else
        let s = s\<lparr>native_failed := False, native_quit := False, native_command_session := False,
                 native_error := []\<rparr>
        in if git_pager cfg \<noteq> Some ''builtin:diff-pretty'' then Inr (s, 0)
           else
             let s = call Ffi_begin s
             in if \<not> opens r (calls s)
                then and_then (xsnprintf native_error_size ''unable to initialize native pager'')
                       (\<lambda>txt. Inr (s\<lparr>native_error := txt, native_failed := True\<rparr>, - 1))
                else Inr (s\<lparr>native_session := True, pager_in_use := True,
                            atexits := atexits s + 1\<rparr>, 1))"

definition diff_pretty_setup_log :: "renderer \<Rightarrow> pager_config \<Rightarrow> dp \<Rightarrow> halt + dp \<times> int" where
  "diff_pretty_setup_log r cfg s =
     and_then (diff_pretty_setup r cfg s)
       (\<lambda>(s, st). Inr (if st > 0 then s\<lparr>native_command_session := True\<rparr> else s, st))"

definition diff_pretty_active :: "dp \<Rightarrow> bool" where
  "diff_pretty_active s \<longleftrightarrow> native_session s \<and> \<not> native_failed s"

definition diff_pretty_quit :: "dp \<Rightarrow> bool" where
  "diff_pretty_quit s \<longleftrightarrow> native_session s \<and> native_quit s"

section \<open>Pushing events and text\<close>

definition push :: "renderer \<Rightarrow> ffi_call \<Rightarrow> string \<Rightarrow> dp \<Rightarrow> halt + dp" where
  "push r c fallback s =
     (if \<not> native_session s \<or> native_failed s \<or> native_quit s then Inr s
      else
        let s = call c s; st = status r (calls s)
        in if st = status_quit r then Inr (s\<lparr>native_quit := True\<rparr>)
           else if st < 0 then remember_native_error r fallback s
           else Inr s)"

definition diff_pretty_emit_event :: "renderer \<Rightarrow> u32 \<Rightarrow> u32 \<Rightarrow> byte list \<Rightarrow> dp \<Rightarrow> halt + dp" where
  "diff_pretty_emit_event r kind flags d =
     push r (Ffi_push_event kind flags d) ''unable to render diff event''"

definition diff_pretty_emit_patch :: "renderer \<Rightarrow> byte list \<Rightarrow> dp \<Rightarrow> halt + dp" where
  "diff_pretty_emit_patch r d = push r (Ffi_push_patch d) ''unable to render Git metadata''"

section \<open>The capture and its reader\<close>

text \<open>
  How the pipe answers the successive reads: interrupted, failed, or with at most so many bytes
  (at least one, and never more than the buffer holds); after that as many as fit.  A read at the
  end of the data returns nothing.
\<close>

datatype read_answer = Interrupted | Read_fails | Returns nat

fun read_pipe ::
  "nat \<Rightarrow> read_answer list \<Rightarrow> byte list \<Rightarrow> byte list option \<times> read_answer list \<times> byte list" where
  "read_pipe cap [] d = (Some (take cap d), [], drop cap d)"
| "read_pipe cap (Interrupted # ans) d = read_pipe cap ans d"
| "read_pipe cap (Read_fails # ans) d = (None, ans, d)"
| "read_pipe cap (Returns n # ans) d =
     (let k = min cap (max 1 n) in (Some (take k d), ans, drop k d))"

lemma read_pipe_data:
  "read_pipe cap ans d = (Some got, ans', d') \<Longrightarrow> d = got @ d' \<and> length got \<le> cap"
  by (induction cap ans d rule: read_pipe.induct) (auto simp: Let_def)

lemma read_pipe_shrinks:
  "(Some got, ans', d') = read_pipe cap ans d \<Longrightarrow> got \<noteq> [] \<Longrightarrow> length d' < length d"
  using read_pipe_data [of cap ans d got ans' d'] by auto

definition reader_buffer_size :: nat where "reader_buffer_size = 8192 + 3"
definition pending_size :: nat where "pending_size = 3"

text \<open>
  The loop of the reader thread; its result is the state, the reader's status and what is left
  in \<^verbatim>\<open>pending\<close>.
\<close>

function reader_loop ::
  "renderer \<Rightarrow> read_answer list \<Rightarrow> byte list \<Rightarrow> byte list \<Rightarrow> dp \<Rightarrow> halt + dp \<times> int \<times> byte list" where
  "reader_loop r ans pending d s =
     (case read_pipe (reader_buffer_size - length pending) ans d of
        (None, _, _) \<Rightarrow>
          and_then (remember_native_error r ''unable to read Git metadata pipe'' s)
            (\<lambda>s. Inr (s, - 1, pending))
      | (Some got, ans', d') \<Rightarrow>
          if got = [] then Inr (s, 0, pending)
          else
            let buffer = pending @ got; n = incomplete_utf8_suffix buffer;
                chunk = take (length buffer - n) buffer;
                pending' = drop (length buffer - n) buffer
            in if length pending' > pending_size then Inl Overflow
               else if chunk = [] then reader_loop r ans' pending' d' s
               else and_then (diff_pretty_emit_patch r chunk s)
                      (\<lambda>s. if native_failed s \<or> native_quit s then Inr (s, 0, pending')
                           else reader_loop r ans' pending' d' s))"
  by pat_completeness auto
termination
  by (relation "measure (\<lambda>(r, ans, pending, d, s). length d)") (auto dest: read_pipe_shrinks)

declare reader_loop.simps [simp del]

definition close_fd :: "fd \<Rightarrow> dp \<Rightarrow> dp" where
  "close_fd f s = s\<lparr>open_fds := remove1 f (open_fds s)\<rparr>"

definition diff_pretty_capture_reader ::
  "renderer \<Rightarrow> read_answer list \<Rightarrow> byte list \<Rightarrow> dp \<Rightarrow> halt + dp \<times> int" where
  "diff_pretty_capture_reader r ans d s =
     and_then (reader_loop r ans [] d s)
       (\<lambda>(s, st, pending).
          and_then (if pending \<noteq> [] \<and> \<not> native_failed s \<and> \<not> native_quit s
                    then diff_pretty_emit_patch r pending s else Inr s)
            (\<lambda>s. Inr (close_fd Read_end s, if native_failed s then - 1 else st)))"

text \<open>How far the system calls of \<^verbatim>\<open>diff_pretty_capture_begin\<close> get.\<close>

datatype begin_outcome = Pipe_fails | Fdopen_fails | Setvbuf_fails | Thread_fails | Thread_starts

definition fail_with :: "renderer \<Rightarrow> string \<Rightarrow> dp \<Rightarrow> halt + dp \<times> int" where
  "fail_with r msg s = and_then (remember_native_error r msg s) (\<lambda>s. Inr (s, - 1))"

text \<open>
  \<open>ptrs\<close> says that both pointer arguments are not NULL; what they point to is \<open>out_file\<close> and
  \<open>saved_file\<close> of the state.  Closing the stream closes the write end under it.
\<close>

definition diff_pretty_capture_begin ::
  "renderer \<Rightarrow> bool \<Rightarrow> begin_outcome \<Rightarrow> dp \<Rightarrow> halt + dp \<times> int" where
  "diff_pretty_capture_begin r ptrs os s =
     (if \<not> native_session s \<or> native_failed s \<or> native_quit s then Inr (s, 0)
      else if \<not> ptrs \<or> out_file s = None then fail_with r ''unable to capture Git metadata'' s
      else if native_capture s then fail_with r ''nested Git metadata capture'' s
      else if os = Pipe_fails then fail_with r ''unable to create Git metadata pipe'' s
      else
        let s = s\<lparr>open_fds := Read_end # Write_end # open_fds s, pipe_data := []\<rparr> in
        if os = Fdopen_fails
        then fail_with r ''unable to create Git metadata buffer'' (close_fd Write_end (close_fd Read_end s))
        else if os = Setvbuf_fails
        then fail_with r ''unable to configure Git metadata pipe'' (close_fd Read_end (close_fd Write_end s))
        else if os = Thread_fails
        then fail_with r ''unable to start Git metadata reader'' (close_fd Read_end (close_fd Write_end s))
        else Inr (s\<lparr>native_capture := True, saved_file := out_file s, out_file := Some Pipe_writer\<rparr>, 1))"

definition fclose_out :: "dp \<Rightarrow> dp" where
  "fclose_out s = (if out_file s = Some Pipe_writer then close_fd Write_end s else s)"

text \<open>
  \<open>closes\<close> and \<open>joins\<close> say that \<^verbatim>\<open>fclose\<close> and \<^verbatim>\<open>pthread_join\<close> return zero.  \<open>keep\<close> runs a step of
  the routine and makes the status negative.
\<close>

definition note_failure :: "renderer \<Rightarrow> bool \<Rightarrow> string \<Rightarrow> dp \<times> int \<Rightarrow> halt + dp \<times> int" where
  "note_failure r fails msg = (\<lambda>(s, st). if fails then fail_with r msg s else Inr (s, st))"

definition diff_pretty_capture_end ::
  "renderer \<Rightarrow> bool \<Rightarrow> bool \<Rightarrow> bool \<Rightarrow> read_answer list \<Rightarrow> dp \<Rightarrow> halt + dp \<times> int" where
  "diff_pretty_capture_end r ptr closes joins ans s =
     (if \<not> ptr \<or> out_file s = None \<or> saved_file s = None
      then fail_with r ''unable to finish Git metadata capture'' s
      else
        and_then (note_failure r (\<not> native_capture s) ''missing Git metadata reader'' (s, 0)) (\<lambda>(s, st).
        and_then (note_failure r (\<not> closes) ''unable to close Git metadata pipe'' (fclose_out s, st)) (\<lambda>(s, st).
        and_then
          (if native_capture s
           then and_then (diff_pretty_capture_reader r ans (pipe_data s) s) (\<lambda>(s, reader_status).
                and_then (note_failure r (\<not> joins) ''unable to join Git metadata reader'' (s, st)) (\<lambda>(s, st).
                Inr (s\<lparr>native_capture := False, pipe_data := []\<rparr>, if reader_status < 0 then - 1 else st)))
           else Inr (s, st)) (\<lambda>(s, st).
        Inr (s\<lparr>out_file := saved_file s\<rparr>, st)))))"

section \<open>Closing the session\<close>

definition diff_pretty_end :: "renderer \<Rightarrow> dp \<Rightarrow> halt + dp \<times> int" where
  "diff_pretty_end r s =
     (if \<not> native_session s then Inr (s, 0)
      else
        and_then
          (if native_failed s then Inr (s, - 1)
           else if native_quit s then Inr (s, 0)
           else
             let s = call Ffi_finish s; st = status r (calls s)
             in if st < 0 then fail_with r ''unable to finish native pager'' s
                else
                  let s = call Ffi_page s; st = status r (calls s)
                  in if st < 0 then fail_with r ''unable to page rendered diff'' s
                     else Inr (s, st))
          (\<lambda>(s, st).
             let s = (if st < 0 \<and> native_error s \<noteq> []
                      then s\<lparr>errors := errors s @ [''diff-pretty: '' @ native_error s]\<rparr> else s);
                 s = (call Ffi_abort s)\<lparr>native_session := False, native_quit := False,
                        native_command_session := False, pager_in_use := False\<rparr>
             in Inr (s, if st < 0 then - 1 else 0)))"

definition diff_pretty_end_after_diff :: "renderer \<Rightarrow> dp \<Rightarrow> halt + dp \<times> int" where
  "diff_pretty_end_after_diff r s =
     (if native_command_session s then Inr (s, 0) else diff_pretty_end r s)"

text \<open>Leaving the process runs every registered handler.\<close>

fun run_atexit :: "renderer \<Rightarrow> nat \<Rightarrow> dp \<Rightarrow> halt + dp" where
  "run_atexit r 0 s = Inr s"
| "run_atexit r (Suc n) s = and_then (diff_pretty_end r s) (\<lambda>(s, _). run_atexit r n s)"

section \<open>The reader delivers the stream\<close>

text \<open>A renderer that accepts everything it is given.\<close>

definition accepting :: "renderer \<Rightarrow> bool" where
  "accepting r \<longleftrightarrow> (\<forall>h. 0 \<le> status r h \<and> status r h \<noteq> status_quit r)"

definition taking :: "dp \<Rightarrow> bool" where
  "taking s \<longleftrightarrow> native_session s \<and> \<not> native_failed s \<and> \<not> native_quit s"

lemma emit_patch_accepted:
  "accepting r \<Longrightarrow> taking s \<Longrightarrow>
   diff_pretty_emit_patch r d s = Inr (s\<lparr>calls := calls s @ [Ffi_push_patch d]\<rparr>)"
proof -
  assume "accepting r" "taking s"
  then have "\<not> status r (calls s @ [Ffi_push_patch d]) < 0"
    "status r (calls s @ [Ffi_push_patch d]) \<noteq> status_quit r"
    by (auto simp: accepting_def not_less)
  then show ?thesis
    using \<open>taking s\<close> by (simp add: diff_pretty_emit_patch_def push_def taking_def call_def Let_def)
qed

lemma taking_calls [simp]: "taking (s\<lparr>calls := cs\<rparr>) = taking s"
  by (simp add: taking_def)

lemma read_pipe_ok:
  "Read_fails \<notin> set ans \<Longrightarrow>
   \<exists>got ans' d'. read_pipe cap ans d = (Some got, ans', d') \<and> Read_fails \<notin> set ans'"
  by (induction cap ans d rule: read_pipe.induct) (auto simp: Let_def)

lemma read_pipe_end: "read_pipe cap ans d = (Some [], ans', d') \<Longrightarrow> 0 < cap \<Longrightarrow> d = []"
  by (induction cap ans d rule: read_pipe.induct) (auto simp: Let_def split: if_splits)

text \<open>What the reader may hold back: the beginning of one code point.\<close>

definition held :: "byte list \<Rightarrow> bool" where
  "held q \<longleftrightarrow> q = [] \<or> (\<exists>c. utf8_char c \<and> strict_prefix q c)"

lemma held_utf8: "held q \<Longrightarrow> utf8 q \<Longrightarrow> q = []"
proof (rule ccontr)
  assume q: "held q" "utf8 q" "q \<noteq> []"
  then obtain c where c: "utf8_char c" "strict_prefix q c" by (auto simp: held_def)
  obtain d v where d: "q = d @ v" "utf8_char d" by (rule utf8_cases_first [OF q(2,3)])
  obtain w where "c = q @ w" "w \<noteq> []" using c(2) by (auto simp: strict_prefix_def prefix_def)
  with d utf8_char_unique [OF c(1) d(2), of "[]" "v @ w"] show False by simp
qed

text \<open>One round: what is pushed and what is held, for the bytes at hand.\<close>

lemma split_buffer:
  fixes b :: "byte list"
  defines "n \<equiv> incomplete_utf8_suffix b"
  shows "b = take (length b - n) b @ drop (length b - n) b"
    "length (drop (length b - n) b) \<le> 3"
    "utf8 (b @ d) \<Longrightarrow> utf8 (take (length b - n) b)"
    "utf8 (b @ d) \<Longrightarrow> utf8 (drop (length b - n) b @ d)"
    "utf8 (b @ d) \<Longrightarrow> held (drop (length b - n) b)"
proof -
  show "b = take (length b - n) b @ drop (length b - n) b" by simp
  show "length (drop (length b - n) b) \<le> 3"
    using incomplete_utf8_suffix_le [of b] by (simp add: n_def)
  assume u: "utf8 (b @ d)"
  note sp = incomplete_utf8_suffix_splits [OF u, of b, folded n_def]
  show t: "utf8 (take (length b - n) b)" using sp(1) by simp
  show "utf8 (drop (length b - n) b @ d)"
    by (rule utf8_remainder [OF t]) (simp add: u append_assoc [symmetric] del: append_assoc)
  show "held (drop (length b - n) b)"
    using sp(2) unfolding held_def by (metis append_take_drop_id prefix_def prefixI same_append_eq)
qed

lemma reader_loop_delivers:
  assumes "accepting r" "taking s" "Read_fails \<notin> set ans" "length pending \<le> 3"
    "U \<Longrightarrow> utf8 (pending @ d) \<and> held pending"
  shows "\<exists>chunks q. reader_loop r ans pending d s =
      Inr (s\<lparr>calls := calls s @ map Ffi_push_patch chunks\<rparr>, 0, q) \<and>
    pending @ d = concat chunks @ q \<and> length q \<le> 3 \<and> [] \<notin> set chunks \<and>
    (U \<longrightarrow> q = [] \<and> list_all utf8 chunks)"
  using assms
proof (induction r ans pending d s rule: reader_loop.induct)
  case (1 r ans pending d s)
  obtain got ans' d' where rd: "read_pipe (reader_buffer_size - length pending) ans d = (Some got, ans', d')"
    and ans': "Read_fails \<notin> set ans'"
    using read_pipe_ok [OF "1.prems"(3)] by blast
  have d: "d = got @ d'" using read_pipe_data [OF rd] by simp
  show ?case
  proof (cases "got = []")
    case True
    then have "d = []"
      using read_pipe_end [of _ ans d] rd "1.prems"(4) by (simp add: reader_buffer_size_def)
    with True rd show ?thesis
      using "1.prems"(4,5) held_utf8 [of pending]
      by (intro exI [of _ "[]"] exI [of _ pending]) (auto simp: reader_loop.simps [of r ans])
  next
    case False
    define b where "b = pending @ got"
    define n where "n = incomplete_utf8_suffix b"
    define chunk where "chunk = take (length b - n) b"
    define p' where "p' = drop (length b - n) b"
    have bd: "pending @ d = b @ d'" by (simp add: b_def d)
    note sp = split_buffer [where b = b, folded n_def, folded chunk_def p'_def]
    have hold: "U \<Longrightarrow> utf8 (p' @ d') \<and> held p'"
      using "1.prems"(5) sp(4,5) [of d'] by (simp add: bd)
    have small: "\<not> length p' > pending_size" using sp(2) by (simp add: pending_size_def)
    show ?thesis
    proof (cases "chunk = []")
      case True
      then have bp: "b = p'" using sp(1) by simp
      have eq: "reader_loop r ans pending d s = reader_loop r ans' p' d' s"
        by (subst reader_loop.simps)
          (simp only: rd prod.case option.case Let_def b_def [symmetric] n_def [symmetric]
            chunk_def [symmetric] p'_def [symmetric] False small True if_True if_False refl)
      show ?thesis
        unfolding eq bd bp
        by (rule "1.IH"(1) [OF rd [symmetric] refl refl False b_def n_def chunk_def p'_def small True])
          (use "1.prems" ans' sp(2) hold in auto)
    next
      case False': False
      define s' where "s' = s\<lparr>calls := calls s @ [Ffi_push_patch chunk]\<rparr>"
      have em: "diff_pretty_emit_patch r chunk s = Inr s'"
        unfolding s'_def by (rule emit_patch_accepted [OF "1.prems"(1,2)])
      have tk: "taking s'" using "1.prems"(2) by (simp add: s'_def)
      then have go: "\<not> (native_failed s' \<or> native_quit s')" by (simp add: taking_def)
      have eq: "reader_loop r ans pending d s = reader_loop r ans' p' d' s'"
        by (subst reader_loop.simps)
          (simp only: rd prod.case option.case Let_def b_def [symmetric] n_def [symmetric]
            chunk_def [symmetric] p'_def [symmetric] False small False' em go and_then.simps
            if_False)
      obtain cs q where q: "reader_loop r ans' p' d' s' =
          Inr (s'\<lparr>calls := calls s' @ map Ffi_push_patch cs\<rparr>, 0, q)"
        "p' @ d' = concat cs @ q" "length q \<le> 3" "[] \<notin> set cs"
        "U \<longrightarrow> q = [] \<and> list_all utf8 cs"
        using "1.IH"(2) [OF rd [symmetric] refl refl False b_def n_def chunk_def p'_def small False' go]
          "1.prems"(1) ans' tk sp(2) hold by blast
      show ?thesis
        unfolding eq q(1)
        by (rule exI [of _ "chunk # cs"], rule exI [of _ q])
          (use q sp(1) sp(3) [of d'] False' bd "1.prems"(5) in \<open>auto simp: s'_def\<close>)
    qed
  qed
qed

lemma capture_reader_delivers:
  assumes "accepting r" "taking s" "Read_fails \<notin> set ans"
  shows "\<exists>chunks. diff_pretty_capture_reader r ans d s =
      Inr (close_fd Read_end (s\<lparr>calls := calls s @ map Ffi_push_patch chunks\<rparr>), 0) \<and>
    concat chunks = d \<and> [] \<notin> set chunks \<and> (utf8 d \<longrightarrow> list_all utf8 chunks)"
proof -
  obtain cs q where q: "reader_loop r ans [] d s =
      Inr (s\<lparr>calls := calls s @ map Ffi_push_patch cs\<rparr>, 0, q)"
    "d = concat cs @ q" "[] \<notin> set cs" "utf8 d \<longrightarrow> q = [] \<and> list_all utf8 cs"
    using reader_loop_delivers [OF assms, of "[]" "utf8 d" d] by (auto simp: held_def)
  let ?s = "s\<lparr>calls := calls s @ map Ffi_push_patch cs\<rparr>"
  have tk: "taking ?s" "\<not> native_failed s" "\<not> native_quit s"
    using assms(2) by (simp_all add: taking_def)
  show ?thesis
  proof (cases "q = []")
    case True
    then show ?thesis
      using q tk by (intro exI [of _ cs]) (simp add: diff_pretty_capture_reader_def)
  next
    case False
    then show ?thesis
      using q tk emit_patch_accepted [OF assms(1) tk(1), of q]
      by (intro exI [of _ "cs @ [q]"]) (simp add: diff_pretty_capture_reader_def)
  qed
qed

lemma remember_native_error_halt: "remember_native_error r f s = Inl h \<Longrightarrow> h = Bug"
  by (auto simp: remember_native_error_def xsnprintf_def Let_def split: if_splits)

lemma push_halt: "push r c f s = Inl h \<Longrightarrow> h = Bug"
  by (auto simp: push_def Let_def dest: remember_native_error_halt split: if_splits)

lemma reader_loop_halt: "reader_loop r ans pending d s = Inl h \<Longrightarrow> h = Bug"
proof (induction r ans pending d s rule: reader_loop.induct)
  case (1 r ans pending d s)
  obtain g ans' d' where rd: "read_pipe (reader_buffer_size - length pending) ans d = (g, ans', d')"
    by (metis prod_cases3)
  show ?case
  proof (cases g)
    case None
    then show ?thesis
      using "1.prems" rd
      by (cases "remember_native_error r ''unable to read Git metadata pipe'' s")
        (auto simp: reader_loop.simps [of r ans] dest: remember_native_error_halt)
  next
    case (Some got)
    define b where "b = pending @ got"
    define n where "n = incomplete_utf8_suffix b"
    define chunk where "chunk = take (length b - n) b"
    define p' where "p' = drop (length b - n) b"
    have small: "\<not> length p' > pending_size"
      using incomplete_utf8_suffix_le [of b] by (simp add: p'_def n_def pending_size_def)
    note rd' = rd [unfolded Some]
    note eq = reader_loop.simps [of r ans pending d s, unfolded rd' prod.case option.case Let_def,
        folded b_def, folded n_def, folded chunk_def p'_def]
    show ?thesis
    proof (cases "got = []")
      case True
      with "1.prems" show ?thesis by (simp add: eq)
    next
      case False
      show ?thesis
      proof (cases "chunk = []")
        case True
        then show ?thesis
          using "1.prems" "1.IH"(1) [OF rd' [symmetric] refl refl False b_def n_def chunk_def p'_def small True]
          unfolding eq if_not_P [OF False] if_not_P [OF small] if_P [OF True] by blast
      next
        case False': False
        note eq' = eq [unfolded if_not_P [OF False] if_not_P [OF small] if_not_P [OF False']]
        show ?thesis
        proof (cases "diff_pretty_emit_patch r chunk s")
          case (Inl e)
          then show ?thesis
            using "1.prems" push_halt by (simp add: eq' diff_pretty_emit_patch_def)
        next
          case (Inr s')
          then show ?thesis
            using "1.prems" "1.IH"(2) [OF rd' [symmetric] refl refl False b_def n_def chunk_def p'_def small False', of s']
            by (auto simp: eq' split: if_splits)
        qed
      qed
    qed
  qed
qed

lemma capture_reader_halt: "diff_pretty_capture_reader r ans d s = Inl h \<Longrightarrow> h = Bug"
proof (cases "reader_loop r ans [] d s")
  case (Inr a)
  assume "diff_pretty_capture_reader r ans d s = Inl h"
  with Inr show "h = Bug"
    by (cases a) (auto simp: diff_pretty_capture_reader_def diff_pretty_emit_patch_def
        dest: push_halt split: if_splits elim: and_then_Inl)
qed (auto simp: diff_pretty_capture_reader_def dest: reader_loop_halt)

section \<open>The properties of the reader\<close>

text \<open>A renderer that accepts everything, for the concrete cases.\<close>

definition plain_renderer :: renderer where
  "plain_renderer = \<lparr>opens = (\<lambda>_. True), status = (\<lambda>_. 0), error_text = (\<lambda>_. None), status_quit = 1\<rparr>"

lemma accepting_plain [simp]: "accepting plain_renderer"
  by (simp add: accepting_def plain_renderer_def)

text \<open>
  C29: Whatever the sizes of the reads and however often they are interrupted, the reader thread
  hands an accepting renderer exactly the bytes written into the pipe, in order and in nonempty
  chunks; when the stream is UTF-8, every chunk is UTF-8 by itself.
\<close>

theorem capture_reader_delivers_stream:
  assumes "accepting r" "taking s" "Read_fails \<notin> set ans"
  shows "\<exists>chunks. diff_pretty_capture_reader r ans d s =
      Inr (close_fd Read_end (s\<lparr>calls := calls s @ map Ffi_push_patch chunks\<rparr>), 0) \<and>
    concat chunks = d \<and> [] \<notin> set chunks \<and> (utf8 d \<longrightarrow> list_all utf8 chunks)"
  using assms by (rule capture_reader_delivers)

theorem capture_reader_delivers_stream_witness:
  "\<exists>chunks. diff_pretty_capture_reader plain_renderer [Returns 2, Interrupted, Returns 1]
      [0x61, 0xc3, 0xa9, 0x62] (initial_dp\<lparr>native_session := True\<rparr>) =
      Inr (close_fd Read_end (initial_dp\<lparr>native_session := True,
             calls := map Ffi_push_patch chunks\<rparr>), 0) \<and>
    concat chunks = [0x61, 0xc3, 0xa9, 0x62]"
  using capture_reader_delivers_stream [of plain_renderer "initial_dp\<lparr>native_session := True\<rparr>"
      "[Returns 2, Interrupted, Returns 1]" "[0x61, 0xc3, 0xa9, 0x62]"]
  by (auto simp: taking_def initial_dp_def)

text \<open>
  The reader never stores outside its buffers: at most three bytes are kept back, the size of
  \<^verbatim>\<open>pending\<close>, whatever the data, the answers of \<^verbatim>\<open>read\<close> and the renderer; the only way it can stop
  the process is an error text that does not fit.
\<close>

theorem capture_reader_in_bounds:
  "diff_pretty_capture_reader r ans d s \<noteq> Inl Overflow \<and> incomplete_utf8_suffix d \<le> pending_size"
  using capture_reader_halt [of r ans d s] incomplete_utf8_suffix_le
  by (auto simp: pending_size_def)

end
