(* ===== verification/Pretty_Protocol.thy ===== *)
theory Pretty_Protocol
  imports Diff_Pretty
begin

text \<open>
  What the clients of the native pager promise the renderer library.  First the hooks through
  which \<^verbatim>\<open>diff.c\<close>, \<^verbatim>\<open>log-tree.c\<close> and \<^verbatim>\<open>builtin/log.c\<close> drive it, then an abstract machine for one
  session of the library (\<open>phase\<close>), the invariant that relates it to the state of
  \<^verbatim>\<open>diff-pretty.c\<close>, and its preservation by every hook.
\<close>

section \<open>The hooks\<close>

datatype diff_symbol =
    BINARY_DIFF_HEADER | BINARY_DIFF_HEADER_DELTA | BINARY_DIFF_HEADER_LITERAL
  | BINARY_DIFF_BODY | BINARY_DIFF_FOOTER | STATS_SUMMARY_NO_FILES | STATS_SUMMARY_ABBREV
  | STATS_SUMMARY_INSERTS_DELETES | STATS_LINE | WORD_DIFF | STAT_SEP | SUMMARY
  | SUBMODULE_ADD | SUBMODULE_DEL | SUBMODULE_UNTRACKED | SUBMODULE_MODIFIED
  | SUBMODULE_HEADER | SUBMODULE_ERROR | SUBMODULE_PIPETHROUGH | REWRITE_DIFF | BINARY_FILES
  | HEADER | FILEPAIR_PLUS | FILEPAIR_MINUS | WORDS_PORCELAIN | WORDS | CONTEXT
  | CONTEXT_INCOMPLETE | PLUS | MINUS | CONTEXT_FRAGINFO | CONTEXT_MARKER | SEPARATOR

text \<open>The value of the C enumerator.\<close>

primrec diff_pretty_event_kind :: "diff_symbol \<Rightarrow> u32" where
  "diff_pretty_event_kind BINARY_DIFF_HEADER = 0"
| "diff_pretty_event_kind BINARY_DIFF_HEADER_DELTA = 1"
| "diff_pretty_event_kind BINARY_DIFF_HEADER_LITERAL = 2"
| "diff_pretty_event_kind BINARY_DIFF_BODY = 3"
| "diff_pretty_event_kind BINARY_DIFF_FOOTER = 4"
| "diff_pretty_event_kind STATS_SUMMARY_NO_FILES = 5"
| "diff_pretty_event_kind STATS_SUMMARY_ABBREV = 6"
| "diff_pretty_event_kind STATS_SUMMARY_INSERTS_DELETES = 7"
| "diff_pretty_event_kind STATS_LINE = 8"
| "diff_pretty_event_kind WORD_DIFF = 9"
| "diff_pretty_event_kind STAT_SEP = 10"
| "diff_pretty_event_kind SUMMARY = 11"
| "diff_pretty_event_kind SUBMODULE_ADD = 12"
| "diff_pretty_event_kind SUBMODULE_DEL = 13"
| "diff_pretty_event_kind SUBMODULE_UNTRACKED = 14"
| "diff_pretty_event_kind SUBMODULE_MODIFIED = 15"
| "diff_pretty_event_kind SUBMODULE_HEADER = 16"
| "diff_pretty_event_kind SUBMODULE_ERROR = 17"
| "diff_pretty_event_kind SUBMODULE_PIPETHROUGH = 18"
| "diff_pretty_event_kind REWRITE_DIFF = 19"
| "diff_pretty_event_kind BINARY_FILES = 20"
| "diff_pretty_event_kind HEADER = 21"
| "diff_pretty_event_kind FILEPAIR_PLUS = 22"
| "diff_pretty_event_kind FILEPAIR_MINUS = 23"
| "diff_pretty_event_kind WORDS_PORCELAIN = 24"
| "diff_pretty_event_kind WORDS = 25"
| "diff_pretty_event_kind CONTEXT = 26"
| "diff_pretty_event_kind CONTEXT_INCOMPLETE = 27"
| "diff_pretty_event_kind PLUS = 28"
| "diff_pretty_event_kind MINUS = 29"
| "diff_pretty_event_kind CONTEXT_FRAGINFO = 30"
| "diff_pretty_event_kind CONTEXT_MARKER = 31"
| "diff_pretty_event_kind SEPARATOR = 32"

text \<open>
  A diff line as it reaches \<^verbatim>\<open>emit_diff_symbol_from_struct\<close>, and the separator the options carry.
\<close>

record diff_event =
  ev_symbol :: diff_symbol
  ev_flags :: u32
  ev_line :: "byte list"

definition event_payload :: "byte list option \<Rightarrow> diff_event \<Rightarrow> byte list" where
  "event_payload stat_sep e =
     (if ev_symbol e = STAT_SEP then (case stat_sep of Some t \<Rightarrow> t | None \<Rightarrow> []) else ev_line e)"

text \<open>
  The head of \<^verbatim>\<open>emit_diff_symbol_from_struct\<close>: the boolean says whether it returned there, without
  reaching the ordinary printer.
\<close>

definition emit_diff_symbol_native ::
  "renderer \<Rightarrow> byte list option \<Rightarrow> diff_event \<Rightarrow> dp \<Rightarrow> halt + dp \<times> bool" where
  "emit_diff_symbol_native r stat_sep e s =
     (if out_file s = None then Inr (s, True)
      else if diff_pretty_active s
      then and_then (diff_pretty_emit_event r (diff_pretty_event_kind (ev_symbol e)) (ev_flags e)
                       (event_payload stat_sep e) s)
             (\<lambda>s. Inr (s, True))
      else Inr (s, False))"

definition diff_flush_native :: "renderer \<Rightarrow> dp \<Rightarrow> halt + dp" where
  "diff_flush_native r s =
     (if diff_pretty_active s
      then and_then (diff_pretty_end_after_diff r s)
             (\<lambda>(s, st). if st < 0 then Inl (Die ''builtin:diff-pretty pager failed'' s) else Inr s)
      else Inr s)"

text \<open>
  The native part of \<^verbatim>\<open>setup_diff_pager\<close>; \<open>exit_with_status\<close> is the option's flag, \<open>pager_config_diff\<close>
  the value of \<^verbatim>\<open>check_pager_config\<close>.  The boolean says that \<^verbatim>\<open>setup_pager\<close> is reached.
\<close>

definition setup_diff_pager ::
  "renderer \<Rightarrow> pager_config \<Rightarrow> bool \<Rightarrow> int \<Rightarrow> dp \<Rightarrow> halt + dp \<times> bool" where
  "setup_diff_pager r cfg exit_with_status pager_config_diff s =
     (if \<not> exit_with_status \<and> pager_config_diff \<noteq> 0
      then and_then (diff_pretty_setup r cfg s)
             (\<lambda>(s, native).
                if native < 0 then Inl (Die ''unable to initialize builtin:diff-pretty'' s)
                else if native > 0 then Inr (s, False) else Inr (s, True))
      else Inr (s, False))"

definition setup_native_log_pager :: "renderer \<Rightarrow> pager_config \<Rightarrow> dp \<Rightarrow> halt + dp" where
  "setup_native_log_pager r cfg s =
     and_then (diff_pretty_setup_log r cfg s)
       (\<lambda>(s, native).
          if native < 0 then Inl (Die ''unable to initialize builtin:diff-pretty'' s) else Inr s)"

datatype object_type = OBJ_COMMIT | OBJ_TREE | OBJ_BLOB | OBJ_TAG

definition setup_native_show_pager ::
  "renderer \<Rightarrow> pager_config \<Rightarrow> bool \<Rightarrow> object_type list \<Rightarrow> dp \<Rightarrow> halt + dp" where
  "setup_native_show_pager r cfg format_patch pending s =
     (if \<not> format_patch \<or> pending = [] \<or> \<not> list_all (\<lambda>t. t = OBJ_COMMIT) pending then Inr s
      else setup_native_log_pager r cfg s)"

definition finish_native_log_pager :: "renderer \<Rightarrow> dp \<Rightarrow> halt + dp" where
  "finish_native_log_pager r s =
     (if diff_pretty_active s
      then and_then (diff_pretty_end r s)
             (\<lambda>(s, st). if st < 0 then Inl (Die ''builtin:diff-pretty pager failed'' s) else Inr s)
      else Inr s)"

text \<open>What \<^verbatim>\<open>show_log\<close> prints goes where \<^verbatim>\<open>diffopt.file\<close> points.\<close>

definition write_out :: "byte list \<Rightarrow> dp \<Rightarrow> dp" where
  "write_out t s =
     (case out_file s of
        Some Pipe_writer \<Rightarrow> s\<lparr>pipe_data := pipe_data s @ t\<rparr>
      | Some Out \<Rightarrow> s\<lparr>printed := printed s @ t\<rparr>
      | None \<Rightarrow> s)"

text \<open>The answers of the system during one capture.\<close>

record capture_env =
  begins :: begin_outcome
  closes :: bool
  joins :: bool
  reads :: "read_answer list"

text \<open>
  The capture around \<^verbatim>\<open>show_log\<close> in \<^verbatim>\<open>log_tree_commit\<close> and \<^verbatim>\<open>show_log\<close>'s other caller:
  the local \<^verbatim>\<open>saved_file\<close> starts as NULL.
\<close>

definition show_log_native :: "renderer \<Rightarrow> capture_env \<Rightarrow> byte list \<Rightarrow> dp \<Rightarrow> halt + dp" where
  "show_log_native r env text_bytes s =
     and_then (diff_pretty_capture_begin r True (begins env) (s\<lparr>saved_file := None\<rparr>))
       (\<lambda>(s, native_capture).
          if native_capture < 0
          then Inl (Die ''unable to capture Git metadata for builtin:diff-pretty'' s)
          else
            let s = write_out text_bytes s
            in if native_capture \<noteq> 0
               then and_then (diff_pretty_capture_end r True (closes env) (joins env) (reads env) s)
                      (\<lambda>(s, st). if st < 0
                                 then Inl (Die ''builtin:diff-pretty metadata capture failed'' s)
                                 else Inr s)
               else Inr s)"

section \<open>The abstract session\<close>

text \<open>
  One session of the library, from begin to abort.  \<open>Failing\<close> is the moment after a negative
  status, when the error text is due.
\<close>

datatype phase = Idle | Live | Quitted | Failing | Broken | Finished | Paged

fun phase_step :: "renderer \<Rightarrow> ffi_call list \<Rightarrow> phase \<Rightarrow> ffi_call \<Rightarrow> phase option" where
  "phase_step r h Idle Ffi_begin = Some (if opens r h then Live else Idle)"
| "phase_step r h Live (Ffi_push_event _ _ _) =
     Some (if status r h = status_quit r then Quitted else if status r h < 0 then Failing else Live)"
| "phase_step r h Live (Ffi_push_patch _) =
     Some (if status r h = status_quit r then Quitted else if status r h < 0 then Failing else Live)"
| "phase_step r h Live Ffi_finish = Some (if status r h < 0 then Failing else Finished)"
| "phase_step r h Finished Ffi_page = Some (if status r h < 0 then Failing else Paged)"
| "phase_step r h ph Ffi_last_error =
     (if ph = Live \<or> ph = Quitted \<or> ph = Failing \<or> ph = Broken then Some Broken else None)"
| "phase_step r h ph Ffi_abort =
     (if ph = Quitted \<or> ph = Broken \<or> ph = Paged then Some Idle else None)"
| "phase_step r h _ _ = None"

fun run_protocol ::
  "renderer \<Rightarrow> ffi_call list \<Rightarrow> phase \<Rightarrow> ffi_call list \<Rightarrow> phase option" where
  "run_protocol r h ph [] = Some ph"
| "run_protocol r h ph (c # cs) =
     (case phase_step r (h @ [c]) ph c of
        None \<Rightarrow> None | Some ph' \<Rightarrow> run_protocol r (h @ [c]) ph' cs)"

lemma run_protocol_append:
  "run_protocol r h ph (cs @ ds) =
   (case run_protocol r h ph cs of None \<Rightarrow> None | Some ph' \<Rightarrow> run_protocol r (h @ cs) ph' ds)"
  by (induction cs arbitrary: h ph) (auto split: option.splits)

definition phase_of :: "dp \<Rightarrow> phase" where
  "phase_of s = (if \<not> native_session s then Idle else if native_failed s then Broken
                 else if native_quit s then Quitted else Live)"

definition follows :: "renderer \<Rightarrow> phase \<Rightarrow> dp \<Rightarrow> bool" where
  "follows r ph s \<longleftrightarrow> run_protocol r [] Idle (calls s) = Some ph"

lemma follows_call:
  "follows r ph s \<Longrightarrow> follows r ph' (call c s) \<longleftrightarrow> phase_step r (calls s @ [c]) ph c = Some ph'"
  by (auto simp: follows_def call_def run_protocol_append split: option.splits)

lemma follows_cong: "calls s' = calls s \<Longrightarrow> follows r ph s' = follows r ph s"
  by (simp add: follows_def)

section \<open>The invariant\<close>

definition dp_inv :: "renderer \<Rightarrow> dp \<Rightarrow> bool" where
  "dp_inv r s \<longleftrightarrow> follows r (phase_of s) s \<and> pager_in_use s = native_session s \<and>
     length (native_error s) < native_error_size \<and> (native_session s \<longrightarrow> 0 < atexits s)"

text \<open>The part of the state that only the capture changes.\<close>

definition io :: "dp \<Rightarrow> stream option \<times> stream option \<times> bool \<times> fd list \<times> byte list \<times> byte list" where
  "io s = (out_file s, saved_file s, native_capture s, open_fds s, pipe_data s, printed s)"

lemma remember_native_error_inv:
  assumes "remember_native_error r f s = Inr s'" "follows r ph s"
    "native_session s \<Longrightarrow> ph \<in> {Live, Quitted, Failing, Broken}" "\<not> native_session s \<Longrightarrow> ph = Idle"
    "pager_in_use s = native_session s" "native_session s \<longrightarrow> 0 < atexits s"
  shows "dp_inv r s'" "io s' = io s" "native_failed s'" "native_session s' = native_session s"
proof -
  have fc: "native_session s \<Longrightarrow> follows r Broken (call Ffi_last_error s)"
    using assms(3) by (subst follows_call [OF assms(2)]) auto
  obtain s0 msg where s0: "s0 = (if native_session s then call Ffi_last_error s else s)"
    and s': "s' = s0\<lparr>native_error := msg, native_failed := True\<rparr>" and len: "length msg < native_error_size"
    using assms(1) by (auto simp: remember_native_error_def Let_def xsnprintf_def split: if_splits)
  have "follows r (phase_of s') s'"
    using fc assms(2,4) by (auto simp: s0 s' phase_of_def call_def follows_def)
  then show "dp_inv r s'"
    using assms(5,6) len by (auto simp: dp_inv_def s' s0 call_def)
  show "io s' = io s" "native_failed s'" "native_session s' = native_session s"
    by (auto simp: s0 s' io_def call_def)
qed

lemma phase_of_error: "native_session s \<Longrightarrow> phase_of s \<in> {Live, Quitted, Failing, Broken}"
  "\<not> native_session s \<Longrightarrow> phase_of s = Idle"
  by (auto simp: phase_of_def)

lemma remember_inv:
  assumes "remember_native_error r f s = Inr s'" "dp_inv r s"
  shows "dp_inv r s'" "io s' = io s" "native_failed s'" "native_session s' = native_session s"
  using remember_native_error_inv [OF assms(1), of "phase_of s"] assms(2) phase_of_error [of s]
  by (auto simp: dp_inv_def)

lemma fail_with_inv:
  assumes "fail_with r f s = Inr (s', st)" "dp_inv r s"
  shows "dp_inv r s'" "io s' = io s" "native_failed s'" "st = - 1"
proof -
  have "remember_native_error r f s = Inr s'" and st: "st = - 1"
    using assms(1) by (auto simp: fail_with_def and_then_Inr)
  from remember_inv [OF this(1) assms(2)] st
  show "dp_inv r s'" "io s' = io s" "native_failed s'" "st = - 1" by blast+
qed

lemma push_inv:
  assumes "push r c f s = Inr s'" "dp_inv r s"
    and c: "(\<exists>k fl d. c = Ffi_push_event k fl d) \<or> (\<exists>d. c = Ffi_push_patch d)"
  shows "dp_inv r s' \<and> io s' = io s"
proof (cases "\<not> native_session s \<or> native_failed s \<or> native_quit s")
  case True
  then show ?thesis using assms by (auto simp: push_def)
next
  case False
  let ?s = "call c s"
  let ?st = "status r (calls ?s)"
  have live: "follows r Live s" using False assms(2) by (simp add: dp_inv_def phase_of_def)
  have st: "phase_step r (calls s @ [c]) Live c =
      Some (if ?st = status_quit r then Quitted else if ?st < 0 then Failing else Live)"
    using c by (auto simp: call_def)
  note fc = follows_call [OF live, of _ c, unfolded st]
  consider (quit) "?st = status_quit r" | (err) "?st \<noteq> status_quit r" "?st < 0"
    | (ok) "?st \<noteq> status_quit r" "\<not> ?st < 0" by blast
  then show ?thesis
  proof cases
    case quit
    then have "s' = ?s\<lparr>native_quit := True\<rparr>" using assms(1) False by (simp add: push_def Let_def)
    with quit fc False assms(2) show ?thesis
      by (auto simp: dp_inv_def phase_of_def call_def io_def follows_def)
  next
    case err
    then have rem: "remember_native_error r f ?s = Inr s'"
      using assms(1) False by (simp add: push_def Let_def)
    have "follows r Failing ?s" using err fc by simp
    from remember_native_error_inv [OF rem this] False assms(2) show ?thesis
      by (auto simp: call_def dp_inv_def io_def)
  next
    case ok
    then have "s' = ?s" using assms(1) False by (simp add: push_def Let_def)
    with ok fc False assms(2) show ?thesis
      by (auto simp: dp_inv_def phase_of_def call_def io_def follows_def)
  qed
qed

lemma emit_patch_inv:
  "diff_pretty_emit_patch r d s = Inr s' \<Longrightarrow> dp_inv r s \<Longrightarrow> dp_inv r s' \<and> io s' = io s"
  unfolding diff_pretty_emit_patch_def by (rule push_inv) auto

lemma emit_event_inv:
  "diff_pretty_emit_event r k fl d s = Inr s' \<Longrightarrow> dp_inv r s \<Longrightarrow> dp_inv r s' \<and> io s' = io s"
  unfolding diff_pretty_emit_event_def by (rule push_inv) auto

lemma diff_pretty_setup_inv:
  assumes "diff_pretty_setup r cfg s = Inr (s', st)" "dp_inv r s"
  shows "dp_inv r s' \<and> io s' = io s"
proof (cases "native_session s \<or> git_pager cfg \<noteq> Some ''builtin:diff-pretty''")
  case True
  then show ?thesis
    using assms by (auto simp: diff_pretty_setup_def Let_def dp_inv_def phase_of_def follows_def
        io_def native_error_size_def split: if_splits)
next
  case False
  let ?s = "s\<lparr>native_failed := False, native_quit := False, native_command_session := False,
    native_error := []\<rparr>"
  have "follows r Idle ?s"
    using False assms(2) by (simp add: dp_inv_def phase_of_def follows_def)
  then have "follows r (if opens r (calls (call Ffi_begin ?s)) then Live else Idle) (call Ffi_begin ?s)"
    by (subst follows_call) (auto simp: call_def)
  with False assms show ?thesis
    by (auto simp: diff_pretty_setup_def Let_def dp_inv_def phase_of_def follows_def call_def
        xsnprintf_def io_def native_error_size_def split: if_splits)
qed

lemma dp_inv_command_session [simp]:
  "dp_inv r (s\<lparr>native_command_session := b\<rparr>) = dp_inv r s"
  by (simp add: dp_inv_def follows_def phase_of_def)

lemma diff_pretty_setup_log_inv:
  assumes "diff_pretty_setup_log r cfg s = Inr (s', st)" "dp_inv r s"
  shows "dp_inv r s' \<and> io s' = io s"
proof -
  obtain t where t: "diff_pretty_setup r cfg s = Inr (t, st)"
    and s': "s' = (if st > 0 then t\<lparr>native_command_session := True\<rparr> else t)"
    using assms(1) by (auto simp: diff_pretty_setup_log_def and_then_Inr)
  from diff_pretty_setup_inv [OF t assms(2)] s' show ?thesis
    by (simp add: io_def)
qed

text \<open>The abort that ends every way through \<^verbatim>\<open>diff_pretty_end\<close>.\<close>

lemma abort_inv:
  assumes "follows r ph s" "ph \<in> {Quitted, Broken, Paged}"
    "s' = (call Ffi_abort (s\<lparr>errors := es\<rparr>))\<lparr>native_session := False, native_quit := False,
            native_command_session := False, pager_in_use := False\<rparr>"
    "length (native_error s) < native_error_size"
  shows "dp_inv r s' \<and> io s' = io s \<and> \<not> native_session s'"
proof -
  have "follows r ph (s\<lparr>errors := es\<rparr>)" using assms(1) by (simp add: follows_def)
  then have "follows r Idle (call Ffi_abort (s\<lparr>errors := es\<rparr>))"
    using assms(2) by (subst follows_call) auto
  then show ?thesis
    using assms(3,4) by (auto simp: dp_inv_def follows_def call_def phase_of_def io_def)
qed

lemma errors_same: "s\<lparr>errors := errors s\<rparr> = (s :: dp)"
  by simp

text \<open>The state before the abort.\<close>

definition end_pages :: "renderer \<Rightarrow> dp \<Rightarrow> halt + dp \<times> int" where
  "end_pages r s =
     (if native_failed s then Inr (s, - 1)
      else if native_quit s then Inr (s, 0)
      else
        let s = call Ffi_finish s; st = status r (calls s)
        in if st < 0 then fail_with r ''unable to finish native pager'' s
           else
             let s = call Ffi_page s; st = status r (calls s)
             in if st < 0 then fail_with r ''unable to page rendered diff'' s
                else Inr (s, st))"

lemma diff_pretty_end_pages:
  "diff_pretty_end r s =
     (if \<not> native_session s then Inr (s, 0)
      else and_then (end_pages r s) (\<lambda>(s, st).
        Inr ((call Ffi_abort (s\<lparr>errors := if st < 0 \<and> native_error s \<noteq> []
               then errors s @ [''diff-pretty: '' @ native_error s] else errors s\<rparr>))
             \<lparr>native_session := False, native_quit := False, native_command_session := False,
              pager_in_use := False\<rparr>, if st < 0 then - 1 else 0)))"
  unfolding diff_pretty_end_def end_pages_def
  by (rule if_cong [OF refl refl], rule arg_cong [where f = "and_then _"], rule ext)
    (auto simp: Let_def call_def)

lemma fail_with_broken:
  assumes "fail_with r f s = Inr (s', st)" "follows r Failing s" "native_session s"
  shows "follows r Broken s' \<and> length (native_error s') < native_error_size \<and> io s' = io s"
proof -
  have "follows r Broken (call Ffi_last_error s)"
    by (subst follows_call [OF assms(2)]) simp
  then show ?thesis
    using assms by (auto simp: fail_with_def and_then_Inr remember_native_error_def Let_def
        xsnprintf_def follows_def io_def call_def split: if_splits)
qed

lemma end_pages_inv:
  assumes "end_pages r s = Inr (s', st)" "dp_inv r s" "native_session s"
  shows "\<exists>ph. follows r ph s' \<and> ph \<in> {Quitted, Broken, Paged} \<and>
    length (native_error s') < native_error_size \<and> io s' = io s"
proof (cases "native_failed s \<or> native_quit s")
  case True
  then show ?thesis
    using assms by (auto simp: end_pages_def dp_inv_def phase_of_def split: if_splits)
next
  case False
  then have live: "follows r Live s" and len: "length (native_error s) < native_error_size"
    using assms(2,3) by (simp_all add: dp_inv_def phase_of_def)
  let ?f = "call Ffi_finish s"
  let ?p = "call Ffi_page ?f"
  have f: "follows r (if status r (calls ?f) < 0 then Failing else Finished) ?f"
    by (subst follows_call [OF live]) (auto simp: call_def)
  have same: "native_session ?f" "native_session ?p" "io ?f = io s" "io ?p = io s"
    "native_error ?p = native_error s"
    using assms(3) by (simp_all add: call_def io_def)
  show ?thesis
  proof (cases "status r (calls ?f) < 0")
    case True
    then have "fail_with r ''unable to finish native pager'' ?f = Inr (s', st)"
      using assms(1) False by (simp add: end_pages_def Let_def)
    from fail_with_broken [OF this] f True same show ?thesis by auto
  next
    case fin: False
    then have p: "follows r (if status r (calls ?p) < 0 then Failing else Paged) ?p"
      using f by (subst follows_call [of r Finished]) (auto simp: call_def)
    show ?thesis
    proof (cases "status r (calls ?p) < 0")
      case True
      then have "fail_with r ''unable to page rendered diff'' ?p = Inr (s', st)"
        using assms(1) False fin by (simp add: end_pages_def Let_def)
      from fail_with_broken [OF this] p True same show ?thesis by auto
    next
      case pag: False
      then have "s' = ?p" using assms(1) False fin by (simp add: end_pages_def Let_def)
      with p pag same len show ?thesis by auto
    qed
  qed
qed

lemma diff_pretty_end_inv:
  assumes "diff_pretty_end r s = Inr (s', st)" "dp_inv r s"
  shows "dp_inv r s' \<and> io s' = io s \<and> \<not> native_session s'"
proof (cases "native_session s")
  case False
  then show ?thesis using assms by (simp add: diff_pretty_end_def)
next
  case True
  then obtain t st' where t: "end_pages r s = Inr (t, st')"
    and s': "\<exists>es. s' = (call Ffi_abort (t\<lparr>errors := es\<rparr>))\<lparr>native_session := False, native_quit := False,
      native_command_session := False, pager_in_use := False\<rparr>"
    using assms(1) by (auto simp: diff_pretty_end_pages and_then_Inr)
  from end_pages_inv [OF t assms(2) True] s' show ?thesis
    using abort_inv by metis
qed

end
