(* ===== verification/Log_Pager.thy ===== *)
theory Log_Pager
  imports Pretty_Protocol
begin

text \<open>
  The commands that use the native pager: every sequence of hooks they run keeps the protocol of
  the library and leaves no descriptor behind; leaving the process closes the session; and
  \<^verbatim>\<open>git log\<close> hands the renderer every commit's message and diff, in order.
\<close>

section \<open>The capture keeps the invariant\<close>

lemma reader_loop_inv:
  "reader_loop r ans pending d s = Inr (s', st, q) \<Longrightarrow> dp_inv r s \<Longrightarrow> dp_inv r s' \<and> io s' = io s"
proof (induction r ans pending d s rule: reader_loop.induct)
  case (1 r ans pending d s)
  obtain g ans' d' where rd: "read_pipe (reader_buffer_size - length pending) ans d = (g, ans', d')"
    by (metis prod_cases3)
  show ?case
  proof (cases g)
    case None
    then have "remember_native_error r ''unable to read Git metadata pipe'' s = Inr s'"
      using "1.prems"(1) rd by (auto simp: reader_loop.simps [of r ans] and_then_Inr)
    from remember_inv [OF this "1.prems"(2)] show ?thesis by simp
  next
    case (Some got)
    define b where "b = pending @ got"
    define n where "n = incomplete_utf8_suffix b"
    define chunk where "chunk = take (length b - n) b"
    define p' where "p' = drop (length b - n) b"
    note rd' = rd [unfolded Some]
    note eq = reader_loop.simps [of r ans pending d s, unfolded rd' prod.case option.case Let_def,
        folded b_def, folded n_def, folded chunk_def p'_def]
    show ?thesis
    proof (cases "got = [] \<or> length p' > pending_size")
      case True
      with "1.prems" show ?thesis by (simp only: eq split: if_splits) auto
    next
      case False
      then have ne: "got \<noteq> []" and small: "\<not> length p' > pending_size" by auto
      note IH = "1.IH" [OF rd' [symmetric] refl refl ne b_def n_def chunk_def p'_def small]
      show ?thesis
      proof (cases "chunk = []")
        case True
        then show ?thesis
          using "1.prems" IH(1) unfolding eq if_not_P [OF ne] if_not_P [OF small] if_P [OF True] by blast
      next
        case ch: False
        note eq' = eq [unfolded if_not_P [OF ne] if_not_P [OF small] if_not_P [OF ch]]
        obtain t where t: "diff_pretty_emit_patch r chunk s = Inr t"
          and rest: "(if native_failed t \<or> native_quit t then Inr (t, 0, p')
                      else reader_loop r ans' p' d' t) = Inr (s', st, q)"
          using "1.prems"(1) by (auto simp: eq' and_then_Inr)
        from emit_patch_inv [OF t "1.prems"(2)] rest IH(2) [OF ch, of t] show ?thesis
          by (auto split: if_splits)
      qed
    qed
  qed
qed

lemma capture_reader_inv:
  assumes "diff_pretty_capture_reader r ans d s = Inr (s', st)" "dp_inv r s"
  shows "dp_inv r s' \<and> io s' = io (close_fd Read_end s)"
proof -
  obtain t st' q u where t: "reader_loop r ans [] d s = Inr (t, st', q)"
    and u: "(if q \<noteq> [] \<and> \<not> native_failed t \<and> \<not> native_quit t
             then diff_pretty_emit_patch r q t else Inr t) = Inr u"
    and s': "s' = close_fd Read_end u"
    using assms(1) by (auto simp: diff_pretty_capture_reader_def and_then_Inr)
  from reader_loop_inv [OF t assms(2)] u have "dp_inv r u \<and> io u = io s"
    using emit_patch_inv [of r q t u] by (auto split: if_splits)
  then show ?thesis
    by (simp add: s' close_fd_def io_def dp_inv_def follows_def phase_of_def)
qed

text \<open>Between the hooks there is no capture, its descriptors are closed, output is the output.\<close>

definition settled :: "dp \<Rightarrow> bool" where
  "settled s \<longleftrightarrow> out_file s = Some Out \<and> \<not> native_capture s \<and> open_fds s = []"

definition capturing :: "dp \<Rightarrow> bool" where
  "capturing s \<longleftrightarrow> out_file s = Some Pipe_writer \<and> saved_file s = Some Out \<and> native_capture s \<and>
     open_fds s = [Read_end, Write_end]"

lemma io_settled: "io s' = io s \<Longrightarrow> settled s' = settled s"
  by (simp add: settled_def io_def)

lemma io_capturing: "io s' = io s \<Longrightarrow> capturing s' = capturing s"
  by (simp add: capturing_def io_def)

lemma dp_inv_io:
  "dp_inv r (s\<lparr>saved_file := a\<rparr>) = dp_inv r s"
  "dp_inv r (s\<lparr>open_fds := fs\<rparr>) = dp_inv r s"
  "dp_inv r (s\<lparr>open_fds := fs, pipe_data := ps\<rparr>) = dp_inv r s"
  "dp_inv r (s\<lparr>pipe_data := ps\<rparr>) = dp_inv r s"
  "dp_inv r (s\<lparr>printed := ps\<rparr>) = dp_inv r s"
  "dp_inv r (s\<lparr>out_file := a\<rparr>) = dp_inv r s"
  "dp_inv r (s\<lparr>native_capture := c, pipe_data := ps\<rparr>) = dp_inv r s"
  "dp_inv r (s\<lparr>native_capture := c, out_file := b, saved_file := a\<rparr>) = dp_inv r s"
  by (simp_all add: dp_inv_def follows_def phase_of_def)

lemma dp_inv_close [simp]: "dp_inv r (close_fd f s) = dp_inv r s"
  by (simp add: close_fd_def dp_inv_io)

lemma dp_inv_write_out [simp]: "dp_inv r (write_out t s) = dp_inv r s"
  by (simp add: write_out_def dp_inv_io split: option.splits stream.splits)

lemma write_out_io [simp]: "settled (write_out t s) = settled s" "capturing (write_out t s) = capturing s"
  by (auto simp: write_out_def settled_def capturing_def split: option.splits stream.splits)

lemma capture_begin_inv:
  assumes "diff_pretty_capture_begin r True os s = Inr (s', st)" "dp_inv r s" "settled s"
  shows "dp_inv r s' \<and> (st = 1 \<and> capturing s' \<or> (st = 0 \<or> st = - 1) \<and> settled s')"
proof -
  let ?s = "s\<lparr>open_fds := [Read_end, Write_end], pipe_data := []\<rparr>"
  let ?c = "close_fd Read_end (close_fd Write_end ?s)"
  have fail: "dp_inv r s' \<and> st = - 1 \<and> settled s'"
    if "fail_with r m t = Inr (s', st)" "dp_inv r t" "settled t" for m t
    using fail_with_inv [OF that(1,2)] that(3) by (auto dest: io_settled)
  have fds: "open_fds s = []" using assms(3) by (simp add: settled_def)
  have c: "settled ?c" "settled (close_fd Write_end (close_fd Read_end ?s))"
    using assms(3) by (auto simp: settled_def close_fd_def)
  have i: "dp_inv r ?c" "dp_inv r (close_fd Write_end (close_fd Read_end ?s))"
    using assms(2) by (simp_all add: dp_inv_io)
  show ?thesis
  proof (cases "taking s \<and> os = Thread_starts")
    case True
    then have "s' = ?s\<lparr>native_capture := True, saved_file := Some Out, out_file := Some Pipe_writer\<rparr> \<and> st = 1"
      using assms(1,3) fds
      by (auto simp: diff_pretty_capture_begin_def taking_def settled_def Let_def)
    then show ?thesis
      using assms(2) by (auto simp: capturing_def dp_inv_def follows_def phase_of_def)
  next
    case False
    then show ?thesis
      using assms(1) fail [OF _ assms(2,3)] fail [OF _ i(1) c(1)] fail [OF _ i(2) c(2)] assms(2,3)
      unfolding diff_pretty_capture_begin_def Let_def fds taking_def
      by (auto split: if_splits intro: begin_outcome.exhaust [of os] simp: settled_def)
  qed
qed

lemma note_failure_inv:
  assumes "note_failure r b m (s, st) = Inr (s', st')" "dp_inv r s"
  shows "dp_inv r s' \<and> io s' = io s \<and> (st' = st \<or> st' = - 1)"
  using assms fail_with_inv [of r m s s' st'] by (cases b) (auto simp: note_failure_def)

lemma capture_end_inv:
  assumes "diff_pretty_capture_end r True cl jn ans s = Inr (s', st)" "dp_inv r s" "capturing s"
  shows "dp_inv r s' \<and> settled s' \<and> (st = 0 \<or> st = - 1)"
proof -
  obtain s1 s2 s3 st2 rs
    where 1: "s1 = close_fd Write_end s"
      and 2: "note_failure r (\<not> cl) ''unable to close Git metadata pipe'' (s1, 0) = Inr (s2, st2)"
      and 3: "diff_pretty_capture_reader r ans (pipe_data s2) s2 = Inr (s3, rs)"
      and 4: "\<exists>s4 st3. note_failure r (\<not> jn) ''unable to join Git metadata reader'' (s3, st2) = Inr (s4, st3) \<and>
        s' = s4\<lparr>native_capture := False, pipe_data := [], out_file := saved_file s4\<rparr> \<and>
        st = (if rs < 0 then - 1 else st3)"
  proof -
    have cap: "native_capture s" "out_file s = Some Pipe_writer" "saved_file s = Some Out"
      using assms(3) by (auto simp: capturing_def)
    obtain s2 st2 where 2: "note_failure r (\<not> cl) ''unable to close Git metadata pipe'' (close_fd Write_end s, 0) = Inr (s2, st2)"
      using assms(1) cap by (auto simp: diff_pretty_capture_end_def note_failure_def [of r False] and_then_Inr fclose_out_def)
    have "native_capture s2"
      using note_failure_inv [OF 2] assms(2) cap by (simp add: io_def close_fd_def dp_inv_io)
    then obtain s3 rs where 3: "diff_pretty_capture_reader r ans (pipe_data s2) s2 = Inr (s3, rs)"
      using assms(1) cap 2
      by (auto simp: diff_pretty_capture_end_def note_failure_def [of r False] and_then_Inr fclose_out_def)
    show ?thesis
      by (rule that [OF refl 2 3])
        (use assms(1) cap 2 3 \<open>native_capture s2\<close> in
          \<open>auto simp: diff_pretty_capture_end_def note_failure_def [of r False] and_then_Inr
            fclose_out_def split del: if_split\<close>)
  qed
  from 4 obtain s4 st3
    where 4: "note_failure r (\<not> jn) ''unable to join Git metadata reader'' (s3, st2) = Inr (s4, st3)"
      and s': "s' = s4\<lparr>native_capture := False, pipe_data := [], out_file := saved_file s4\<rparr>"
      and st: "st = (if rs < 0 then - 1 else st3)"
    by blast
  have i1: "dp_inv r s1" using assms(2) by (simp add: 1)
  note i2 = note_failure_inv [OF 2 i1]
  note i3 = capture_reader_inv [OF 3] 
  have i3: "dp_inv r s3" "io s3 = io (close_fd Read_end s2)" using i3 i2 by auto
  note i4 = note_failure_inv [OF 4 i3(1)]
  have "saved_file s4 = Some Out \<and> open_fds s4 = []"
    using i2 i3 i4 assms(3) by (auto simp: io_def 1 close_fd_def capturing_def)
  moreover have "dp_inv r s'" using i4 by (simp add: s' dp_inv_def follows_def phase_of_def)
  moreover have "st = 0 \<or> st = - 1" using st i4 i2 by auto
  ultimately show ?thesis by (auto simp: settled_def s')
qed

definition good :: "renderer \<Rightarrow> dp \<Rightarrow> bool" where
  "good r s \<longleftrightarrow> dp_inv r s \<and> settled s"

text \<open>A hook keeps the invariant when it returns and when it dies.\<close>

fun keeps :: "renderer \<Rightarrow> halt + dp \<Rightarrow> bool" where
  "keeps r (Inr s) = good r s"
| "keeps r (Inl (Die m s)) = good r s"
| "keeps r (Inl Bug) = True"
| "keeps r (Inl Overflow) = False"

lemma good_io: "dp_inv r s' \<Longrightarrow> io s' = io s \<Longrightarrow> good r s \<Longrightarrow> good r s'"
  by (auto simp: good_def dest: io_settled)

lemma keeps_and_then:
  assumes "\<And>h. m = Inl h \<Longrightarrow> h = Bug" "\<And>a. m = Inr a \<Longrightarrow> keeps r (f a)"
  shows "keeps r (and_then m f)"
  using assms by (cases m) auto

lemma fail_with_halt: "fail_with r m s = Inl h \<Longrightarrow> h = Bug"
  unfolding fail_with_def
  by (cases "remember_native_error r m s") (auto dest: remember_native_error_halt)

lemma note_failure_halt: "note_failure r b m x = Inl h \<Longrightarrow> h = Bug"
  by (cases x) (auto simp: note_failure_def dest: fail_with_halt split: if_splits)

lemma and_then_halt:
  "and_then m f = Inl h \<Longrightarrow> (\<And>h. m = Inl h \<Longrightarrow> h = Bug) \<Longrightarrow> (\<And>a h. f a = Inl h \<Longrightarrow> h = Bug) \<Longrightarrow> h = Bug"
  by (cases m) auto

lemma capture_end_halt: "diff_pretty_capture_end r p cl jn ans s = Inl h \<Longrightarrow> h = Bug"
  unfolding diff_pretty_capture_end_def
  by (auto elim!: and_then_halt dest: fail_with_halt note_failure_halt capture_reader_halt
      split: if_splits prod.splits)

lemma capture_begin_halt: "diff_pretty_capture_begin r p os s = Inl h \<Longrightarrow> h = Bug"
  unfolding diff_pretty_capture_begin_def
  by (auto simp: Let_def dest: fail_with_halt split: if_splits)

lemma end_halt: "diff_pretty_end r s = Inl h \<Longrightarrow> h = Bug"
  unfolding diff_pretty_end_def
  by (auto simp: Let_def elim!: and_then_halt dest: fail_with_halt split: if_splits)

lemma setup_halt: "diff_pretty_setup r cfg s = Inl h \<Longrightarrow> h = Bug"
  unfolding diff_pretty_setup_def
  by (auto simp: Let_def xsnprintf_def split: if_splits)

lemma setup_log_halt: "diff_pretty_setup_log r cfg s = Inl h \<Longrightarrow> h = Bug"
  unfolding diff_pretty_setup_log_def
  by (cases "diff_pretty_setup r cfg s") (auto dest: setup_halt)

lemma emit_event_halt: "diff_pretty_emit_event r k fl d s = Inl h \<Longrightarrow> h = Bug"
  unfolding diff_pretty_emit_event_def by (rule push_halt)

lemma show_log_keeps: "good r s \<Longrightarrow> keeps r (show_log_native r env t s)"
  unfolding show_log_native_def
proof (rule keeps_and_then)
  fix a assume good: "good r s"
    and "diff_pretty_capture_begin r True (begins env) (s\<lparr>saved_file := None\<rparr>) = Inr a"
  then obtain b st where a: "a = (b, st)"
    and b: "diff_pretty_capture_begin r True (begins env) (s\<lparr>saved_file := None\<rparr>) = Inr (b, st)"
    by (cases a) auto
  have "dp_inv r (s\<lparr>saved_file := None\<rparr>)" "settled (s\<lparr>saved_file := None\<rparr>)"
    using good by (auto simp: good_def dp_inv_io settled_def)
  note bi = capture_begin_inv [OF b this]
  let ?w = "write_out t b"
  let ?e = "diff_pretty_capture_end r True (closes env) (joins env) (reads env) ?w"
  have "keeps r (and_then ?e (\<lambda>(s, st). if st < 0
      then Inl (Die ''builtin:diff-pretty metadata capture failed'' s) else Inr s))" if "st = 1"
  proof (rule keeps_and_then)
    fix c assume c: "?e = Inr c"
    obtain u us where u: "c = (u, us)" by (cases c)
    have "dp_inv r u \<and> settled u"
      using capture_end_inv [OF c [unfolded u]] bi that by auto
    then show "keeps r (case c of (s, st) \<Rightarrow> if st < 0
      then Inl (Die ''builtin:diff-pretty metadata capture failed'' s) else Inr s)"
      by (simp add: u good_def)
  qed (rule capture_end_halt)
  moreover have "good r b" "good r ?w" if "st \<noteq> 1" using bi that by (auto simp: good_def)
  ultimately show "keeps r (case a of (s, n) \<Rightarrow>
      if n < 0 then Inl (Die ''unable to capture Git metadata for builtin:diff-pretty'' s)
      else let s = write_out t s
           in if n \<noteq> 0
              then and_then (diff_pretty_capture_end r True (closes env) (joins env) (reads env) s)
                     (\<lambda>(s, st). if st < 0
                        then Inl (Die ''builtin:diff-pretty metadata capture failed'' s) else Inr s)
              else Inr s)"
    using bi by (auto simp: a Let_def)
qed (rule capture_begin_halt)
section \<open>The clients as a step relation\<close>

datatype client_op =
    Setup_diff pager_config bool int
  | Setup_log pager_config
  | Setup_show pager_config bool "object_type list"
  | Symbol "byte list option" diff_event
  | Show_log capture_env "byte list"
  | Diff_flush
  | Finish_log

fun client :: "renderer \<Rightarrow> client_op \<Rightarrow> dp \<Rightarrow> halt + dp" where
  "client r (Setup_diff cfg ex pc) s = and_then (setup_diff_pager r cfg ex pc s) (\<lambda>(s, _). Inr s)"
| "client r (Setup_log cfg) s = setup_native_log_pager r cfg s"
| "client r (Setup_show cfg patch objs) s = setup_native_show_pager r cfg patch objs s"
| "client r (Symbol sep e) s = and_then (emit_diff_symbol_native r sep e s) (\<lambda>(s, _). Inr s)"
| "client r (Show_log env t) s = show_log_native r env t s"
| "client r Diff_flush s = diff_flush_native r s"
| "client r Finish_log s = finish_native_log_pager r s"

lemma good_initial: "good r initial_dp"
  by (simp add: good_def dp_inv_def initial_dp_def settled_def follows_def phase_of_def
      native_error_size_def)

lemma setup_log_keeps:
  assumes "good r s" shows "keeps r (setup_native_log_pager r cfg s)"
  unfolding setup_native_log_pager_def
proof (rule keeps_and_then)
  fix a assume a: "diff_pretty_setup_log r cfg s = Inr a"
  then show "keeps r (case a of (s, native) \<Rightarrow> if native < 0
      then Inl (Die ''unable to initialize builtin:diff-pretty'' s) else Inr s)"
    using diff_pretty_setup_log_inv [of r cfg s] assms good_io [of r _ s]
    by (cases a) (auto simp: good_def)
qed (rule setup_log_halt)

lemma setup_diff_keeps:
  assumes "good r s" shows "keeps r (and_then (setup_diff_pager r cfg ex pc s) (\<lambda>(s, _). Inr s))"
proof (cases "diff_pretty_setup r cfg s")
  case (Inl h)
  then show ?thesis
    using setup_halt [OF Inl] assms by (auto simp: setup_diff_pager_def)
next
  case (Inr a)
  then obtain b st where b: "a = (b, st)" "diff_pretty_setup r cfg s = Inr (b, st)"
    by (cases a) auto
  have "good r b"
    using diff_pretty_setup_inv [OF b(2)] assms good_io by (auto simp: good_def)
  with b assms show ?thesis by (auto simp: setup_diff_pager_def)
qed

lemma symbol_keeps:
  assumes "good r s" shows "keeps r (and_then (emit_diff_symbol_native r sep e s) (\<lambda>(s, _). Inr s))"
proof (cases "diff_pretty_emit_event r (diff_pretty_event_kind (ev_symbol e)) (ev_flags e)
    (event_payload sep e) s")
  case (Inl h)
  then show ?thesis
    using emit_event_halt [OF Inl] assms by (auto simp: emit_diff_symbol_native_def)
next
  case (Inr a)
  then show ?thesis
    using emit_event_inv [OF Inr] assms good_io by (auto simp: emit_diff_symbol_native_def good_def)
qed

lemma end_good: "diff_pretty_end r s = Inr (s', st) \<Longrightarrow> good r s \<Longrightarrow> good r s' \<and> \<not> native_session s'"
  using diff_pretty_end_inv [of r s s' st] good_io [of r s' s] by (auto simp: good_def)

lemma finish_keeps:
  assumes "good r s"
  shows "keeps r (finish_native_log_pager r s)" "keeps r (diff_flush_native r s)"
proof -
  have "keeps r (and_then (diff_pretty_end r s)
      (\<lambda>(s, st). if st < 0 then Inl (Die ''builtin:diff-pretty pager failed'' s) else Inr s))"
  proof (rule keeps_and_then)
    fix a assume "diff_pretty_end r s = Inr a"
    then show "keeps r (case a of (s, st) \<Rightarrow> if st < 0
        then Inl (Die ''builtin:diff-pretty pager failed'' s) else Inr s)"
      using end_good assms by (cases a) auto
  qed (rule end_halt)
  then show "keeps r (finish_native_log_pager r s)" "keeps r (diff_flush_native r s)"
    using assms
    by (simp_all add: finish_native_log_pager_def diff_flush_native_def diff_pretty_end_after_diff_def)
qed

lemma client_keeps: "good r s \<Longrightarrow> keeps r (client r op s)"
  by (cases op) (simp_all add: setup_log_keeps setup_diff_keeps symbol_keeps show_log_keeps
      finish_keeps setup_native_show_pager_def)

text \<open>
  States of the process between two hooks, and states in which it calls \<^verbatim>\<open>exit\<close>: by returning or
  through \<^verbatim>\<open>die\<close>.
\<close>

inductive reachable :: "renderer \<Rightarrow> dp \<Rightarrow> bool" for r where
  reachable_init: "reachable r initial_dp"
| reachable_step: "reachable r s \<Longrightarrow> client r op s = Inr s' \<Longrightarrow> reachable r s'"


lemma reachable_good: "reachable r s \<Longrightarrow> good r s"
proof (induction rule: reachable.induct)
  case (reachable_step s op s')
  then show ?case using client_keeps [of r s op] by simp
qed (rule good_initial)



section \<open>Errors that fit\<close>






lemma long_error_aborts:
  assumes "native_session s" "error_text r (calls s @ [Ffi_last_error]) = Some t" "256 \<le> length t"
  shows "remember_native_error r f s = Inl Bug"
  using assms by (simp add: remember_native_error_def xsnprintf_def Let_def call_def native_error_size_def)

lemma failure_not_reported:
  assumes "native_failed s"
  shows "finish_native_log_pager r s = Inr s" "diff_flush_native r s = Inr s"
  using assms by (simp_all add: finish_native_log_pager_def diff_flush_native_def diff_pretty_active_def)

section \<open>The log walk\<close>









definition logging :: "dp \<Rightarrow> bool" where
  "logging s \<longleftrightarrow> taking s \<and> native_command_session s \<and> settled s \<and> printed s = []"

lemma logging_calls [simp]: "logging (s\<lparr>calls := cs\<rparr>) = logging s"
  by (simp add: logging_def taking_def settled_def)






section \<open>The properties of the clients\<close>

definition pretty_config :: pager_config where
  "pretty_config = \<lparr>stdout_is_tty = True, env_git_pager = Some ''builtin:diff-pretty'',
     core_pager = None, env_pager = None, default_pager = ''less''\<rparr>"


lemma reachable_after_setup:
  "reachable plain_renderer (initial_dp\<lparr>native_session := True, native_command_session := True,
     pager_in_use := True, atexits := 1, calls := [Ffi_begin]\<rparr>)"
  by (rule reachable_step [OF reachable_init, of _ "Setup_log pretty_config"])
    (simp add: setup_native_log_pager_def diff_pretty_setup_log_def diff_pretty_setup_def git_pager_def
      pretty_config_def plain_renderer_def initial_dp_def call_def Let_def)

text \<open>
  C27: Whatever the commands do through the hooks, and however the renderer and the system answer,
  the calls the renderer library sees follow its protocol (nothing is pushed after a quit or a
  failure, the error text is read at once, every session is aborted once, and only after it was
  finished and paged, quit or failed), and between hooks no capture, descriptor or redirected
  output is left and \<^verbatim>\<open>GIT_PAGER_IN_USE\<close> is set exactly while a session is open.
\<close>

theorem native_session_protocol:
  assumes "reachable r s"
  shows "run_protocol r [] Idle (calls s) = Some (phase_of s) \<and> settled s \<and>
    pager_in_use s = native_session s"
  using reachable_good [OF assms] by (simp add: good_def dp_inv_def follows_def)

theorem native_session_protocol_witness:
  "run_protocol plain_renderer [] Idle [Ffi_begin] = Some Live"
  using native_session_protocol [OF reachable_after_setup]
  by (simp add: phase_of_def initial_dp_def)





end
