(* ===== verification/Pkt_Line.thy ===== *)
theory Pkt_Line
  imports Hex
begin

text \<open>
  The packet layer of the transport protocol, \<^verbatim>\<open>pkt-line.c\<close>: the four-digit length header, the
  writers, \<^verbatim>\<open>packet_read_with_status\<close> with its options, the helpers that send and receive a
  stream of packets, and the reader that can peek.

  A source is what remains of a buffer or of a descriptor; a descriptor may fail once its bytes
  are used up.  A destination buffer is the list of its bytes, and a store past its end is an
  outcome of its own.  Not modelled: packet traces (with the redaction of URIs, which only
  affects the trace) and sidebands.
\<close>

section \<open>Outcomes, sources and sinks\<close>

text \<open>\<^verbatim>\<open>die()\<close>, \<^verbatim>\<open>BUG()\<close>, and a store outside a buffer.\<close>

datatype pkt_halt = Pkt_die string | Pkt_bug string | Pkt_overrun

fun run_then :: "pkt_halt + 'a \<Rightarrow> ('a \<Rightarrow> pkt_halt + 'b) \<Rightarrow> pkt_halt + 'b" where
  "run_then (Inl e) f = Inl e"
| "run_then (Inr a) f = f a"

lemma run_then_Inr: "run_then m f = Inr b \<longleftrightarrow> (\<exists>a. m = Inr a \<and> f a = Inr b)"
  by (cases m) auto

lemma run_then_Inl: "run_then m f = Inl e \<longleftrightarrow> m = Inl e \<or> (\<exists>a. m = Inr a \<and> f a = Inl e)"
  by (cases m) auto

datatype source = Buffer string | Fd string bool

primrec remaining :: "source \<Rightarrow> string" where
  "remaining (Buffer d) = d"
| "remaining (Fd d _) = d"

record sink =
  written :: string
  room :: "nat option"

text \<open>\<^verbatim>\<open>write_in_full\<close>: everything is written, or the write fails after the bytes there was room for.\<close>

definition write_in_full :: "string \<Rightarrow> sink \<Rightarrow> bool \<times> sink" where
  "write_in_full d k =
     (case room k of
        None \<Rightarrow> (True, k\<lparr>written := written k @ d\<rparr>)
      | Some n \<Rightarrow>
          if length d \<le> n then (True, k\<lparr>written := written k @ d, room := Some (n - length d)\<rparr>)
          else (False, k\<lparr>written := written k @ take n d, room := Some 0\<rparr>))"

text \<open>\<^verbatim>\<open>read_in_full\<close> of a descriptor: \<open>None\<close> is an error, otherwise as many bytes as there are.\<close>

definition read_in_full :: "nat \<Rightarrow> string \<Rightarrow> bool \<Rightarrow> string option \<times> source" where
  "read_in_full n d fails =
     (if n \<le> length d then (Some (take n d), Fd (drop n d) fails)
      else if fails then (None, Fd [] fails)
      else (Some d, Fd [] fails))"

section \<open>Sizes and options\<close>

definition LARGE_PACKET_MAX :: nat where "LARGE_PACKET_MAX = 65520"
definition LARGE_PACKET_DATA_MAX :: nat where "LARGE_PACKET_DATA_MAX = LARGE_PACKET_MAX - 4"

definition PACKET_READ_GENTLE_ON_EOF :: u32 where "PACKET_READ_GENTLE_ON_EOF = 1"
definition PACKET_READ_CHOMP_NEWLINE :: u32 where "PACKET_READ_CHOMP_NEWLINE = 2"
definition PACKET_READ_DIE_ON_ERR_PACKET :: u32 where "PACKET_READ_DIE_ON_ERR_PACKET = 4"
definition PACKET_READ_GENTLE_ON_READ_ERROR :: u32 where "PACKET_READ_GENTLE_ON_READ_ERROR = 8"
definition PACKET_READ_USE_SIDEBAND :: u32 where "PACKET_READ_USE_SIDEBAND = 32"

definition opt_set :: "u32 \<Rightarrow> u32 \<Rightarrow> bool" where
  "opt_set options flag \<longleftrightarrow> options AND flag \<noteq> 0"

text \<open>The status of a read; \<open>PACKET_READ_ERROR\<close> is the \<^verbatim>\<open>-1\<close> that \<^verbatim>\<open>error()\<close> returns.\<close>

datatype packet_read_status =
    PACKET_READ_EOF | PACKET_READ_NORMAL | PACKET_READ_FLUSH | PACKET_READ_DELIM
  | PACKET_READ_RESPONSE_END | PACKET_READ_ERROR

section \<open>Writing\<close>

definition set_packet_header :: "nat \<Rightarrow> string" where
  "set_packet_header n =
     [hex_digits ! (drop_bit 12 n AND 15), hex_digits ! (drop_bit 8 n AND 15),
      hex_digits ! (drop_bit 4 n AND 15), hex_digits ! (n AND 15)]"

text \<open>The special packets; \<^verbatim>\<open>die_errno\<close> when the write fails, or an error code.\<close>

definition write_special :: "string \<Rightarrow> string \<Rightarrow> sink \<Rightarrow> pkt_halt + sink" where
  "write_special d msg k = (case write_in_full d k of (ok, k) \<Rightarrow> if ok then Inr k else Inl (Pkt_die msg))"

definition packet_flush :: "sink \<Rightarrow> pkt_halt + sink" where
  "packet_flush = write_special ''0000'' ''unable to write flush packet''"

definition packet_delim :: "sink \<Rightarrow> pkt_halt + sink" where
  "packet_delim = write_special ''0001'' ''unable to write delim packet''"

definition packet_response_end :: "sink \<Rightarrow> pkt_halt + sink" where
  "packet_response_end = write_special ''0002'' ''unable to write response end packet''"

definition packet_flush_gently :: "sink \<Rightarrow> int \<times> sink" where
  "packet_flush_gently k = (case write_in_full ''0000'' k of (ok, k) \<Rightarrow> (if ok then 0 else - 1, k))"

definition packet_buf_flush :: "string \<Rightarrow> string" where
  "packet_buf_flush buf = buf @ ''0000''"

definition packet_buf_delim :: "string \<Rightarrow> string" where
  "packet_buf_delim buf = buf @ ''0001''"

text \<open>\<^verbatim>\<open>format_packet\<close> for an already formatted text: the header is patched in afterwards.\<close>

definition format_packet :: "string \<Rightarrow> string \<Rightarrow> string \<Rightarrow> pkt_halt + string" where
  "format_packet out pre txt =
     (let orig_len = length out; out = out @ ''0000'' @ pre @ txt; n = length out - orig_len in
      if n > LARGE_PACKET_MAX then Inl (Pkt_die ''protocol error: impossibly long line'')
      else Inr (take orig_len out @ set_packet_header n @ drop (orig_len + 4) out))"

definition do_packet_write :: "string \<Rightarrow> sink \<Rightarrow> int \<times> string \<times> sink" where
  "do_packet_write buf k =
     (if length buf > LARGE_PACKET_DATA_MAX
      then (- 1, ''packet write failed - data exceeds max packet size'', k)
      else
        let header = set_packet_header (length buf + 4) in
        case write_in_full header k of
          (False, k) \<Rightarrow> (- 1, ''packet write failed'', k)
        | (True, k) \<Rightarrow>
            (case write_in_full buf k of
               (False, k) \<Rightarrow> (- 1, ''packet write failed'', k)
             | (True, k) \<Rightarrow> (0, [], k)))"

definition packet_write_gently :: "string \<Rightarrow> sink \<Rightarrow> int \<times> sink" where
  "packet_write_gently buf k =
     (case do_packet_write buf k of (ret, err, k) \<Rightarrow> (if ret \<noteq> 0 then - 1 else 0, k))"

definition packet_write :: "string \<Rightarrow> sink \<Rightarrow> pkt_halt + sink" where
  "packet_write buf k =
     (case do_packet_write buf k of (ret, err, k) \<Rightarrow> if ret \<noteq> 0 then Inl (Pkt_die err) else Inr k)"

text \<open>\<^verbatim>\<open>fwrite_or_die\<close> and \<^verbatim>\<open>packet_fwrite\<close> on a stream.\<close>

definition fwrite_or_die :: "string \<Rightarrow> sink \<Rightarrow> pkt_halt + sink" where
  "fwrite_or_die = (\<lambda>d. write_special d ''fwrite error'')"

definition packet_fwrite :: "string \<Rightarrow> sink \<Rightarrow> pkt_halt + sink" where
  "packet_fwrite buf k =
     (if length buf > LARGE_PACKET_DATA_MAX
      then Inl (Pkt_die ''packet write failed - data exceeds max packet size'')
      else run_then (fwrite_or_die (set_packet_header (length buf + 4)) k) (fwrite_or_die buf))"

definition packet_fflush :: "sink \<Rightarrow> pkt_halt + sink" where
  "packet_fflush = fwrite_or_die ''0000''"

text \<open>
  The \<^verbatim>\<open>while (!err)\<close> loop of \<^verbatim>\<open>write_packetized_from_buf_no_flush_count\<close>; the counter is that of a
  caller that asks for it.
\<close>

function write_packetized_loop :: "string \<Rightarrow> int \<Rightarrow> nat \<Rightarrow> nat \<Rightarrow> sink \<Rightarrow> int \<times> nat \<times> sink" where
  "write_packetized_loop src err bytes_written packet_counter k =
     (if err \<noteq> 0 then (err, packet_counter, k)
      else
        let bytes_to_write = (if length src - bytes_written > LARGE_PACKET_DATA_MAX
                              then LARGE_PACKET_DATA_MAX else length src - bytes_written)
        in if bytes_to_write = 0 then (err, packet_counter, k)
           else case packet_write_gently (take bytes_to_write (drop bytes_written src)) k of
                  (err, k) \<Rightarrow> write_packetized_loop src err (bytes_written + bytes_to_write)
                                (packet_counter + 1) k)"
  by pat_completeness auto
termination
  by (relation "measure (\<lambda>(src, err, n, c, k). length src - n)")
    (auto simp: LARGE_PACKET_DATA_MAX_def LARGE_PACKET_MAX_def)

declare write_packetized_loop.simps [simp del]

definition write_packetized_from_buf_no_flush_count :: "string \<Rightarrow> sink \<Rightarrow> int \<times> nat \<times> sink" where
  "write_packetized_from_buf_no_flush_count src k = write_packetized_loop src 0 0 0 k"

section \<open>Reading\<close>

text \<open>A store of \<open>d\<close> at the start of a buffer, and of one byte.\<close>

definition store :: "string \<Rightarrow> string \<Rightarrow> pkt_halt + string" where
  "store d mem = (if length d \<le> length mem then Inr (d @ drop (length d) mem) else Inl Pkt_overrun)"

definition store_at :: "nat \<Rightarrow> char \<Rightarrow> string \<Rightarrow> pkt_halt + string" where
  "store_at i c mem = (if i < length mem then Inr (mem[i := c]) else Inl Pkt_overrun)"

definition get_packet_data ::
  "source \<Rightarrow> string \<Rightarrow> nat \<Rightarrow> u32 \<Rightarrow> pkt_halt + int \<times> string \<times> source" where
  "get_packet_data src dst n options =
     (let (got, src) = (case src of
            Buffer d \<Rightarrow> (Some (take n d), Buffer (drop n d))
          | Fd d fails \<Rightarrow> read_in_full n d fails)
      in case got of
           None \<Rightarrow>
             if opt_set options PACKET_READ_GENTLE_ON_READ_ERROR then Inr (- 1, dst, src)
             else Inl (Pkt_die ''read error'')
         | Some bytes \<Rightarrow>
             run_then (store bytes dst) (\<lambda>dst.
               if length bytes \<noteq> n
               then if opt_set options PACKET_READ_GENTLE_ON_EOF then Inr (- 1, dst, src)
                    else if opt_set options PACKET_READ_GENTLE_ON_READ_ERROR then Inr (- 1, dst, src)
                    else Inl (Pkt_die ''the remote end hung up unexpectedly'')
               else Inr (0, dst, src)))"

definition packet_length :: "string \<Rightarrow> nat \<Rightarrow> pkt_halt + int" where
  "packet_length h n =
     (if n < 4 then Inl (Pkt_bug ''buffer too small'')
      else Inr (sint (push_bit 12 (hexval (h ! 0)) OR push_bit 8 (hexval (h ! 1)) OR
                      push_bit 4 (hexval (h ! 2)) OR hexval (h ! 3))))"

text \<open>A protocol error dies or returns \<^verbatim>\<open>-1\<close>, without setting the length.\<close>

definition bad_packet ::
  "u32 \<Rightarrow> string \<Rightarrow> string \<Rightarrow> source \<Rightarrow> pkt_halt + packet_read_status \<times> int option \<times> string \<times> source" where
  "bad_packet options msg buffer src =
     (if opt_set options PACKET_READ_GENTLE_ON_READ_ERROR then Inr (PACKET_READ_ERROR, None, buffer, src)
      else Inl (Pkt_die msg))"

text \<open>
  \<^verbatim>\<open>packet_read_with_status\<close>: the status, the length if it is stored through \<^verbatim>\<open>pktlen\<close>, the
  buffer and what remains of the source.
\<close>

definition packet_read_with_status ::
  "source \<Rightarrow> string \<Rightarrow> nat \<Rightarrow> u32 \<Rightarrow> pkt_halt + packet_read_status \<times> int option \<times> string \<times> source" where
  "packet_read_with_status src buffer n options =
     run_then (get_packet_data src (replicate 4 NUL) 4 options) (\<lambda>(ret, linelen, src).
     if ret < 0 then Inr (PACKET_READ_EOF, Some (- 1), buffer, src)
     else run_then (packet_length linelen 4) (\<lambda>len.
       if len < 0 then bad_packet options ''protocol error: bad line length character'' buffer src
       else if len = 0 then Inr (PACKET_READ_FLUSH, Some 0, buffer, src)
       else if len = 1 then Inr (PACKET_READ_DELIM, Some 0, buffer, src)
       else if len = 2 then Inr (PACKET_READ_RESPONSE_END, Some 0, buffer, src)
       else if len < 4 then bad_packet options ''protocol error: bad line length'' buffer src
       else
         let len = nat len - 4 in
         if len \<ge> n then bad_packet options ''protocol error: bad line length'' buffer src
         else
           run_then (get_packet_data src buffer len options) (\<lambda>(ret, buffer, src).
           if ret < 0 then Inr (PACKET_READ_EOF, Some (- 1), buffer, src)
           else
             let len = (if opt_set options PACKET_READ_CHOMP_NEWLINE \<and> len \<noteq> 0 \<and>
                           buffer ! (len - 1) = CHR 0x0A
                        then if opt_set options PACKET_READ_USE_SIDEBAND
                             then if (of_char (buffer ! 0) :: nat) = 1 then len - 1 else len
                             else len - 1
                        else len)
             in run_then (store_at len NUL buffer) (\<lambda>buffer.
                if opt_set options PACKET_READ_DIE_ON_ERR_PACKET \<and> take 4 buffer = ''ERR ''
                then Inl (Pkt_die (''remote error: '' @ takeWhile (\<lambda>c. c \<noteq> NUL) (drop 4 buffer)))
                else Inr (PACKET_READ_NORMAL, Some (int len), buffer, src)))))"

definition packet_read :: "source \<Rightarrow> string \<Rightarrow> nat \<Rightarrow> u32 \<Rightarrow> pkt_halt + int \<times> string \<times> source" where
  "packet_read src buffer n options =
     run_then (packet_read_with_status src buffer n options) (\<lambda>(_, pktlen, buffer, src).
       Inr (case pktlen of None \<Rightarrow> - 1 | Some l \<Rightarrow> l, buffer, src))"

text \<open>
  The line readers on the static \<^verbatim>\<open>packet_buffer\<close>; the line is NULL unless it is not empty.
\<close>

definition packet_read_line ::
  "source \<Rightarrow> string \<Rightarrow> pkt_halt + string option \<times> int \<times> string \<times> source" where
  "packet_read_line src packet_buffer =
     run_then (packet_read src packet_buffer LARGE_PACKET_MAX PACKET_READ_CHOMP_NEWLINE)
       (\<lambda>(len, packet_buffer, src).
          Inr (if len > 0 then Some (take (nat len) packet_buffer) else None, len, packet_buffer, src))"

definition packet_read_line_gently ::
  "source \<Rightarrow> string \<Rightarrow> pkt_halt + string option \<times> int \<times> string \<times> source" where
  "packet_read_line_gently src packet_buffer =
     run_then (packet_read src packet_buffer LARGE_PACKET_MAX
                 (PACKET_READ_CHOMP_NEWLINE OR PACKET_READ_GENTLE_ON_EOF))
       (\<lambda>(len, packet_buffer, src).
          Inr (if len > 0 then Some (take (nat len) packet_buffer) else None, len, packet_buffer, src))"

section \<open>What a read consumes and stores\<close>

lemma read_in_full_remaining:
  "read_in_full n d fails = (got, src) \<Longrightarrow>
   length (remaining src) \<le> length d \<and> (\<forall>b. got = Some b \<longrightarrow> d = b @ remaining src \<and> length b \<le> n)"
  by (auto simp: read_in_full_def split: if_splits)

lemma get_packet_data_ok:
  assumes "get_packet_data src dst n options = Inr (ret, dst', src')"
  shows "length (remaining src') \<le> length (remaining src)" "length dst' = length dst"
    "ret \<noteq> 0 \<longrightarrow> ret = - 1"
    "ret = 0 \<Longrightarrow> n \<le> length dst \<and> n \<le> length (remaining src) \<and>
       dst' = take n (remaining src) @ drop n dst \<and> remaining src' = drop n (remaining src)"
proof -
  obtain got where got: "(case src of Buffer d \<Rightarrow> (Some (take n d), Buffer (drop n d))
          | Fd d fails \<Rightarrow> read_in_full n d fails) = (got, src')"
    and rest: "(case got of None \<Rightarrow> if opt_set options PACKET_READ_GENTLE_ON_READ_ERROR then Inr (- 1, dst, src')
             else Inl (Pkt_die ''read error'')
         | Some bytes \<Rightarrow> run_then (store bytes dst) (\<lambda>dst.
               if length bytes \<noteq> n
               then if opt_set options PACKET_READ_GENTLE_ON_EOF then Inr (- 1, dst, src')
                    else if opt_set options PACKET_READ_GENTLE_ON_READ_ERROR then Inr (- 1, dst, src')
                    else Inl (Pkt_die ''the remote end hung up unexpectedly'')
               else Inr (0, dst, src'))) = Inr (ret, dst', src')"
    using assms unfolding get_packet_data_def Let_def
    by (auto simp: run_then_Inr split: prod.splits option.splits if_splits source.splits)
  have g: "length (remaining src') \<le> length (remaining src)"
    "got = Some b \<Longrightarrow> remaining src = b @ remaining src' \<and> length b \<le> n" for b
    using got by (cases src; fastforce dest: read_in_full_remaining)+
  show "length (remaining src') \<le> length (remaining src)" by (rule g(1))
  show "length dst' = length dst" "ret \<noteq> 0 \<longrightarrow> ret = - 1"
    using rest by (auto simp: run_then_Inr store_def split: option.splits if_splits)
  assume "ret = 0"
  then obtain b where b: "got = Some b" "length b = n" "store b dst = Inr dst'"
    using rest by (auto simp: run_then_Inr split: option.splits if_splits)
  then show "n \<le> length dst \<and> n \<le> length (remaining src) \<and>
      dst' = take n (remaining src) @ drop n dst \<and> remaining src' = drop n (remaining src)"
    using g(2) [of b] by (auto simp: store_def split: if_splits)
qed

lemma get_packet_data_no_overrun:
  "n \<le> length dst \<Longrightarrow> get_packet_data src dst n options \<noteq> Inl Pkt_overrun"
  by (auto simp: get_packet_data_def read_in_full_def store_def Let_def
      split: source.splits prod.splits option.splits if_splits)

lemma store_at_length: "store_at i c mem = Inr mem' \<Longrightarrow> length mem' = length mem"
  by (auto simp: store_at_def split: if_splits)

lemma bad_packet_ok:
  "bad_packet options msg buffer src = Inr (st, pl, buffer', src') \<Longrightarrow>
   st = PACKET_READ_ERROR \<and> pl = None \<and> buffer' = buffer \<and> src' = src"
  by (auto simp: bad_packet_def split: if_splits)

lemma bad_packet_no_overrun: "bad_packet options msg buffer src \<noteq> Inl Pkt_overrun"
  by (auto simp: bad_packet_def)

lemma packet_read_with_status_ok:
  assumes "packet_read_with_status src buffer n options = Inr (st, pl, buffer', src')"
  shows "length buffer' = length buffer" "length (remaining src') \<le> length (remaining src)"
    "st = PACKET_READ_NORMAL \<Longrightarrow> \<exists>len. pl = Some (int len) \<and> len < n \<and> len < length buffer' \<and>
       buffer' ! len = NUL \<and> len + length (remaining src') + 4 \<le> length (remaining src)"
    "st \<noteq> PACKET_READ_NORMAL \<Longrightarrow> pl \<in> {None, Some 0, Some (- 1)}"
proof -
  obtain ret linelen src1 where h: "get_packet_data src (replicate 4 NUL) 4 options = Inr (ret, linelen, src1)"
    using assms unfolding packet_read_with_status_def by (auto simp: run_then_Inr)
  note h' = get_packet_data_ok [OF h]
  define P where "P \<longleftrightarrow> length buffer' = length buffer \<and> length (remaining src') \<le> length (remaining src) \<and>
    (st = PACKET_READ_NORMAL \<longrightarrow> (\<exists>len. pl = Some (int len) \<and> len < n \<and> len < length buffer' \<and>
       buffer' ! len = NUL \<and> len + length (remaining src') + 4 \<le> length (remaining src))) \<and>
    (st \<noteq> PACKET_READ_NORMAL \<longrightarrow> pl \<in> {None, Some 0, Some (- 1)})"
  have P
  proof (cases "ret < 0")
    case True
    then show ?thesis using assms h h' unfolding P_def packet_read_with_status_def by auto
  next
    case False
    then have ret: "ret = 0" using h'(3) by auto
    have src1: "length (remaining src1) + 4 \<le> length (remaining src)"
      using h'(4) [OF ret] by simp
    obtain l where l: "packet_length linelen 4 = Inr l"
      by (simp add: packet_length_def)
    note body = assms [unfolded packet_read_with_status_def Let_def h run_then.simps prod.case ret l]
    show ?thesis
    proof (cases "l < 4 \<or> nat l - 4 \<ge> n")
      case True
      then show ?thesis
        using body src1 unfolding P_def by (auto simp: Let_def dest!: bad_packet_ok split: if_splits)
    next
      case False
      then obtain ret2 buf2 src2 where g: "get_packet_data src1 buffer (nat l - 4) options = Inr (ret2, buf2, src2)"
        using body by (auto simp: run_then_Inr Let_def split: if_splits)
      note g' = get_packet_data_ok [OF g]
      note body2 = body [unfolded g run_then.simps prod.case]
      show ?thesis
      proof (cases "ret2 < 0")
        case True
        then show ?thesis
          using body2 False g' src1 unfolding P_def by (auto simp: Let_def)
      next
        case ret2: False
        define len where "len = (if opt_set options PACKET_READ_CHOMP_NEWLINE \<and> nat l - 4 \<noteq> 0 \<and>
                           buf2 ! (nat l - 4 - 1) = CHR 0x0A
                        then if opt_set options PACKET_READ_USE_SIDEBAND
                             then if (of_char (buf2 ! 0) :: nat) = 1 then nat l - 4 - 1 else nat l - 4
                             else nat l - 4 - 1
                        else nat l - 4)"
        have "len \<le> nat l - 4" unfolding len_def by (auto intro: diff_le_mono2)
        moreover obtain buf3 where "store_at len NUL buf2 = Inr buf3" "buffer' = buf3" "src' = src2"
          "st = PACKET_READ_NORMAL" "pl = Some (int len)"
          using body2 False ret2 unfolding len_def [symmetric]
          by (auto simp: run_then_Inr split: if_splits)
        moreover have "ret2 = 0" using ret2 g'(3) by auto
        moreover obtain m where "nat l = m + 4" "m < n"
          using False by (intro that [of "nat l - 4"]) auto
        ultimately show ?thesis
          using g' src1 unfolding P_def by (auto simp: store_at_def split: if_splits)
      qed
    qed
  qed
  then show "length buffer' = length buffer" "length (remaining src') \<le> length (remaining src)"
    "st = PACKET_READ_NORMAL \<Longrightarrow> \<exists>len. pl = Some (int len) \<and> len < n \<and> len < length buffer' \<and>
       buffer' ! len = NUL \<and> len + length (remaining src') + 4 \<le> length (remaining src)"
    "st \<noteq> PACKET_READ_NORMAL \<Longrightarrow> pl \<in> {None, Some 0, Some (- 1)}"
    unfolding P_def by blast+
qed

lemma packet_read_no_overrun:
  assumes "n \<le> length buffer"
  shows "packet_read_with_status src buffer n options \<noteq> Inl Pkt_overrun"
proof
  assume ov: "packet_read_with_status src buffer n options = Inl Pkt_overrun"
  have g4: "get_packet_data src (replicate 4 NUL) 4 options \<noteq> Inl Pkt_overrun"
    by (rule get_packet_data_no_overrun) simp
  have gl: "l < n \<Longrightarrow> get_packet_data src1 buffer l options \<noteq> Inl Pkt_overrun" for src1 l
    using assms by (intro get_packet_data_no_overrun) simp
  have st: "get_packet_data src1 buffer l options = Inr (ret, buf, src2) \<Longrightarrow>
      store_at l' NUL buf = Inl Pkt_overrun \<Longrightarrow> n \<le> l'" for src1 l l' ret buf src2
    using assms get_packet_data_ok(2) [of src1 buffer l options ret buf src2]
    by (auto simp: store_at_def split: if_splits)
  obtain ret h src1 where 1: "get_packet_data src (replicate 4 NUL) 4 options = Inr (ret, h, src1)" "\<not> ret < 0"
    using ov g4 unfolding packet_read_with_status_def by (auto simp: run_then_Inl split: if_splits)
  obtain l where l: "packet_length h 4 = Inr l" by (simp add: packet_length_def)
  have l4: "\<not> l < 4" and ln: "nat l - 4 < n"
    using ov bad_packet_no_overrun unfolding packet_read_with_status_def Let_def
    by (auto simp: 1 l split: if_splits)
  obtain ret2 buf src2 l' where "get_packet_data src1 buffer (nat l - 4) options = Inr (ret2, buf, src2)"
    "store_at l' NUL buf = Inl Pkt_overrun" "l' \<le> nat l - 4"
    using ov gl [OF ln] l4 ln unfolding packet_read_with_status_def Let_def
    by (fastforce simp: 1 l run_then_Inl split: if_splits)
  from st [OF this(1,2)] this(3) ln show False by simp
qed

lemma packet_read_consumes:
  assumes "packet_read src buffer n options = Inr (len, buffer', src')" "len > 0"
  shows "length (remaining src') < length (remaining src)"
proof -
  obtain st pl where r: "packet_read_with_status src buffer n options = Inr (st, pl, buffer', src')"
    and len: "len = (case pl of None \<Rightarrow> - 1 | Some l \<Rightarrow> l)"
    using assms(1) by (auto simp: packet_read_def run_then_Inr)
  show ?thesis
    using packet_read_with_status_ok(3,4) [OF r] len assms(2)
    by (cases "st = PACKET_READ_NORMAL") (auto split: option.splits)
qed

section \<open>Reading a stream of packets\<close>

text \<open>
  \<^verbatim>\<open>read_packetized_to_strbuf\<close>: \<open>sb\<close> is the contents of the string buffer, and after
  \<^verbatim>\<open>strbuf_grow\<close> there is room for \<open>LARGE_PACKET_DATA_MAX + 1\<close> bytes behind it.  The result is the
  length read or a negative value, the contents, and what remains of the source.
\<close>

function read_packetized_loop :: "source \<Rightarrow> string \<Rightarrow> u32 \<Rightarrow> pkt_halt + int \<times> string \<times> source" where
  "read_packetized_loop src sb options =
     (case packet_read src (replicate (LARGE_PACKET_DATA_MAX + 1) NUL) (LARGE_PACKET_DATA_MAX + 1) options of
        Inl e \<Rightarrow> Inl e
      | Inr (packet_len, mem, src) \<Rightarrow>
          if packet_len \<le> 0 then Inr (packet_len, sb, src)
          else read_packetized_loop src (sb @ take (nat packet_len) mem) options)"
  by pat_completeness auto
termination
  by (relation "measure (\<lambda>(src, sb, options). length (remaining src))")
    (auto dest: packet_read_consumes)

declare read_packetized_loop.simps [simp del]

definition read_packetized_to_strbuf :: "source \<Rightarrow> string \<Rightarrow> u32 \<Rightarrow> pkt_halt + int \<times> string \<times> source" where
  "read_packetized_to_strbuf src sb options =
     run_then (read_packetized_loop src sb options) (\<lambda>(packet_len, sb', src).
       if packet_len < 0 then Inr (packet_len, take (length sb) sb', src)
       else Inr (int (length sb' - length sb), sb', src))"

section \<open>The reader that can peek\<close>

record packet_reader =
  pr_src :: source
  pr_buffer :: string
  pr_buffer_size :: nat
  pr_options :: u32
  pr_status :: packet_read_status
  pr_pktlen :: int
  pr_line :: "string option"
  pr_line_peeked :: bool

definition packet_reader_init :: "source \<Rightarrow> string \<Rightarrow> u32 \<Rightarrow> packet_reader" where
  "packet_reader_init src packet_buffer options =
     \<lparr>pr_src = src, pr_buffer = packet_buffer, pr_buffer_size = LARGE_PACKET_MAX,
      pr_options = options, pr_status = PACKET_READ_EOF, pr_pktlen = 0, pr_line = None,
      pr_line_peeked = False\<rparr>"

text \<open>\<^verbatim>\<open>packet_reader_read\<close> of a reader that does not use sidebands.\<close>

definition packet_reader_read :: "packet_reader \<Rightarrow> pkt_halt + packet_read_status \<times> packet_reader" where
  "packet_reader_read reader =
     (if pr_line_peeked reader then Inr (pr_status reader, reader\<lparr>pr_line_peeked := False\<rparr>)
      else
        run_then (packet_read_with_status (pr_src reader) (pr_buffer reader) (pr_buffer_size reader)
                    (pr_options reader)) (\<lambda>(st, pktlen, buffer, src).
          let reader = reader\<lparr>pr_status := st, pr_src := src, pr_buffer := buffer,
                pr_pktlen := (case pktlen of None \<Rightarrow> pr_pktlen reader | Some l \<Rightarrow> l)\<rparr>;
              reader = reader\<lparr>pr_line := if st = PACKET_READ_NORMAL then Some (pr_buffer reader) else None\<rparr>
          in Inr (st, reader)))"

definition packet_reader_peek :: "packet_reader \<Rightarrow> pkt_halt + packet_read_status \<times> packet_reader" where
  "packet_reader_peek reader =
     (if pr_line_peeked reader then Inr (pr_status reader, reader)
      else run_then (packet_reader_read reader)
             (\<lambda>(_, reader). let reader = reader\<lparr>pr_line_peeked := True\<rparr> in Inr (pr_status reader, reader)))"

section \<open>Headers\<close>

lemma digit_and_15: "(n::nat) AND 15 = n mod 16"
  using nat_and_mask [of n 4] by (simp add: mask_eq_exp_minus_1)

lemma set_packet_header_eq:
  "set_packet_header n = [hex_digits ! (n div 4096 mod 16), hex_digits ! (n div 256 mod 16),
     hex_digits ! (n div 16 mod 16), hex_digits ! (n mod 16)]"
  by (simp add: set_packet_header_def digit_and_15 drop_bit_eq_div)

lemma length_set_packet_header [simp]: "length (set_packet_header n) = 4"
  by (simp add: set_packet_header_def)

lemma nibble_append:
  assumes "a < 2 ^ 28" "b < 16"
  shows "push_bit 4 (word_of_nat a :: u32) OR word_of_nat b = word_of_nat (16 * a + b)"
proof -
  have "b OR push_bit 4 a = b + push_bit 4 a" using assms(2) by (intro nat_or_add) simp
  then have "word_of_nat (b OR push_bit 4 a) = (word_of_nat (16 * a + b) :: u32)"
    by (simp add: push_bit_eq_mult ac_simps)
  then show ?thesis by (simp add: of_nat_or_eq push_bit_eq_mult or.commute ac_simps)
qed

lemma four_nibbles:
  assumes "a < 16" "b < 16" "c < 16" "d < 16"
  shows "push_bit 12 (word_of_nat a :: u32) OR push_bit 8 (word_of_nat b) OR
    push_bit 4 (word_of_nat c) OR word_of_nat d = word_of_nat (4096 * a + 256 * b + 16 * c + d)"
proof -
  have p: "push_bit 12 x = push_bit 4 (push_bit 4 (push_bit 4 x))" "push_bit 8 x = push_bit 4 (push_bit 4 x)"
    for x :: u32 by (simp_all add: push_bit_push_bit)
  have "push_bit 12 (word_of_nat a :: u32) OR push_bit 8 (word_of_nat b) OR
      push_bit 4 (word_of_nat c) OR word_of_nat d =
    push_bit 4 (push_bit 4 (push_bit 4 (word_of_nat a) OR word_of_nat b) OR word_of_nat c) OR word_of_nat d"
    unfolding p push_bit_or by (simp only: or.assoc)
  also have "\<dots> = word_of_nat (16 * (16 * (16 * a + b) + c) + d)"
  proof -
    have "push_bit 4 (word_of_nat a :: u32) OR word_of_nat b = word_of_nat (16 * a + b)"
      "push_bit 4 (word_of_nat (16 * a + b) :: u32) OR word_of_nat c = word_of_nat (16 * (16 * a + b) + c)"
      "push_bit 4 (word_of_nat (16 * (16 * a + b) + c) :: u32) OR word_of_nat d =
        word_of_nat (16 * (16 * (16 * a + b) + c) + d)"
      using assms by (intro nibble_append; simp)+
    then show ?thesis by (simp only:)
  qed
  also have "16 * (16 * (16 * a + b) + c) + d = 4096 * a + 256 * b + 16 * c + d" by simp
  finally show ?thesis .
qed

lemma packet_length_digits:
  assumes "isxdigit a" "isxdigit b" "isxdigit c" "isxdigit d"
  shows "packet_length [a, b, c, d] 4 =
    Inr (int (4096 * xval a + 256 * xval b + 16 * xval c + xval d))"
proof -
  have lt: "4096 * xval a + 256 * xval b + 16 * xval c + xval d < 65536"
    using xval_lt [of a] xval_lt [of b] xval_lt [of c] xval_lt [of d] by linarith
  have "sint (word_of_nat n :: u32) = int n" if "n < 65536" for n
    using that by (simp add: signed_of_nat signed_take_bit_int_eq_self)
  from this [OF lt] show ?thesis
    using assms by (simp add: packet_length_def hexval_xdigit four_nibbles numeral_2_eq_2 numeral_3_eq_3)
qed

lemma packet_length_bad:
  assumes "\<not> (isxdigit a \<and> isxdigit b \<and> isxdigit c \<and> isxdigit d)"
  shows "\<exists>l < 0. packet_length [a, b, c, d] 4 = Inr l"
proof -
  have "bit (push_bit 12 (hexval a) OR push_bit 8 (hexval b) OR push_bit 4 (hexval c) OR hexval d) 31"
    using assms hexval_other [of a] hexval_other [of b] hexval_other [of c] hexval_other [of d]
    by (auto simp: bit_simps)
  then have "sint (push_bit 12 (hexval a) OR push_bit 8 (hexval b) OR push_bit 4 (hexval c) OR hexval d) < 0"
    using bit_last_iff [where 'a = 32] by simp
  then show ?thesis by (simp add: packet_length_def numeral_2_eq_2 numeral_3_eq_3)
qed

lemma packet_length_not_minus_one: "packet_length ''g000'' 4 = Inr (- 4096)"
proof -
  have "hexval (CHR ''g'') = - 1" "hexval (CHR ''0'') = 0"
    by (simp_all add: hexval_def hexval_table_def nth_append nth_Cons')
  then have "packet_length ''g000'' 4 = Inr (sint (push_bit 12 (- 1) :: u32))"
    by (simp add: packet_length_def)
  also have "sint (push_bit 12 (- 1) :: u32) = - 4096" by code_simp
  finally show ?thesis .
qed

lemma header_length:
  assumes "n < 65536"
  shows "packet_length (set_packet_header n) 4 = Inr (int n)"
proof -
  have "4096 * (n div 4096 mod 16) + 256 * (n div 256 mod 16) + 16 * (n div 16 mod 16) + n mod 16 = n"
  proof -
    have "n div 4096 < 16" using assms by (simp add: less_mult_imp_div_less)
    then have "n = 16 * (n div 16) + n mod 16" "n div 16 = 16 * (n div 256) + n div 16 mod 16"
      "n div 256 = 16 * (n div 4096) + n div 256 mod 16" "n div 4096 mod 16 = n div 4096"
      using assms div_mult2_eq [of n 16 16] div_mult2_eq [of n 256 16]
        mult_div_mod_eq [of 16 "n div 16"] mult_div_mod_eq [of 16 "n div 256"] by simp_all
    then show ?thesis by linarith
  qed
  moreover have "packet_length (set_packet_header n) 4 =
      Inr (int (4096 * (n div 4096 mod 16) + 256 * (n div 256 mod 16) + 16 * (n div 16 mod 16) + n mod 16))"
    unfolding set_packet_header_eq by (subst packet_length_digits) simp_all
  ultimately show ?thesis by (simp only:)
qed

section \<open>One packet written and read\<close>

definition packet :: "string \<Rightarrow> string" where
  "packet d = set_packet_header (length d + 4) @ d"

lemma do_packet_write_ok:
  "length d \<le> LARGE_PACKET_DATA_MAX \<Longrightarrow> room k = None \<Longrightarrow>
   do_packet_write d k = (0, [], k\<lparr>written := written k @ packet d\<rparr>)"
  by (simp add: do_packet_write_def write_in_full_def packet_def Let_def)

definition after_drop :: "nat \<Rightarrow> source \<Rightarrow> source" where
  "after_drop n src = (case src of Buffer d \<Rightarrow> Buffer (drop n d) | Fd d f \<Rightarrow> Fd (drop n d) f)"

lemma remaining_after_drop [simp]: "remaining (after_drop n src) = drop n (remaining src)"
  by (cases src) (simp_all add: after_drop_def)

lemma after_drop_after_drop [simp]: "after_drop m (after_drop n src) = after_drop (n + m) src"
  by (cases src) (simp_all add: after_drop_def add.commute)

lemma get_packet_data_enough:
  "n \<le> length (remaining src) \<Longrightarrow> n \<le> length dst \<Longrightarrow>
   get_packet_data src dst n options = Inr (0, take n (remaining src) @ drop n dst, after_drop n src)"
  by (cases src) (simp_all add: get_packet_data_def read_in_full_def store_def after_drop_def Let_def)

lemma packet_read_packet:
  assumes "remaining src = packet d @ rest" "length d < n" "n \<le> length buffer"
    "length d \<le> LARGE_PACKET_DATA_MAX" "\<not> opt_set options PACKET_READ_CHOMP_NEWLINE"
    "\<not> opt_set options PACKET_READ_DIE_ON_ERR_PACKET"
  shows "packet_read_with_status src buffer n options =
    Inr (PACKET_READ_NORMAL, Some (int (length d)), d @ NUL # drop (Suc (length d)) buffer,
         after_drop (length d + 4) src)"
proof -
  have h: "get_packet_data src (replicate 4 NUL) 4 options =
      Inr (0, set_packet_header (length d + 4), after_drop 4 src)"
    using assms(1) by (subst get_packet_data_enough) (simp_all add: packet_def)
  have l: "packet_length (set_packet_header (length d + 4)) 4 = Inr (int (length d + 4))"
    using assms(4) by (intro header_length) (simp add: LARGE_PACKET_DATA_MAX_def LARGE_PACKET_MAX_def)
  have g: "get_packet_data (after_drop 4 src) buffer (length d) options =
      Inr (0, d @ drop (length d) buffer, after_drop (length d + 4) src)"
    using assms(1-3) by (subst get_packet_data_enough) (simp_all add: packet_def add.commute)
  have st: "store_at (length d) NUL (d @ drop (length d) buffer) = Inr (d @ NUL # drop (Suc (length d)) buffer)"
    using assms(2,3)
    by (simp add: store_at_def list_update_append Cons_nth_drop_Suc [symmetric])
  have b: "nat (int (length d + 4)) - 4 = length d" by simp
  show ?thesis
    unfolding packet_read_with_status_def h run_then.simps prod.case l Let_def b
    using assms(2,5,6) by (simp add: g st)
qed

lemma packet_read_flush:
  assumes "remaining src = ''0000'' @ rest"
  shows "packet_read_with_status src buffer n options =
    Inr (PACKET_READ_FLUSH, Some 0, buffer, after_drop 4 src)"
proof -
  have "get_packet_data src (replicate 4 NUL) 4 options = Inr (0, ''0000'', after_drop 4 src)"
    using assms by (subst get_packet_data_enough) simp_all
  moreover have "packet_length ''0000'' 4 = Inr 0"
    using header_length [of 0] by (simp add: set_packet_header_eq hex_digits_def)
  ultimately show ?thesis by (simp add: packet_read_with_status_def)
qed

section \<open>A stream of packets\<close>

text \<open>The packets a stream of bytes is cut into: full ones and a last one.\<close>

function packets :: "string \<Rightarrow> string" where
  "packets d = (if d = [] then []
     else packet (take LARGE_PACKET_DATA_MAX d) @ packets (drop LARGE_PACKET_DATA_MAX d))"
  by pat_completeness auto
termination
  by (relation "measure length") (auto simp: LARGE_PACKET_DATA_MAX_def LARGE_PACKET_MAX_def)

declare packets.simps [simp del]

lemma packets_Nil [simp]: "packets [] = []"
  by (simp add: packets.simps)

lemma data_max_pos: "0 < LARGE_PACKET_DATA_MAX"
  by (simp add: LARGE_PACKET_DATA_MAX_def LARGE_PACKET_MAX_def)

lemma write_packetized_loop_ok:
  "room k = None \<Longrightarrow>
   \<exists>c'. write_packetized_loop src 0 n c k = (0, c', k\<lparr>written := written k @ packets (drop n src)\<rparr>)"
proof (induction "length src - n" arbitrary: n c k rule: less_induct)
  case less
  define M where "M = LARGE_PACKET_DATA_MAX"
  define b where "b = (if length src - n > M then M else length src - n)"
  note eq = write_packetized_loop.simps [of src 0 n c k, folded M_def, unfolded Let_def, folded b_def]
  show ?case
  proof (cases "b = 0")
    case True
    then have "drop n src = []" using data_max_pos by (auto simp: b_def M_def split: if_splits)
    with True show ?thesis by (simp add: eq)
  next
    case False
    have tk: "take b (drop n src) = take M (drop n src)" "drop b (drop n src) = drop M (drop n src)"
      by (simp_all add: b_def)
    have ne: "drop n src \<noteq> []" using False by (auto simp: b_def split: if_splits)
    let ?k = "k\<lparr>written := written k @ packet (take b (drop n src))\<rparr>"
    have w: "packet_write_gently (take b (drop n src)) k = (0, ?k)"
      using less.prems by (simp add: packet_write_gently_def do_packet_write_ok b_def M_def)
    have "length src - (n + b) < length src - n" using False by (auto simp: b_def split: if_splits)
    from less.hyps [OF this, of ?k "c + 1"] less.prems obtain c' where
      "write_packetized_loop src 0 (n + b) (c + 1) ?k =
        (0, c', ?k\<lparr>written := written ?k @ packets (drop (n + b) src)\<rparr>)" by auto
    moreover have "packets (drop n src) = packet (take b (drop n src)) @ packets (drop (n + b) src)"
      using ne tk by (subst packets.simps) (simp add: M_def add.commute)
    ultimately show ?thesis using False w by (simp add: eq)
  qed
qed

lemma read_packetized_loop_ok:
  assumes "\<not> opt_set options PACKET_READ_CHOMP_NEWLINE" "\<not> opt_set options PACKET_READ_DIE_ON_ERR_PACKET"
    "remaining src = packets d @ ''0000'' @ rest"
  shows "read_packetized_loop src sb options = Inr (0, sb @ d, after_drop (length (packets d) + 4) src)"
  using assms(3)
proof (induction "length d" arbitrary: d sb src rule: less_induct)
  case less
  define M where "M = LARGE_PACKET_DATA_MAX"
  show ?case
  proof (cases "d = []")
    case True
    with less.prems show ?thesis
      by (subst read_packetized_loop.simps) (simp add: packet_read_def packet_read_flush)
  next
    case False
    obtain p r where p: "p = take M d" and r: "r = drop M d" by simp
    let ?src = "after_drop (length p + 4) src"
    have pk: "packets d = packet p @ packets r" and d: "d = p @ r"
      using False by (subst packets.simps) (simp_all add: M_def p r)
    have len: "length p \<le> M" "p \<noteq> []" "length (packet p) = length p + 4"
      using False data_max_pos by (simp_all add: M_def packet_def p)
    have rd: "packet_read src (replicate (M + 1) NUL) (M + 1) options =
        Inr (int (length p), p @ NUL # drop (Suc (length p)) (replicate (M + 1) NUL), ?src)"
      unfolding packet_read_def
      by (subst packet_read_packet [where d = p and rest = "packets r @ ''0000'' @ rest"])
        (use less.prems pk len assms(1,2) in \<open>simp_all add: M_def\<close>)
    have "remaining ?src = packets r @ ''0000'' @ rest"
      using less.prems pk len(3) by simp
    moreover have "length r < length d" using len(2) by (simp add: d)
    ultimately have "read_packetized_loop ?src (sb @ p) options =
        Inr (0, (sb @ p) @ r, after_drop (length (packets r) + 4) ?src)"
      using less.hyps by blast
    moreover have "read_packetized_loop src sb options = read_packetized_loop ?src (sb @ p) options"
      using rd len(2) unfolding M_def by (subst read_packetized_loop.simps) simp
    ultimately show ?thesis
      using pk len(3) d by (simp add: add.assoc add.commute add.left_commute)
  qed
qed

section \<open>The properties\<close>

abbreviation empty_sink :: sink where
  "empty_sink \<equiv> \<lparr>written = [], room = None\<rparr>"

text \<open>
  C31: What \<^verbatim>\<open>write_packetized_from_buf\<close> sends, followed by a flush packet, is what
  \<^verbatim>\<open>read_packetized_to_strbuf\<close> receives: the data of any length is appended to the buffer, its
  length returned, and reading stops right behind the flush packet.
\<close>

theorem packetized_roundtrip:
  assumes "\<not> opt_set options PACKET_READ_CHOMP_NEWLINE" "\<not> opt_set options PACKET_READ_DIE_ON_ERR_PACKET"
  shows "\<exists>n k k'. write_packetized_from_buf_no_flush_count d empty_sink = (0, n, k) \<and>
    packet_flush k = Inr k' \<and>
    read_packetized_to_strbuf (Fd (written k' @ rest) fails) sb options =
      Inr (int (length d), sb @ d, Fd rest fails)"
proof -
  obtain n where n: "write_packetized_from_buf_no_flush_count d empty_sink = (0, n, \<lparr>written = packets d, room = None\<rparr>)"
    using write_packetized_loop_ok [of empty_sink d 0 0]
    by (auto simp: write_packetized_from_buf_no_flush_count_def)
  have "packet_flush \<lparr>written = packets d, room = None\<rparr> = Inr \<lparr>written = packets d @ ''0000'', room = None\<rparr>"
    by (simp add: packet_flush_def write_special_def write_in_full_def)
  moreover have "read_packetized_to_strbuf (Fd ((packets d @ ''0000'') @ rest) fails) sb options =
      Inr (int (length d), sb @ d, Fd rest fails)"
    using read_packetized_loop_ok [OF assms, of "Fd ((packets d @ ''0000'') @ rest) fails" d rest sb]
    by (simp add: read_packetized_to_strbuf_def after_drop_def)
  ultimately show ?thesis using n by (metis sink.select_convs(1))
qed

theorem packetized_roundtrip_witness:
  "\<exists>n k k'. write_packetized_from_buf_no_flush_count ''hello'' empty_sink = (0, n, k) \<and>
    packet_flush k = Inr k' \<and>
    read_packetized_to_strbuf (Fd (written k' @ ''x'') False) ''> '' 0 = Inr (5, ''> hello'', Fd ''x'' False)"
  using packetized_roundtrip [of 0 "''hello''" "''x''" False "''> ''"]
  by (simp add: opt_set_def)

text \<open>
  C32: For any source, any options and a buffer of at least the stated size, reading a packet
  never stores outside the buffer; when a packet is returned it fits with its terminating NUL,
  and the source has lost at least the header and the payload.
\<close>

theorem packet_read_in_bounds:
  assumes "n \<le> length buffer"
  shows "packet_read_with_status src buffer n options \<noteq> Inl Pkt_overrun \<and>
    (case packet_read_with_status src buffer n options of
       Inr (PACKET_READ_NORMAL, pl, buffer', src') \<Rightarrow>
         length buffer' = length buffer \<and>
         (case pl of Some l \<Rightarrow> 0 \<le> l \<and> l < int n \<and> buffer' ! nat l = NUL \<and>
            nat l + 4 + length (remaining src') \<le> length (remaining src) | None \<Rightarrow> False)
     | _ \<Rightarrow> True)"
proof -
  have "packet_read_with_status src buffer n options \<noteq> Inl Pkt_overrun"
    by (rule packet_read_no_overrun [OF assms])
  then show ?thesis
    using packet_read_with_status_ok [of src buffer n options]
    by (fastforce split: sum.splits prod.splits packet_read_status.splits option.splits)
qed

text \<open>
  C33: Peeking does not change what is read: a peek returns the status a read would have returned,
  every further peek and the next read return it again, and that read leaves the reader exactly
  as a read without any peek would have.
\<close>

theorem packet_reader_peek_read:
  assumes "packet_reader_peek reader = Inr (st, reader')"
  shows "packet_reader_peek reader' = Inr (st, reader') \<and>
    packet_reader_read reader' = Inr (st, reader'\<lparr>pr_line_peeked := False\<rparr>) \<and>
    packet_reader_read reader = Inr (st, reader'\<lparr>pr_line_peeked := False\<rparr>)"
  using assms
  by (auto simp: packet_reader_peek_def packet_reader_read_def run_then_Inr Let_def split: if_splits)

lemma peek_example:
  "packet_reader_peek (packet_reader_init (Buffer ''00010009done!'') [] 0) =
     Inr (PACKET_READ_DELIM, (packet_reader_init (Buffer ''0009done!'') [] 0)
       \<lparr>pr_status := PACKET_READ_DELIM, pr_line_peeked := True\<rparr>)"
proof -
  have "packet_length ''0001'' 4 = Inr 1"
    using header_length [of 1] by (simp add: set_packet_header_eq hex_digits_def)
  then show ?thesis
    by (simp add: packet_reader_peek_def packet_reader_read_def packet_reader_init_def
        packet_read_with_status_def get_packet_data_def store_def Let_def)
qed

theorem packet_reader_peek_read_witness:
  "packet_reader_read (packet_reader_init (Buffer ''00010009done!'') [] 0) =
     Inr (PACKET_READ_DELIM, (packet_reader_init (Buffer ''0009done!'') [] 0)
       \<lparr>pr_status := PACKET_READ_DELIM\<rparr>)"
  using packet_reader_peek_read [OF peek_example]
  by (simp add: packet_reader_init_def)

theorem packet_read_in_bounds_witness:
  "packet_read_with_status (Buffer ''0009done!'') (replicate 6 NUL) 6 0 \<noteq> Inl Pkt_overrun"
  using packet_read_in_bounds [of 6 "replicate 6 NUL" "Buffer ''0009done!''" 0] by simp

end
