(* ===== verification/Range_Set.thy ===== *)
theory Range_Set
  imports Prelude "HOL-Library.Multiset"
begin

text \<open>
  The line ranges of \<^verbatim>\<open>git log -L\<close>, \<^verbatim>\<open>line-log.c\<close>: sets of half-open line ranges with their
  normalisation, union and difference, the hunks of a diff that touch a range set, and the
  mapping of a range set across a diff to the parent's lines.

  A range set is the list of its ranges (\<^verbatim>\<open>nr\<close> is its length, \<^verbatim>\<open>alloc\<close> the memory behind it).
  A failed \<^verbatim>\<open>assert\<close> and a read outside an array are \<open>None\<close>.  Line numbers are only compared and
  added, far from the limits of \<^verbatim>\<open>long\<close>: they are integers.
\<close>

section \<open>Ranges and range sets\<close>

record range =
  r_start :: int
  r_end :: int

type_synonym range_set = "range list"

definition mk_range :: "int \<Rightarrow> int \<Rightarrow> range" where
  "mk_range a b = \<lparr>r_start = a, r_end = b\<rparr>"

lemma mk_range_simps [simp]: "r_start (mk_range a b) = a" "r_end (mk_range a b) = b"
  by (simp_all add: mk_range_def)

lemma mk_range_eta [simp]: "mk_range (r_start r) (r_end r) = r"
  by (simp add: mk_range_def)

definition range_set_append_unsafe :: "range_set \<Rightarrow> int \<Rightarrow> int \<Rightarrow> range_set option" where
  "range_set_append_unsafe rs a b = (if a \<le> b then Some (rs @ [mk_range a b]) else None)"

definition range_set_append :: "range_set \<Rightarrow> int \<Rightarrow> int \<Rightarrow> range_set option" where
  "range_set_append rs a b =
     (if rs = [] \<or> r_end (last rs) \<le> a then range_set_append_unsafe rs a b else None)"

definition range_cmp :: "range \<Rightarrow> range \<Rightarrow> int" where
  "range_cmp r s = (if r_start r = r_start s then 0 else if r_start r < r_start s then - 1 else 1)"

text \<open>The checks of \<^verbatim>\<open>range_set_check_invariants\<close>, for all \<open>i\<close> from one.\<close>

fun check_from :: "range_set \<Rightarrow> nat \<Rightarrow> nat \<Rightarrow> bool" where
  "check_from rs i 0 = True"
| "check_from rs i (Suc n) =
     (r_end (rs ! (i - 1)) < r_start (rs ! i) \<and> r_start (rs ! i) < r_end (rs ! i) \<and>
      check_from rs (Suc i) n)"

definition range_set_check_invariants :: "range_set \<Rightarrow> bool" where
  "range_set_check_invariants rs =
     ((rs \<noteq> [] \<longrightarrow> r_start (rs ! 0) < r_end (rs ! 0)) \<and> check_from rs 1 (length rs - 1))"

text \<open>
  The in-place pass of \<^verbatim>\<open>sort_and_merge_range_set\<close>: \<open>i\<close> reads, the output cursor \<open>k\<close> writes,
  both in the same array; \<open>n\<close> ranges are left.
\<close>

fun merge_pass :: "nat \<Rightarrow> nat \<Rightarrow> nat \<Rightarrow> range_set \<Rightarrow> nat \<times> range_set" where
  "merge_pass 0 i k rs = (k, rs)"
| "merge_pass (Suc n) i k rs =
     (if r_start (rs ! i) = r_end (rs ! i) then merge_pass n (Suc i) k rs
      else if k > 0 \<and> r_start (rs ! i) \<le> r_end (rs ! (k - 1))
      then if r_end (rs ! (k - 1)) < r_end (rs ! i)
           then merge_pass n (Suc i) k (rs[k - 1 := (rs ! (k - 1))\<lparr>r_end := r_end (rs ! i)\<rparr>])
           else merge_pass n (Suc i) k rs
      else merge_pass n (Suc i) (Suc k) (rs[k := mk_range (r_start (rs ! i)) (r_end (rs ! i))]))"

text \<open>\<open>qsort\<close> is the sort of the standard library, which leaves the order of equal ranges open.\<close>

definition sort_and_merge_range_set :: "(range_set \<Rightarrow> range_set) \<Rightarrow> range_set \<Rightarrow> range_set option" where
  "sort_and_merge_range_set qsort rs =
     (let rs = qsort rs; (k, rs') = merge_pass (length rs) 0 0 rs
      in if k \<le> length rs \<and> range_set_check_invariants (take k rs') then Some (take k rs') else None)"

text \<open>\<^verbatim>\<open>range_set_union\<close>: \<open>a\<close> and \<open>b\<close> are what the cursors \<open>i\<close> and \<open>j\<close> have not passed.\<close>

definition union_emit :: "range \<Rightarrow> range_set \<Rightarrow> range_set" where
  "union_emit new out =
     (if r_start new = r_end new then out
      else if out = [] \<or> r_end (last out) < r_start new
      then out @ [mk_range (r_start new) (r_end new)]
      else if r_end (last out) < r_end new
      then butlast out @ [(last out)\<lparr>r_end := r_end new\<rparr>]
      else out)"

fun union_loop :: "range_set \<Rightarrow> range_set \<Rightarrow> range_set \<Rightarrow> range_set" where
  "union_loop [] [] out = out"
| "union_loop (x # a) [] out = union_loop a [] (union_emit x out)"
| "union_loop [] (y # b) out = union_loop [] b (union_emit y out)"
| "union_loop (x # a) (y # b) out =
     (if r_start x < r_start y then union_loop a (y # b) (union_emit x out)
      else if r_start x > r_start y then union_loop (x # a) b (union_emit y out)
      else if r_end x < r_end y then union_loop a (y # b) (union_emit x out)
      else union_loop (x # a) b (union_emit y out))"

definition range_set_union :: "range_set \<Rightarrow> range_set \<Rightarrow> range_set \<Rightarrow> range_set option" where
  "range_set_union out a b = (if out = [] then Some (union_loop a b out) else None)"

text \<open>
  \<^verbatim>\<open>range_set_difference\<close>: the loop over one range of \<open>a\<close>, and over all; \<open>b\<close> is what \<open>j\<close> has not
  passed.  When neither of the first two tests holds, the range reaches past \<open>b\<close>'s start.
\<close>

function difference_range :: "int \<Rightarrow> int \<Rightarrow> range_set \<Rightarrow> range_set \<Rightarrow> (range_set \<times> range_set) option" where
  "difference_range s e b out =
     (if s < e then
        (case dropWhile (\<lambda>r. s \<ge> r_end r) b of
           [] \<Rightarrow> map_option (Pair []) (range_set_append out s e)
         | r # b' \<Rightarrow>
             if e \<le> r_start r then map_option (Pair (r # b')) (range_set_append out s e)
             else if s \<ge> r_start r then difference_range (r_end r) e (r # b') out
             else
               (case (if s < r_start r then range_set_append out s (r_start r) else Some out) of
                  None \<Rightarrow> None
                | Some out \<Rightarrow> difference_range (r_end r) e (r # b') out))
      else Some (b, out))"
  by pat_completeness auto
termination
  by (relation "measure (\<lambda>(s, e, b, out). nat (e - s))") (auto simp: dropWhile_eq_Cons_conv)

declare difference_range.simps [simp del]

fun difference_loop :: "range_set \<Rightarrow> range_set \<Rightarrow> range_set \<Rightarrow> range_set option" where
  "difference_loop [] b out = Some out"
| "difference_loop (r # a) b out =
     (case difference_range (r_start r) (r_end r) b out of
        None \<Rightarrow> None | Some (b, out) \<Rightarrow> difference_loop a b out)"

definition range_set_difference :: "range_set \<Rightarrow> range_set \<Rightarrow> range_set \<Rightarrow> range_set option" where
  "range_set_difference out a b = difference_loop a b out"

section \<open>Diffs\<close>

text \<open>The ranges of the two sides of every hunk, in parallel.\<close>

record diff_ranges =
  parent :: range_set
  target :: range_set

definition collect_diff_cb :: "int \<Rightarrow> int \<Rightarrow> int \<Rightarrow> int \<Rightarrow> diff_ranges \<Rightarrow> diff_ranges option" where
  "collect_diff_cb start_a count_a start_b count_b d =
     (case (if count_a \<ge> 0 then range_set_append (parent d) start_a (start_a + count_a) else Some (parent d)) of
        None \<Rightarrow> None
      | Some p \<Rightarrow>
          (case (if count_b \<ge> 0 then range_set_append (target d) start_b (start_b + count_b) else Some (target d)) of
             None \<Rightarrow> None
           | Some t \<Rightarrow> Some \<lparr>parent = p, target = t\<rparr>))"

definition ranges_overlap :: "range \<Rightarrow> range \<Rightarrow> bool" where
  "ranges_overlap a b \<longleftrightarrow> \<not> (r_end a \<le> r_start b \<or> r_end b \<le> r_start a)"

text \<open>
  The inner loop of \<^verbatim>\<open>diff_ranges_filter_touched\<close> on the ranges \<open>j\<close> has not passed: \<open>Some []\<close> is
  the return when they are used up, \<open>None\<close> the read outside an empty set.
\<close>

fun skip_passed :: "int \<Rightarrow> range_set \<Rightarrow> range_set option" where
  "skip_passed s [] = None"
| "skip_passed s (r # rs) =
     (if s \<ge> r_end r then if rs = [] then Some [] else skip_passed s rs else Some (r # rs))"

fun filter_touched_loop ::
  "range_set \<Rightarrow> range_set \<Rightarrow> range_set \<Rightarrow> diff_ranges \<Rightarrow> diff_ranges option" where
  "filter_touched_loop ps [] rs out = Some out"
| "filter_touched_loop ps (t # ts) rs out =
     (case skip_passed (r_start t) rs of
        None \<Rightarrow> None
      | Some [] \<Rightarrow> Some out
      | Some (r # rs') \<Rightarrow>
          if ranges_overlap t r then
            (case ps of
               [] \<Rightarrow> None
             | p # ps' \<Rightarrow>
                 (case range_set_append (parent out) (r_start p) (r_end p) of
                    None \<Rightarrow> None
                  | Some op \<Rightarrow>
                      (case range_set_append (target out) (r_start t) (r_end t) of
                         None \<Rightarrow> None
                       | Some ot \<Rightarrow> filter_touched_loop ps' ts (r # rs') \<lparr>parent = op, target = ot\<rparr>)))
          else filter_touched_loop (tl ps) ts (r # rs') out)"

definition diff_ranges_filter_touched ::
  "diff_ranges \<Rightarrow> diff_ranges \<Rightarrow> range_set \<Rightarrow> diff_ranges option" where
  "diff_ranges_filter_touched out diff rs =
     (if target out = [] then filter_touched_loop (parent diff) (target diff) rs out else None)"

text \<open>\<^verbatim>\<open>range_set_shift_diff\<close>: the hunks at or before \<open>s\<close> are passed, their growth added up.\<close>

fun shift_skip :: "int \<Rightarrow> range_set \<Rightarrow> range_set \<Rightarrow> int \<Rightarrow> range_set \<times> range_set \<times> int" where
  "shift_skip s (t # ts) (p # ps) offset =
     (if s \<ge> r_start t
      then shift_skip s ts ps (offset + ((r_end p - r_start p) - (r_end t - r_start t)))
      else (t # ts, p # ps, offset))"
| "shift_skip s ts ps offset = (ts, ps, offset)"

fun shift_loop ::
  "range_set \<Rightarrow> range_set \<Rightarrow> range_set \<Rightarrow> int \<Rightarrow> range_set \<Rightarrow> range_set option" where
  "shift_loop [] ts ps offset out = Some out"
| "shift_loop (r # src) ts ps offset out =
     (case shift_skip (r_start r) ts ps offset of
        (ts, ps, offset) \<Rightarrow>
          (case range_set_append out (r_start r + offset) (r_end r + offset) of
             None \<Rightarrow> None
           | Some out \<Rightarrow> shift_loop src ts ps offset out))"

definition range_set_shift_diff :: "range_set \<Rightarrow> range_set \<Rightarrow> diff_ranges \<Rightarrow> range_set option" where
  "range_set_shift_diff out rs diff = shift_loop rs (target diff) (parent diff) 0 out"

text \<open>The ranges in the parent, and the hunks that were touched.\<close>

definition range_set_map_across_diff ::
  "range_set \<Rightarrow> range_set \<Rightarrow> diff_ranges \<Rightarrow> (range_set \<times> diff_ranges) option" where
  "range_set_map_across_diff out rs diff =
     (case diff_ranges_filter_touched \<lparr>parent = [], target = []\<rparr> diff rs of
        None \<Rightarrow> None
      | Some touched \<Rightarrow>
          (case range_set_difference [] rs (target touched) of
             None \<Rightarrow> None
           | Some tmp1 \<Rightarrow>
               (case range_set_shift_diff [] tmp1 diff of
                  None \<Rightarrow> None
                | Some tmp2 \<Rightarrow>
                    map_option (\<lambda>out. (out, touched)) (range_set_union out tmp2 (parent touched)))))"

section \<open>The lines of a range set\<close>

definition lines :: "range \<Rightarrow> int set" where
  "lines r = {l. r_start r \<le> l \<and> l < r_end r}"

definition covered :: "range_set \<Rightarrow> int set" where
  "covered rs = (\<Union>r\<in>set rs. lines r)"

lemma covered_simps [simp]:
  "covered [] = {}" "covered (r # rs) = lines r \<union> covered rs"
  "covered (rs @ ss) = covered rs \<union> covered ss"
  by (auto simp: covered_def)

lemma lines_mk_range [simp]: "lines (mk_range a b) = {l. a \<le> l \<and> l < b}"
  by (simp add: lines_def)

text \<open>What appending keeps, and the stronger canonical form: no empty and no adjacent ranges.\<close>

definition in_order :: "range_set \<Rightarrow> bool" where
  "in_order rs \<longleftrightarrow> sorted_wrt (\<lambda>r s. r_end r \<le> r_start s) rs \<and> (\<forall>r\<in>set rs. r_start r \<le> r_end r)"

definition canonical :: "range_set \<Rightarrow> bool" where
  "canonical rs \<longleftrightarrow> sorted_wrt (\<lambda>r s. r_end r < r_start s) rs \<and> (\<forall>r\<in>set rs. r_start r < r_end r)"

lemma in_order_simps [simp]:
  "in_order []"
  "in_order (r # rs) \<longleftrightarrow> r_start r \<le> r_end r \<and> (\<forall>s\<in>set rs. r_end r \<le> r_start s) \<and> in_order rs"
  by (auto simp: in_order_def)

lemma canonical_simps [simp]:
  "canonical []"
  "canonical (r # rs) \<longleftrightarrow> r_start r < r_end r \<and> (\<forall>s\<in>set rs. r_end r < r_start s) \<and> canonical rs"
  by (auto simp: canonical_def)

lemma in_order_append:
  "in_order (rs @ ss) \<longleftrightarrow> in_order rs \<and> in_order ss \<and> (\<forall>r\<in>set rs. \<forall>s\<in>set ss. r_end r \<le> r_start s)"
  by (auto simp: in_order_def sorted_wrt_append)

lemma canonical_append:
  "canonical (rs @ ss) \<longleftrightarrow> canonical rs \<and> canonical ss \<and> (\<forall>r\<in>set rs. \<forall>s\<in>set ss. r_end r < r_start s)"
  by (auto simp: canonical_def sorted_wrt_append)

lemma canonical_in_order: "canonical rs \<Longrightarrow> in_order rs"
  by (induction rs) force+

lemma in_order_last:
  "in_order rs \<Longrightarrow> rs \<noteq> [] \<Longrightarrow> r_end (last rs) \<le> a \<Longrightarrow> r \<in> set rs \<Longrightarrow> r_end r \<le> a"
  by (cases rs rule: rev_cases) (force simp: in_order_append)+

lemma canonical_last: "canonical rs \<Longrightarrow> rs \<noteq> [] \<Longrightarrow> r \<in> set rs \<Longrightarrow> r_end r \<le> r_end (last rs)"
  by (cases rs rule: rev_cases) (force simp: canonical_append)+

lemma range_set_append_ok:
  assumes "in_order rs" "\<forall>r\<in>set rs. r_end r \<le> a" "a \<le> b"
  shows "range_set_append rs a b = Some (rs @ [mk_range a b])" "in_order (rs @ [mk_range a b])"
proof -
  have "rs = [] \<or> r_end (last rs) \<le> a" using assms(2) last_in_set [of rs] by blast
  then show "range_set_append rs a b = Some (rs @ [mk_range a b])" "in_order (rs @ [mk_range a b])"
    using assms by (auto simp: range_set_append_def range_set_append_unsafe_def in_order_append)
qed

section \<open>The invariant check\<close>

lemma check_from_canonical:
  "Suc n \<le> length rs \<Longrightarrow> r_start (rs ! n) < r_end (rs ! n) \<Longrightarrow>
   check_from rs (Suc n) (length rs - Suc n) \<longleftrightarrow> canonical (drop n rs)"
proof (induction "length rs - Suc n" arbitrary: n)
  case 0
  then show ?case by (simp add: Cons_nth_drop_Suc [symmetric])
next
  case (Suc k)
  then have n: "Suc n < length rs" by simp
  have d: "drop n rs = rs ! n # rs ! Suc n # drop (Suc (Suc n)) rs"
    using n by (simp add: Cons_nth_drop_Suc)
  have k: "length rs - Suc n = Suc (length rs - Suc (Suc n))" using n by simp
  have IH: "r_start (rs ! Suc n) < r_end (rs ! Suc n) \<Longrightarrow>
      check_from rs (Suc (Suc n)) (length rs - Suc (Suc n)) \<longleftrightarrow> canonical (drop (Suc n) rs)"
    using Suc.hyps(1) [of "Suc n"] Suc.hyps(2) n by simp
  have d': "drop (Suc n) rs = rs ! Suc n # drop (Suc (Suc n)) rs"
    using n by (simp add: Cons_nth_drop_Suc)
  have tl: "canonical (drop (Suc n) rs) \<Longrightarrow> r_end (rs ! n) < r_start (rs ! Suc n) \<Longrightarrow>
      \<forall>s\<in>set (drop (Suc (Suc n)) rs). r_end (rs ! n) < r_start s"
    unfolding d' by force
  show ?case
    unfolding k check_from.simps d using IH Suc.prems(2) tl unfolding d' by auto
qed

lemma check_invariants_iff: "range_set_check_invariants rs \<longleftrightarrow> canonical rs"
proof (cases rs)
  case (Cons r rs')
  then show ?thesis
    using check_from_canonical [of 0 rs] by (auto simp: range_set_check_invariants_def)
qed (simp add: range_set_check_invariants_def)

section \<open>Union\<close>

text \<open>
  Adding a range to a canonical set when it does not start before the last one.
\<close>

lemma union_emit_ok:
  assumes "canonical out" "r_start x \<le> r_end x" "out \<noteq> [] \<Longrightarrow> r_start (last out) \<le> r_start x"
  shows "canonical (union_emit x out)" "covered (union_emit x out) = covered out \<union> lines x"
    "union_emit x out \<noteq> [] \<Longrightarrow> r_start (last (union_emit x out)) \<le> r_start x"
proof -
  have "canonical (union_emit x out) \<and> covered (union_emit x out) = covered out \<union> lines x \<and>
    (union_emit x out \<noteq> [] \<longrightarrow> r_start (last (union_emit x out)) \<le> r_start x)"
  proof (cases out rule: rev_cases)
    case Nil
    then show ?thesis using assms(2) by (auto simp: union_emit_def lines_def)
  next
    case (snoc o' l)
    have o': "canonical o'" "r_start l < r_end l" "\<forall>r\<in>set o'. r_end r < r_start l" "r_start l \<le> r_start x"
      using assms(1,3) by (auto simp: snoc canonical_append)
    consider (empty) "r_start x = r_end x" | (new) "r_start x < r_end x" "r_end l < r_start x"
      | (grow) "r_start x < r_end x" "r_start x \<le> r_end l" "r_end l < r_end x"
      | (inside) "r_start x < r_end x" "r_start x \<le> r_end l" "r_end x \<le> r_end l"
      using assms(2) by linarith
    then show ?thesis
    proof cases
      case empty
      then show ?thesis using assms(1,3) by (auto simp: union_emit_def snoc lines_def)
    next
      case new
      have "\<forall>r\<in>set o'. r_end r < r_start x" using o' new by force
      with new o' show ?thesis
        by (auto simp: union_emit_def snoc canonical_append lines_def)
    next
      case grow
      with o' show ?thesis
        by (auto simp: union_emit_def snoc canonical_append lines_def)
    next
      case inside
      with o' assms(1) show ?thesis
        by (auto simp: union_emit_def snoc lines_def)
    qed
  qed
  then show "canonical (union_emit x out)" "covered (union_emit x out) = covered out \<union> lines x"
    "union_emit x out \<noteq> [] \<Longrightarrow> r_start (last (union_emit x out)) \<le> r_start x" by blast+
qed

definition by_start :: "range_set \<Rightarrow> bool" where
  "by_start rs \<longleftrightarrow> sorted_wrt (\<lambda>r s. r_start r \<le> r_start s) rs \<and> (\<forall>r\<in>set rs. r_start r \<le> r_end r)"

lemma by_start_simps [simp]:
  "by_start []"
  "by_start (r # rs) \<longleftrightarrow> r_start r \<le> r_end r \<and> (\<forall>s\<in>set rs. r_start r \<le> r_start s) \<and> by_start rs"
  by (auto simp: by_start_def)

lemma in_order_by_start: "in_order rs \<Longrightarrow> by_start rs"
  by (induction rs) force+

lemma union_loop_ok:
  assumes "by_start a" "by_start b" "canonical out"
    "\<And>r. r \<in> set a \<union> set b \<Longrightarrow> out \<noteq> [] \<Longrightarrow> r_start (last out) \<le> r_start r"
  shows "canonical (union_loop a b out) \<and>
    covered (union_loop a b out) = covered out \<union> covered a \<union> covered b"
  using assms
proof (induction a b out rule: union_loop.induct)
  case (2 x a out)
  note e = union_emit_ok [of out x]
  have "canonical (union_loop a [] (union_emit x out)) \<and>
      covered (union_loop a [] (union_emit x out)) = covered (union_emit x out) \<union> covered a \<union> covered []"
    by (rule "2.IH") (use "2.prems" e in \<open>auto intro: order_trans\<close>)
  then show ?case using "2.prems" e by auto
next
  case (3 y b out)
  note e = union_emit_ok [of out y]
  have "canonical (union_loop [] b (union_emit y out)) \<and>
      covered (union_loop [] b (union_emit y out)) = covered (union_emit y out) \<union> covered [] \<union> covered b"
    by (rule "3.IH") (use "3.prems" e in \<open>auto intro: order_trans\<close>)
  then show ?case using "3.prems" e by auto
next
  case (4 x a y b out)
  note ex = union_emit_ok [of out x] and ey = union_emit_ok [of out y]
  have left: ?case if xy: "r_start x \<le> r_start y"
    and IH: "canonical (union_loop a (y # b) (union_emit x out)) \<and>
        covered (union_loop a (y # b) (union_emit x out)) =
        covered (union_emit x out) \<union> covered a \<union> covered (y # b)"
    and eq: "union_loop (x # a) (y # b) out = union_loop a (y # b) (union_emit x out)"
    using IH "4.prems" ex unfolding eq by auto
  have right: ?case if yx: "r_start y \<le> r_start x"
    and IH: "canonical (union_loop (x # a) b (union_emit y out)) \<and>
        covered (union_loop (x # a) b (union_emit y out)) =
        covered (union_emit y out) \<union> covered (x # a) \<union> covered b"
    and eq: "union_loop (x # a) (y # b) out = union_loop (x # a) b (union_emit y out)"
    using IH "4.prems" ey unfolding eq by auto
  consider (1) "r_start x < r_start y" | (2) "r_start y < r_start x"
    | (3) "r_start x = r_start y" "r_end x < r_end y" | (4) "r_start x = r_start y" "\<not> r_end x < r_end y"
    by linarith
  then show ?case
  proof cases
    case 1
    then show ?thesis
      by (intro left "4.IH"(1)) (use "4.prems" ex in \<open>auto intro: order_trans\<close>)
  next
    case 2
    then show ?thesis
      by (intro right "4.IH"(2)) (use "4.prems" ey in \<open>auto intro: order_trans\<close>)
  next
    case 3
    then show ?thesis
      by (intro left "4.IH"(3)) (use "4.prems" ex in \<open>auto intro: order_trans\<close>)
  next
    case 4
    then show ?thesis
      by (intro right "4.IH"(4)) (use "4.prems" ey in \<open>auto intro: order_trans\<close>)
  qed
qed auto

section \<open>Sorting and merging\<close>

lemma union_loop_Nil: "union_loop a [] out = foldl (\<lambda>out x. union_emit x out) out a"
  by (induction a arbitrary: out) auto

lemma take_update_last: "k < length xs \<Longrightarrow> take (Suc k) (xs[k := y]) = take k xs @ [y]"
  by (simp add: take_Suc_conv_app_nth)

text \<open>The in-place pass computes the same as adding the ranges one after the other.\<close>

lemma merge_pass_foldl:
  assumes "merge_pass n i k rs = (k', rs')" "n = length rs - i" "k \<le> i" "i \<le> length rs"
  shows "length rs' = length rs \<and> k' \<le> length rs \<and>
    take k' rs' = foldl (\<lambda>out x. union_emit x out) (take k rs) (drop i rs)"
  using assms
proof (induction n i k rs arbitrary: k' rs' rule: merge_pass.induct)
  case (1 i k rs)
  then show ?case by simp
next
  case (2 n i k rs)
  have i: "i < length rs" "n = length rs - Suc i" using "2.prems"(2) by simp_all
  let ?x = "rs ! i"
  have d: "drop i rs = ?x # drop (Suc i) rs" using i by (simp add: Cons_nth_drop_Suc)
  have last: "k > 0 \<Longrightarrow> last (take k rs) = rs ! (k - 1) \<and> take k rs \<noteq> [] \<and>
      butlast (take k rs) = take (k - 1) rs"
    using i "2.prems"(3) by (cases k) (auto simp: take_Suc_conv_app_nth)
  consider (empty) "r_start ?x = r_end ?x"
    | (grow) "r_start ?x \<noteq> r_end ?x" "k > 0" "r_start ?x \<le> r_end (rs ! (k - 1))" "r_end (rs ! (k - 1)) < r_end ?x"
    | (inside) "r_start ?x \<noteq> r_end ?x" "k > 0" "r_start ?x \<le> r_end (rs ! (k - 1))" "\<not> r_end (rs ! (k - 1)) < r_end ?x"
    | (new) "r_start ?x \<noteq> r_end ?x" "\<not> (k > 0 \<and> r_start ?x \<le> r_end (rs ! (k - 1)))"
    by blast
  then show ?case
  proof cases
    case empty
    then have "merge_pass n (Suc i) k rs = (k', rs')" using "2.prems"(1) by simp
    from "2.IH"(1) [OF empty this i(2)] "2.prems"(3) i(1) show ?thesis
      unfolding d using empty by (simp add: union_emit_def)
  next
    case grow
    let ?rs = "rs[k - 1 := (rs ! (k - 1))\<lparr>r_end := r_end ?x\<rparr>]"
    have tk: "take k ?rs = butlast (take k rs) @ [(last (take k rs))\<lparr>r_end := r_end ?x\<rparr>]"
      using take_update_last [of "k - 1" rs] grow(2) last i "2.prems"(3) by simp
    have dr: "drop (Suc i) ?rs = drop (Suc i) rs" using "2.prems"(3) by simp
    have em: "union_emit ?x (take k rs) = butlast (take k rs) @ [(last (take k rs))\<lparr>r_end := r_end ?x\<rparr>]"
      using grow last by (simp add: union_emit_def)
    have "merge_pass n (Suc i) k ?rs = (k', rs')" using "2.prems"(1) grow by simp
    from "2.IH"(2) [OF grow(1) conjI [OF grow(2,3)] grow(4) this] "2.prems"(3) i
    have "length rs' = length ?rs \<and> k' \<le> length ?rs \<and>
        take k' rs' = foldl (\<lambda>out x. union_emit x out) (take k ?rs) (drop (Suc i) ?rs)" by simp
    then show ?thesis unfolding d tk dr by (simp add: em)
  next
    case inside
    have em: "union_emit ?x (take k rs) = take k rs"
      using inside last by (simp add: union_emit_def)
    have "merge_pass n (Suc i) k rs = (k', rs')" using "2.prems"(1) inside by simp
    from "2.IH"(3) [OF inside(1) conjI [OF inside(2,3)] inside(4) this] "2.prems"(3) i
    show ?thesis unfolding d by (simp add: em)
  next
    case new
    let ?rs = "rs[k := ?x]"
    have tk: "take (Suc k) ?rs = take k rs @ [?x]"
      using i "2.prems"(3) by (intro take_update_last) simp
    have dr: "drop (Suc i) ?rs = drop (Suc i) rs" using "2.prems"(3) by simp
    have em: "union_emit ?x (take k rs) = take k rs @ [?x]"
      using new last by (cases "k = 0") (auto simp: union_emit_def not_le)
    have "merge_pass n (Suc i) (Suc k) ?rs = (k', rs')"
      using new "2.prems"(1) by auto
    then have "length rs' = length ?rs \<and> k' \<le> length ?rs \<and>
        take k' rs' = foldl (\<lambda>out x. union_emit x out) (take (Suc k) ?rs) (drop (Suc i) ?rs)"
      using "2.IH"(4) [of k' rs'] new "2.prems" i by auto
    then show ?thesis unfolding d tk dr by (simp add: em)
  qed
qed

definition sorts :: "(range_set \<Rightarrow> range_set) \<Rightarrow> bool" where
  "sorts qsort \<longleftrightarrow> (\<forall>rs. mset (qsort rs) = mset rs \<and>
     sorted_wrt (\<lambda>r s. range_cmp r s \<le> 0) (qsort rs))"

lemma sorts_by_start:
  assumes "sorts qsort" "\<forall>r\<in>set rs. r_start r \<le> r_end r"
  shows "by_start (qsort rs)" "covered (qsort rs) = covered rs"
proof -
  have s: "set (qsort rs) = set rs" using assms(1) by (metis sorts_def set_mset_mset)
  have "sorted_wrt (\<lambda>r s. range_cmp r s \<le> 0) (qsort rs)" using assms(1) by (simp add: sorts_def)
  then have "sorted_wrt (\<lambda>r s. r_start r \<le> r_start s) (qsort rs)"
    by (rule sorted_wrt_mono_rel [rotated]) (auto simp: range_cmp_def split: if_splits)
  with s assms(2) show "by_start (qsort rs)" by (simp add: by_start_def)
  show "covered (qsort rs) = covered rs" by (simp add: covered_def s)
qed

lemma sort_and_merge_ok:
  assumes "sorts qsort" "\<forall>r\<in>set rs. r_start r \<le> r_end r"
  shows "\<exists>rs'. sort_and_merge_range_set qsort rs = Some rs' \<and> canonical rs' \<and> covered rs' = covered rs"
proof -
  obtain k rs' where m: "merge_pass (length (qsort rs)) 0 0 (qsort rs) = (k, rs')" by fastforce
  note mp = merge_pass_foldl [OF m]
  have "canonical (take k rs') \<and> covered (take k rs') = covered rs"
    using mp union_loop_ok [of "qsort rs" "[]" "[]"] sorts_by_start [OF assms]
    by (simp add: union_loop_Nil)
  moreover have "k \<le> length (qsort rs)" using mp by simp
  ultimately show ?thesis
    by (simp add: sort_and_merge_range_set_def m check_invariants_iff Let_def)
qed

section \<open>Difference\<close>

text \<open>
  What \<open>difference_range\<close> adds for the lines from \<open>s\<close> to \<open>e\<close>: nonempty ranges within them, with
  the lines that \<open>b\<close> does not have, that no range of \<open>b\<close> reaches into, not even an empty one.
\<close>

definition pieces :: "int \<Rightarrow> int \<Rightarrow> range_set \<Rightarrow> range_set \<Rightarrow> bool" where
  "pieces s e b new \<longleftrightarrow> in_order new \<and> (\<forall>n\<in>set new. s \<le> r_start n \<and> r_start n < r_end n \<and> r_end n \<le> e) \<and>
     covered new = {l. s \<le> l \<and> l < e} - covered b \<and>
     (\<forall>n\<in>set new. \<forall>r\<in>set b. \<not> ranges_overlap r n)"

lemma not_covered_before: "\<forall>r\<in>set b. r_end r \<le> s \<Longrightarrow> s \<le> l \<Longrightarrow> l \<notin> covered b"
  by (fastforce simp: covered_def lines_def)

lemma not_covered_after: "\<forall>r\<in>set b. e \<le> r_start r \<Longrightarrow> l < e \<Longrightarrow> l \<notin> covered b"
  by (fastforce simp: covered_def lines_def)

lemma pieces_Nil: "e \<le> s \<Longrightarrow> pieces s e b []"
  by (auto simp: pieces_def)

lemma pieces_single:
  assumes "s < e" "\<forall>r\<in>set b. r_end r \<le> s \<or> e \<le> r_start r"
  shows "pieces s e b [mk_range s e]"
  using assms by (force simp: pieces_def ranges_overlap_def covered_def lines_def)

lemma pieces_covered:
  assumes "pieces (r_end r) e (r # b') new" "r_start r \<le> s" "s < r_end r" "\<forall>r\<in>set p. r_end r \<le> s"
  shows "pieces s e (p @ r # b') new"
proof -
  have "{l. s \<le> l \<and> l < e} - covered (p @ r # b') = {l. r_end r \<le> l \<and> l < e} - covered (r # b')"
    using assms(2,3) not_covered_before [OF assms(4)] by (auto simp: lines_def)
  then show ?thesis
    using assms by (force simp: pieces_def ranges_overlap_def)
qed

lemma pieces_split:
  assumes "pieces (r_end r) e (r # b') new" "s < r_start r" "r_start r < e" "r_start r \<le> r_end r"
    "\<forall>r\<in>set p. r_end r \<le> s" "\<forall>x\<in>set b'. r_end r \<le> r_start x"
  shows "pieces s e (p @ r # b') (mk_range s (r_start r) # new)"
proof -
  have "\<forall>x\<in>set b'. r_start r \<le> r_start x" using assms(4,6) by force
  then have "{l. s \<le> l \<and> l < e} - covered (p @ r # b') =
      lines (mk_range s (r_start r)) \<union> ({l. r_end r \<le> l \<and> l < e} - covered (r # b'))"
    using assms(2-4) not_covered_before [OF assms(5)] not_covered_after [of b' "r_start r"]
    by (auto simp: lines_def)
  then show ?thesis
    using assms by (force simp: pieces_def ranges_overlap_def)
qed

lemma difference_range_ok:
  assumes "in_order b" "in_order out" "\<forall>r\<in>set out. r_end r \<le> s"
  shows "\<exists>p b' new. b = p @ b' \<and> difference_range s e b out = Some (b', out @ new) \<and>
    in_order (out @ new) \<and> pieces s e b new \<and> (\<forall>r\<in>set p. r_end r \<le> e)"
  using assms
proof (induction s e b out rule: difference_range.induct)
  case (1 s e b out)
  note eq = difference_range.simps [of s e b out]
  show ?case
  proof (cases "s < e")
    case False
    then show ?thesis using "1.prems" eq
      by (intro exI [of _ "[]"] exI [of _ b]) (simp add: pieces_Nil)
  next
    case True
    define p where "p = takeWhile (\<lambda>r. s \<ge> r_end r) b"
    define q where "q = dropWhile (\<lambda>r. s \<ge> r_end r) b"
    have b: "b = p @ q" by (simp add: p_def q_def)
    have p: "\<forall>r\<in>set p. r_end r \<le> s" unfolding p_def by (auto dest: set_takeWhileD)
    then have pe: "\<forall>r\<in>set p. r_end r \<le> e" using True by force
    note eq = eq [folded q_def, unfolded if_P [OF True]]
    note app = range_set_append_ok [OF "1.prems"(2,3)]
    show ?thesis
    proof (cases q)
      case Nil
      have "pieces s e b [mk_range s e]"
        using p by (intro pieces_single True) (simp add: b Nil)
      then show ?thesis
        using app [of e] True pe b Nil eq by (intro exI [of _ p] exI [of _ "[]"] exI [of _ "[mk_range s e]"]) simp
    next
      case (Cons r b')
      have sr: "s < r_end r" using Cons by (simp add: q_def dropWhile_eq_Cons_conv)
      have ord: "in_order (r # b')" using "1.prems"(1) by (simp add: b Cons in_order_append)
      then have r: "r_start r \<le> r_end r" "\<forall>x\<in>set b'. r_end r \<le> r_start x" by simp_all
      note eq = eq [unfolded Cons list.case]
      have q: "dropWhile (\<lambda>r. s \<ge> r_end r) b = r # b'" using Cons by (simp add: q_def)
      show ?thesis
      proof (cases "e \<le> r_start r")
        case before: True
        have "\<forall>x\<in>set (r # b'). e \<le> r_start x" using before r by force
        then have "pieces s e b [mk_range s e]"
          using p by (intro pieces_single True) (auto simp: b Cons)
        then show ?thesis
          using app [of e] True before pe b Cons eq
          by (intro exI [of _ p] exI [of _ "r # b'"] exI [of _ "[mk_range s e]"]) simp
      next
        case reach: False
        have drop: "\<exists>p b'' new. b = p @ b'' \<and> Some (bb, out @ new0 @ new1) = Some (b'', out @ new) \<and>
            in_order (out @ new) \<and> pieces s e b new \<and> (\<forall>r\<in>set p. r_end r \<le> e)"
          if "r # b' = p' @ bb" "\<forall>r\<in>set p'. r_end r \<le> e" "in_order (out @ new0 @ new1)"
            "pieces s e b (new0 @ new1)" for p' bb new0 new1
          by (rule exI [of _ "p @ p'"], rule exI [of _ bb], rule exI [of _ "new0 @ new1"])
            (use that pe b Cons in auto)
        show ?thesis
        proof (cases "s \<ge> r_start r")
          case inside: True
          have out: "\<forall>x\<in>set out. r_end x \<le> r_end r" using "1.prems"(3) sr by force
          obtain p' bb new where IH: "r # b' = p' @ bb"
            "difference_range (r_end r) e (r # b') out = Some (bb, out @ new)"
            "in_order (out @ new)" "pieces (r_end r) e (r # b') new" "\<forall>r\<in>set p'. r_end r \<le> e"
            using "1.IH"(1) [OF True q reach inside ord "1.prems"(2) out] by blast
          have "pieces s e b new"
            unfolding b Cons by (rule pieces_covered [OF IH(4) inside sr p])
          then show ?thesis
            using drop [of p' bb "[]" new] IH eq reach inside by simp
        next
          case gap: False
          then have lt: "s < r_start r" by simp
          note app = app [of "r_start r"]
          have out: "\<forall>x\<in>set (out @ [mk_range s (r_start r)]). r_end x \<le> r_end r"
            using "1.prems"(3) sr r by force
          have a: "(if s < r_start r then range_set_append out s (r_start r) else Some out) =
              Some (out @ [mk_range s (r_start r)])" using lt app by simp
          obtain p' bb new where IH: "r # b' = p' @ bb"
            "difference_range (r_end r) e (r # b') (out @ [mk_range s (r_start r)]) =
              Some (bb, (out @ [mk_range s (r_start r)]) @ new)"
            "in_order ((out @ [mk_range s (r_start r)]) @ new)" "pieces (r_end r) e (r # b') new"
            "\<forall>r\<in>set p'. r_end r \<le> e"
            using "1.IH"(2) [OF True q reach gap a ord _ out] app(2) lt by auto
          have "pieces s e b (mk_range s (r_start r) # new)"
            unfolding b Cons using reach r by (intro pieces_split [OF IH(4) lt _ r(1) p r(2)]) simp
          then show ?thesis
            using drop [of p' bb "[mk_range s (r_start r)]" new] IH eq reach gap a by simp
        qed
      qed
    qed
  qed
qed

definition remainders :: "range_set \<Rightarrow> range_set \<Rightarrow> range_set \<Rightarrow> bool" where
  "remainders a b new \<longleftrightarrow> covered new = covered a - covered b \<and>
     (\<forall>n\<in>set new. r_start n < r_end n \<and> (\<exists>x\<in>set a. r_start x \<le> r_start n \<and> r_end n \<le> r_end x)) \<and>
     (\<forall>n\<in>set new. \<forall>r\<in>set b. \<not> ranges_overlap r n)"

lemma remainders_Cons:
  assumes "pieces (r_start x) (r_end x) (p @ b') new1" "remainders a b' new2"
    "\<forall>r\<in>set p. r_end r \<le> r_end x" "\<forall>y\<in>set a. r_end x \<le> r_start y"
  shows "remainders (x # a) (p @ b') (new1 @ new2)"
proof -
  have n2: "\<forall>n\<in>set new2. r_end x \<le> r_start n" using assms(2,4) by (force simp: remainders_def)
  have "l \<notin> covered p" if l: "l \<in> covered a" for l
  proof -
    obtain y where y: "y \<in> set a" "r_start y \<le> l" using l by (auto simp: covered_def lines_def)
    with assms(3,4) have "\<forall>r\<in>set p. r_end r \<le> l" by force
    then show ?thesis using not_covered_before by blast
  qed
  then have "covered a - covered b' = covered a - covered (p @ b')" by auto
  moreover have "\<forall>n\<in>set new2. \<forall>r\<in>set p. \<not> ranges_overlap r n"
    using n2 assms(3) by (force simp: ranges_overlap_def)
  moreover have "lines x = {l. r_start x \<le> l \<and> l < r_end x}" by (simp add: lines_def)
  ultimately show ?thesis
    using assms(1,2) unfolding remainders_def pieces_def by auto
qed

lemma difference_loop_ok:
  assumes "in_order a" "in_order b" "in_order out" "\<forall>r\<in>set out. \<forall>x\<in>set a. r_end r \<le> r_start x"
  shows "\<exists>new. difference_loop a b out = Some (out @ new) \<and> in_order (out @ new) \<and> remainders a b new"
  using assms
proof (induction a arbitrary: b out)
  case Nil
  then show ?case by (intro exI [of _ "[]"]) (simp add: remainders_def)
next
  case (Cons x a)
  have out: "\<forall>r\<in>set out. r_end r \<le> r_start x" using Cons.prems(4) by simp
  obtain p b' new1 where 1: "b = p @ b'"
    "difference_range (r_start x) (r_end x) b out = Some (b', out @ new1)"
    "in_order (out @ new1)" "pieces (r_start x) (r_end x) b new1" "\<forall>r\<in>set p. r_end r \<le> r_end x"
    using difference_range_ok [OF Cons.prems(2,3) out, of "r_end x"] by blast
  have b': "in_order b'" using Cons.prems(2) by (simp add: 1 in_order_append)
  have a: "in_order a" "\<forall>y\<in>set a. r_end x \<le> r_start y" using Cons.prems(1) by simp_all
  have "\<forall>r\<in>set (out @ new1). \<forall>y\<in>set a. r_end r \<le> r_start y"
    using Cons.prems(4) 1(4) a(2) by (force simp: pieces_def)
  then obtain new2 where 2: "difference_loop a b' (out @ new1) = Some ((out @ new1) @ new2)"
    "in_order ((out @ new1) @ new2)" "remainders a b' new2"
    using Cons.IH [OF a(1) b' 1(3)] by blast
  have "remainders (x # a) b (new1 @ new2)"
    unfolding 1(1) using 1(1,4,5) 2(3) a(2) by (intro remainders_Cons) simp_all
  then show ?case using 1(2) 2 by (intro exI [of _ "new1 @ new2"]) simp
qed

lemma range_set_difference_ok:
  assumes "in_order a" "in_order b"
  shows "\<exists>new. range_set_difference [] a b = Some new \<and> in_order new \<and> remainders a b new"
  using difference_loop_ok [OF assms, of "[]"] by (simp add: range_set_difference_def)

section \<open>The hunks that touch a range set\<close>

text \<open>Two sides of a diff in parallel, as pairs of ranges.\<close>

definition hunks :: "diff_ranges \<Rightarrow> (range \<times> range) list" where
  "hunks d = zip (parent d) (target d)"

definition touches :: "range_set \<Rightarrow> range \<Rightarrow> bool" where
  "touches rs t \<longleftrightarrow> (\<exists>r\<in>set rs. ranges_overlap t r)"

lemma skip_passed_ok:
  "rs \<noteq> [] \<Longrightarrow> skip_passed s rs = Some (dropWhile (\<lambda>r. s \<ge> r_end r) rs)"
  by (induction rs) auto

lemma filter_touched_none: "\<forall>r\<in>set rs. r_end r \<le> r_start t \<Longrightarrow> \<not> touches rs t"
  by (force simp: touches_def ranges_overlap_def)

lemma touches_append: "touches (p @ q) t \<longleftrightarrow> touches p t \<or> touches q t"
  by (auto simp: touches_def)

lemma filter_touched_loop_ok:
  assumes "in_order ps" "in_order ts" "length ps = length ts" "canonical rs" "rs \<noteq> []"
    "in_order (parent out)" "in_order (target out)"
    "\<forall>r\<in>set (parent out). \<forall>p\<in>set ps. r_end r \<le> r_start p"
    "\<forall>r\<in>set (target out). \<forall>t\<in>set ts. r_end r \<le> r_start t"
  shows "filter_touched_loop ps ts rs out =
    Some \<lparr>parent = parent out @ map fst (filter (\<lambda>h. touches rs (snd h)) (zip ps ts)),
          target = target out @ map snd (filter (\<lambda>h. touches rs (snd h)) (zip ps ts))\<rparr>"
  using assms
proof (induction ts arbitrary: ps rs out)
  case Nil
  then show ?case by simp
next
  case (Cons t ts)
  obtain p ps' where ps: "ps = p # ps'" using Cons.prems(3) by (cases ps) auto
  define d where "d = takeWhile (\<lambda>r. r_start t \<ge> r_end r) rs"
  define q where "q = dropWhile (\<lambda>r. r_start t \<ge> r_end r) rs"
  have rs: "rs = d @ q" by (simp add: d_def q_def)
  have dt: "\<forall>r\<in>set d. r_end r \<le> r_start t" unfolding d_def by (auto dest: set_takeWhileD)
  have sk: "skip_passed (r_start t) rs = Some q"
    using skip_passed_ok [OF Cons.prems(5)] by (simp add: q_def)
  have later: "\<forall>u\<in>set ts. r_start t \<le> r_start u" using Cons.prems(2) by force
  have td: "\<not> touches d u" if "u = t \<or> u \<in> set ts" for u
    using dt later that by (intro filter_touched_none) force
  have same: "touches rs u = touches q u" if "u = t \<or> u \<in> set ts" for u
    using td [OF that] by (simp add: rs touches_append)
  have filt: "filter (\<lambda>h. touches rs (snd h)) (zip ps' ts) = filter (\<lambda>h. touches q (snd h)) (zip ps' ts)"
    using same by (intro filter_cong) (auto dest: set_zip_rightD)
  show ?case
  proof (cases q)
    case Nil
    have "\<not> touches rs u" if "u = t \<or> u \<in> set ts" for u
      using same [OF that] by (simp add: Nil touches_def)
    then have "filter (\<lambda>h. touches rs (snd h)) (zip ps (t # ts)) = []"
      by (auto simp: filter_empty_conv dest: set_zip_rightD)
    then show ?thesis using sk Nil by simp
  next
    case Cons': (Cons r q')
    have q: "canonical q" "q \<noteq> []" using Cons.prems(4) Cons' by (simp_all add: rs canonical_append)
    have tr: "r_start t < r_end r" using Cons' by (simp add: q_def dropWhile_eq_Cons_conv)
    have qs: "\<forall>x\<in>set q'. r_end r < r_start x" using q(1) by (simp add: Cons')
    have touch: "touches rs t = ranges_overlap t r"
    proof -
      have "touches q' t \<Longrightarrow> ranges_overlap t r"
        using qs tr Cons.prems(2) q(1) by (fastforce simp: touches_def ranges_overlap_def Cons')
      then show ?thesis using same [of t] by (auto simp: Cons' touches_def)
    qed
    have tl: "in_order ps'" "in_order ts" "length ps' = length ts"
      "\<forall>x\<in>set ps'. r_end p \<le> r_start x" "\<forall>x\<in>set ts. r_end t \<le> r_start x" "r_start p \<le> r_end p" "r_start t \<le> r_end t"
      using Cons.prems(1-3) by (simp_all add: ps)
    show ?thesis
    proof (cases "ranges_overlap t r")
      case True
      have ap: "range_set_append (parent out) (r_start p) (r_end p) = Some (parent out @ [p])"
        "in_order (parent out @ [p])"
        using range_set_append_ok [of "parent out" "r_start p" "r_end p"] Cons.prems(6,8) tl by (simp_all add: ps)
      have at: "range_set_append (target out) (r_start t) (r_end t) = Some (target out @ [t])"
        "in_order (target out @ [t])"
        using range_set_append_ok [of "target out" "r_start t" "r_end t"] Cons.prems(7,9) tl by simp_all
      have "filter_touched_loop ps' ts q \<lparr>parent = parent out @ [p], target = target out @ [t]\<rparr> =
        Some \<lparr>parent = (parent out @ [p]) @ map fst (filter (\<lambda>h. touches q (snd h)) (zip ps' ts)),
              target = (target out @ [t]) @ map snd (filter (\<lambda>h. touches q (snd h)) (zip ps' ts))\<rparr>"
        using Cons.IH [OF tl(1-3) q, of "\<lparr>parent = parent out @ [p], target = target out @ [t]\<rparr>"]
          ap(2) at(2) Cons.prems(8,9) tl(4,5) by (auto simp: ps)
      then show ?thesis
        using sk ap at True touch by (simp add: ps Cons' filt [unfolded Cons'])
    next
      case False
      have "filter_touched_loop ps' ts q out =
        Some \<lparr>parent = parent out @ map fst (filter (\<lambda>h. touches q (snd h)) (zip ps' ts)),
              target = target out @ map snd (filter (\<lambda>h. touches q (snd h)) (zip ps' ts))\<rparr>"
        using Cons.IH [OF tl(1-3) q Cons.prems(6,7)] Cons.prems(8,9) by (auto simp: ps)
      then show ?thesis
        using sk False touch by (simp add: ps Cons' filt [unfolded Cons'])
    qed
  qed
qed

section \<open>Shifting by a diff\<close>

definition growth :: "range \<times> range \<Rightarrow> int" where
  "growth h = (r_end (fst h) - r_start (fst h)) - (r_end (snd h) - r_start (snd h))"

text \<open>How far the hunks at or before a line of the target move it in the parent.\<close>

definition offset_at :: "(range \<times> range) list \<Rightarrow> int \<Rightarrow> int" where
  "offset_at hs l = sum_list (map growth (filter (\<lambda>h. r_start (snd h) \<le> l) hs))"

lemma offset_at_simps [simp]:
  "offset_at [] l = 0"
  "offset_at (h # hs) l = (if r_start (snd h) \<le> l then growth h else 0) + offset_at hs l"
  by (simp_all add: offset_at_def)

lemma offset_at_after: "\<forall>h\<in>set hs. l < r_start (snd h) \<Longrightarrow> offset_at hs l = 0"
  by (induction hs) auto

lemma shift_skip_ok:
  assumes "length ps = length ts" "in_order ts" "shift_skip s ts ps k = (ts', ps', k')"
  shows "length ps' = length ts' \<and> in_order ts' \<and>
    (\<forall>l\<ge>s. k' + offset_at (zip ps' ts') l = k + offset_at (zip ps ts) l) \<and>
    offset_at (zip ps' ts') s = 0"
  using assms
proof (induction s ts ps k rule: shift_skip.induct)
  case (1 s t ts p ps k)
  show ?case
  proof (cases "s \<ge> r_start t")
    case True
    then show ?thesis using "1.IH" "1.prems" by (auto simp: growth_def algebra_simps)
  next
    case False
    have "\<forall>u\<in>set ts. s < r_start u" using "1.prems"(2) False by force
    then have "offset_at (zip ps ts) s = 0" by (intro offset_at_after) (auto dest: set_zip_rightD)
    with False "1.prems" show ?thesis by auto
  qed
qed auto

lemma sum_lengths:
  "in_order ts \<Longrightarrow> \<forall>t\<in>set ts. a \<le> r_start t \<and> r_end t \<le> b \<Longrightarrow> a \<le> b \<Longrightarrow>
   sum_list (map (\<lambda>t. r_end t - r_start t) ts) \<le> b - a"
proof (induction ts arbitrary: a)
  case (Cons t ts)
  have "sum_list (map (\<lambda>t. r_end t - r_start t) ts) \<le> b - r_end t"
    by (rule Cons.IH) (use Cons.prems in auto)
  with Cons.prems show ?case by auto
qed simp

lemma offset_between:
  "s \<le> s' \<Longrightarrow> offset_at hs s' - offset_at hs s =
   sum_list (map growth (filter (\<lambda>h. s < r_start (snd h) \<and> r_start (snd h) \<le> s') hs))"
  by (induction hs) auto

lemma sum_growth_ge:
  "\<forall>h\<in>set hs. r_start (fst h) \<le> r_end (fst h) \<Longrightarrow>
   - sum_list (map (\<lambda>t. r_end t - r_start t) (map snd hs)) \<le> sum_list (map growth hs)"
  by (induction hs) (auto simp: growth_def)

lemma in_order_filter: "in_order ts \<Longrightarrow> in_order (filter P ts)"
  by (auto simp: in_order_def intro: sorted_wrt_filter)

lemma in_order_map_filter: "in_order (map f hs) \<Longrightarrow> in_order (map f (filter P hs))"
  by (induction hs) auto

text \<open>A range no hunk reaches into.\<close>

definition clear :: "(range \<times> range) list \<Rightarrow> range \<Rightarrow> bool" where
  "clear hs n \<longleftrightarrow> r_start n < r_end n \<and> (\<forall>h\<in>set hs. \<not> ranges_overlap (snd h) n)"

lemma offset_mono:
  assumes "in_order (map snd hs)" "\<forall>h\<in>set hs. r_start (fst h) \<le> r_end (fst h)"
    "clear hs m" "clear hs n" "r_end m \<le> r_start n"
  shows "r_end m + offset_at hs (r_start m) \<le> r_start n + offset_at hs (r_start n)"
proof -
  define R where "R = filter (\<lambda>h. r_start m < r_start (snd h) \<and> r_start (snd h) \<le> r_start n) hs"
  have le: "\<forall>t\<in>set (map snd hs). r_start t \<le> r_end t" using assms(1) by (simp add: in_order_def)
  have R: "\<forall>t\<in>set (map snd R). r_end m \<le> r_start t \<and> r_end t \<le> r_start n"
    using assms(3,4) le by (fastforce simp: R_def clear_def ranges_overlap_def)
  have "sum_list (map (\<lambda>t. r_end t - r_start t) (map snd R)) \<le> r_start n - r_end m"
    using R assms(1,5) by (intro sum_lengths) (auto simp: R_def intro: in_order_map_filter)
  moreover have "- sum_list (map (\<lambda>t. r_end t - r_start t) (map snd R)) \<le> sum_list (map growth R)"
    using assms(2) by (intro sum_growth_ge) (auto simp: R_def)
  moreover have "offset_at hs (r_start n) - offset_at hs (r_start m) = sum_list (map growth R)"
    unfolding R_def using assms(3,5) by (intro offset_between) (simp add: clear_def)
  ultimately show ?thesis by linarith
qed

definition shifted :: "(range \<times> range) list \<Rightarrow> range \<Rightarrow> range" where
  "shifted hs n = mk_range (r_start n + offset_at hs (r_start n)) (r_end n + offset_at hs (r_start n))"

lemma in_order_shifted:
  assumes "in_order (map snd hs)" "\<forall>h\<in>set hs. r_start (fst h) \<le> r_end (fst h)"
  shows "in_order src \<Longrightarrow> \<forall>n\<in>set src. clear hs n \<Longrightarrow> in_order (map (shifted hs) src)"
proof (induction src)
  case (Cons n src)
  then show ?case using offset_mono [OF assms] by (auto simp: shifted_def)
qed simp

lemma shift_loop_ok:
  assumes "length ps = length ts" "in_order ts" "in_order src"
    "\<And>l. (\<exists>n\<in>set src. r_start n \<le> l) \<Longrightarrow> offset_at hs l = k + offset_at (zip ps ts) l"
    "in_order (out @ map (shifted hs) src)"
  shows "shift_loop src ts ps k out = Some (out @ map (shifted hs) src)"
  using assms
proof (induction src arbitrary: ts ps k out)
  case (Cons n src)
  obtain ts' ps' k' where sk: "shift_skip (r_start n) ts ps k = (ts', ps', k')" by (metis prod_cases3)
  note sk' = shift_skip_ok [OF Cons.prems(1,2) sk]
  have k: "k' = offset_at hs (r_start n)"
    using sk' Cons.prems(4) [of "r_start n"] by fastforce
  have "range_set_append out (r_start n + k') (r_end n + k') = Some (out @ [shifted hs n])"
    using range_set_append_ok [of out "r_start n + k'" "r_end n + k'"] Cons.prems(3,5)
    by (auto simp: shifted_def k in_order_append)
  moreover have "shift_loop src ts' ps' k' (out @ [shifted hs n]) =
      Some ((out @ [shifted hs n]) @ map (shifted hs) src)"
  proof (rule Cons.IH)
    fix l assume "\<exists>n'\<in>set src. r_start n' \<le> l"
    then have "r_start n \<le> l" using Cons.prems(3) by force
    then show "offset_at hs l = k' + offset_at (zip ps' ts') l"
      using sk' Cons.prems(4) [of l] by auto
  qed (use sk' Cons.prems in auto)
  ultimately show ?case by (simp add: sk)
qed simp

lemma offset_in_clear:
  assumes "in_order (map snd hs)" "clear hs n" "l \<in> lines n"
  shows "offset_at hs l = offset_at hs (r_start n)"
proof -
  have le: "\<forall>h\<in>set hs. r_start (snd h) \<le> r_end (snd h)" using assms(1) by (auto simp: in_order_def)
  have "\<forall>h\<in>set hs. r_start (snd h) \<le> l \<longleftrightarrow> r_start (snd h) \<le> r_start n"
    using assms(2,3) le by (fastforce simp: clear_def ranges_overlap_def lines_def)
  then show ?thesis by (induction hs) auto
qed

lemma covered_shifted:
  assumes "in_order (map snd hs)" "\<forall>n\<in>set src. clear hs n"
  shows "covered (map (shifted hs) src) = (\<lambda>l. l + offset_at hs l) ` covered src"
  using assms(2)
proof (induction src)
  case (Cons n src)
  have "lines (shifted hs n) = (\<lambda>l. l + offset_at hs (r_start n)) ` lines n"
  proof (intro equalityI subsetI)
    fix l assume "l \<in> lines (shifted hs n)"
    then have "l - offset_at hs (r_start n) \<in> lines n" by (auto simp: lines_def shifted_def)
    then show "l \<in> (\<lambda>l. l + offset_at hs (r_start n)) ` lines n" by force
  qed (auto simp: lines_def shifted_def)
  also have "\<dots> = (\<lambda>l. l + offset_at hs l) ` lines n"
    using offset_in_clear [OF assms(1), of n] Cons.prems by (intro image_cong) auto
  finally show ?case using Cons by (simp add: image_Un)
qed simp

section \<open>Mapping a range set across a diff\<close>

definition diff_wf :: "diff_ranges \<Rightarrow> bool" where
  "diff_wf d \<longleftrightarrow> length (parent d) = length (target d) \<and> in_order (parent d) \<and> in_order (target d)"

definition touched_hunks :: "range_set \<Rightarrow> diff_ranges \<Rightarrow> (range \<times> range) list" where
  "touched_hunks rs d = filter (\<lambda>h. touches rs (snd h)) (hunks d)"

lemma filter_touched_ok:
  assumes "diff_wf d" "canonical rs" "rs \<noteq> []"
  shows "diff_ranges_filter_touched \<lparr>parent = [], target = []\<rparr> d rs =
    Some \<lparr>parent = map fst (touched_hunks rs d), target = map snd (touched_hunks rs d)\<rparr>"
  using filter_touched_loop_ok [of "parent d" "target d" rs "\<lparr>parent = [], target = []\<rparr>"] assms
  by (simp add: diff_ranges_filter_touched_def diff_wf_def touched_hunks_def hunks_def)

lemma map_across_ok:
  assumes "diff_wf d" "canonical rs" "rs \<noteq> []"
  shows "\<exists>out. range_set_map_across_diff [] rs d =
      Some (out, \<lparr>parent = map fst (touched_hunks rs d), target = map snd (touched_hunks rs d)\<rparr>) \<and>
    canonical out \<and>
    covered out = (\<lambda>l. l + offset_at (hunks d) l) ` (covered rs - covered (target d)) \<union>
      covered (map fst (touched_hunks rs d))"
proof -
  let ?hs = "hunks d" and ?T = "touched_hunks rs d"
  have fs: "map fst ?hs = parent d" "map snd ?hs = target d"
    using assms(1) by (simp_all add: hunks_def diff_wf_def)
  have inT: "in_order (map snd ?T)" "in_order (map fst ?T)"
    using assms(1) in_order_map_filter [of snd ?hs] in_order_map_filter [of fst ?hs]
    by (simp_all add: touched_hunks_def fs diff_wf_def)
  obtain tmp1 where t1: "range_set_difference [] rs (map snd ?T) = Some tmp1" "in_order tmp1"
    "remainders rs (map snd ?T) tmp1"
    using range_set_difference_ok [OF canonical_in_order [OF assms(2)] inT(1)] by blast
  have untouched: "\<not> ranges_overlap (snd h) n"
    if hn: "h \<in> set ?hs" "n \<in> set tmp1" for h n
  proof (cases "touches rs (snd h)")
    case True
    with hn(1) have "snd h \<in> set (map snd ?T)" by (auto simp: touched_hunks_def)
    then show ?thesis using hn(2) t1(3) unfolding remainders_def by blast
  next
    case False
    obtain x where "x \<in> set rs" "r_start x \<le> r_start n" "r_end n \<le> r_end x"
      using t1(3) hn(2) by (auto simp: remainders_def)
    with False show ?thesis by (force simp: touches_def ranges_overlap_def)
  qed
  have cl: "\<forall>n\<in>set tmp1. clear ?hs n"
    using untouched t1(3) by (auto simp: clear_def remainders_def)
  have ord: "in_order (map snd ?hs)" "\<forall>h\<in>set ?hs. r_start (fst h) \<le> r_end (fst h)"
    using assms(1) unfolding fs by (auto simp: diff_wf_def in_order_def hunks_def dest: set_zip_leftD)
  have t2: "range_set_shift_diff [] tmp1 d = Some (map (shifted ?hs) tmp1)"
    unfolding range_set_shift_diff_def
    using assms(1) in_order_shifted [OF ord t1(2) cl]
    by (subst shift_loop_ok [of _ _ _ ?hs]) (simp_all add: diff_wf_def hunks_def t1(2))
  have un: "canonical (union_loop (map (shifted ?hs) tmp1) (map fst ?T) []) \<and>
      covered (union_loop (map (shifted ?hs) tmp1) (map fst ?T) []) =
      covered [] \<union> covered (map (shifted ?hs) tmp1) \<union> covered (map fst ?T)"
    by (rule union_loop_ok) (use in_order_shifted [OF ord t1(2) cl] inT(2) in \<open>auto intro: in_order_by_start\<close>)
  have common: "covered tmp1 = covered rs - covered (target d)"
  proof -
    have "l \<in> covered (map snd ?T)" if l: "l \<in> covered rs" "l \<in> covered (target d)" for l
    proof -
      obtain x t where "x \<in> set rs" "l \<in> lines x" and t: "t \<in> set (target d)" "l \<in> lines t"
        using l by (auto simp: covered_def)
      then have "touches rs t" by (force simp: touches_def ranges_overlap_def lines_def)
      moreover obtain h where "h \<in> set ?hs" "snd h = t" using t(1) fs(2) by (metis in_set_conv_nth length_map nth_map nth_mem)
      ultimately have "t \<in> set (map snd ?T)" by (auto simp: touched_hunks_def)
      then show ?thesis using t(2) by (auto simp: covered_def)
    qed
    moreover have "covered (map snd ?T) \<subseteq> covered (target d)"
      unfolding fs(2) [symmetric] by (auto simp: covered_def touched_hunks_def)
    ultimately show ?thesis using t1(3) by (auto simp: remainders_def)
  qed
  have "range_set_map_across_diff [] rs d =
      Some (union_loop (map (shifted ?hs) tmp1) (map fst ?T) [], \<lparr>parent = map fst ?T, target = map snd ?T\<rparr>)"
    unfolding range_set_map_across_diff_def filter_touched_ok [OF assms]
    by (simp add: t1(1) t2 range_set_union_def)
  then show ?thesis
    using un covered_shifted [OF ord(1) cl] by (simp add: common)
qed

text \<open>
  A diff describes how the common lines of the two sides pair up: every hunk starts, on the
  parent's side, as far from its start on the target's side as the hunks before it have grown.
\<close>

fun aligned :: "(range \<times> range) list \<Rightarrow> int \<Rightarrow> bool" where
  "aligned [] k = True"
| "aligned (h # hs) k \<longleftrightarrow> r_start (fst h) = r_start (snd h) + k \<and> aligned hs (k + growth h)"

lemma aligned_starts:
  assumes "aligned hs k" "in_order (map snd hs)" "in_order (map fst hs)" "l \<notin> covered (map snd hs)"
  shows "l + (k + offset_at hs l) \<notin> covered (map fst hs)"
  using assms
proof (induction hs arbitrary: k)
  case (Cons h hs)
  have later: "\<forall>g\<in>set hs. r_end (snd h) \<le> r_start (snd g)" "r_start (snd h) \<le> r_end (snd h)"
    using Cons.prems(2) by auto
  have IH: "l + ((k + growth h) + offset_at hs l) \<notin> covered (map fst hs)"
    using Cons by simp
  show ?case
  proof (cases "r_start (snd h) \<le> l")
    case True
    then have "r_end (snd h) \<le> l" using Cons.prems(4) by (auto simp: lines_def)
    moreover have "- (l - r_end (snd h)) \<le> offset_at hs l"
      using Cons.prems(2,3) \<open>r_end (snd h) \<le> l\<close> Cons.prems(4)
    proof -
      let ?R = "filter (\<lambda>h. r_start (snd h) \<le> l) hs"
      have "\<forall>t\<in>set (map snd ?R). r_end (snd h) \<le> r_start t \<and> r_end t \<le> l"
        using later Cons.prems(4) by (fastforce simp: lines_def covered_def)
      then have "sum_list (map (\<lambda>t. r_end t - r_start t) (map snd ?R)) \<le> l - r_end (snd h)"
        using Cons.prems(2) \<open>r_end (snd h) \<le> l\<close> by (intro sum_lengths) (auto intro: in_order_map_filter)
      moreover have "- sum_list (map (\<lambda>t. r_end t - r_start t) (map snd ?R)) \<le> sum_list (map growth ?R)"
        using Cons.prems(3) by (intro sum_growth_ge) (auto simp: in_order_def)
      ultimately show ?thesis by (simp add: offset_at_def)
    qed
    ultimately have "r_end (fst h) \<le> l + (k + growth h + offset_at hs l)"
      using Cons.prems(1) by (simp add: growth_def)
    then show ?thesis using IH True by (auto simp: lines_def add.assoc)
  next
    case False
    have "offset_at hs l = 0" using later False by (intro offset_at_after) force
    moreover have "l + k < r_start (fst h)" using Cons.prems(1) False by simp
    moreover have "\<forall>g\<in>set hs. r_start (fst h) \<le> r_start (fst g)"
      using Cons.prems(3) by force
    ultimately have "l + k \<notin> covered (map fst (h # hs))"
      by (force simp: covered_def lines_def)
    with \<open>offset_at hs l = 0\<close> show ?thesis using False by simp
  qed
qed simp

section \<open>The properties\<close>

text \<open>
  C35: Whatever the ranges the user gave and however \<^verbatim>\<open>qsort\<close> orders equal ones,
  \<^verbatim>\<open>sort_and_merge_range_set\<close> leaves sorted, nonempty ranges with a gap between any two, which
  cover the same lines; its assertions hold.
\<close>

theorem sort_and_merge_range_set_correct:
  assumes "sorts qsort" "\<forall>r\<in>set rs. r_start r \<le> r_end r"
  shows "\<exists>rs'. sort_and_merge_range_set qsort rs = Some rs' \<and> range_set_check_invariants rs' \<and>
    covered rs' = covered rs"
  using sort_and_merge_ok [OF assms] by (simp add: check_invariants_iff)

lemma sorts_sort_key: "sorts (sort_key r_start)"
proof -
  have "sorted_wrt (\<lambda>r s. range_cmp r s \<le> 0) (sort_key r_start rs)" for rs
  proof (rule sorted_wrt_mono_rel)
    show "sorted_wrt (\<lambda>r s. r_start r \<le> r_start s) (sort_key r_start rs)"
      using sorted_sort_key [of r_start rs] by (simp only: sorted_map)
  qed (simp add: range_cmp_def)
  then show ?thesis by (simp add: sorts_def)
qed

theorem sort_and_merge_range_set_correct_witness:
  "\<exists>rs'. sort_and_merge_range_set (sort_key r_start) [mk_range 5 7, mk_range 1 3, mk_range 3 4, mk_range 9 9] =
      Some rs' \<and> range_set_check_invariants rs' \<and> covered rs' = {1, 2, 3, 5, 6}"
proof -
  have "covered [mk_range 5 7, mk_range 1 3, mk_range 3 4, mk_range 9 9] = {1, 2, 3, 5, 6}"
    by auto
  then show ?thesis
    using sort_and_merge_range_set_correct [OF sorts_sort_key,
        of "[mk_range 5 7, mk_range 1 3, mk_range 3 4, mk_range 9 9]"] by auto
qed

text \<open>
  C36: For range sets in order, \<^verbatim>\<open>range_set_union\<close> and \<^verbatim>\<open>range_set_difference\<close> compute the union and
  the difference of the lines, the union in canonical form, the difference as nonempty ranges in
  order, and no assertion of \<^verbatim>\<open>range_set_append\<close> fails.
\<close>

theorem range_set_union_difference:
  assumes "in_order a" "in_order b"
  shows "\<exists>u d. range_set_union [] a b = Some u \<and> range_set_check_invariants u \<and>
    covered u = covered a \<union> covered b \<and>
    range_set_difference [] a b = Some d \<and> in_order d \<and> (\<forall>r\<in>set d. r_start r < r_end r) \<and>
    covered d = covered a - covered b"
proof -
  have "canonical (union_loop a b []) \<and> covered (union_loop a b []) = covered [] \<union> covered a \<union> covered b"
    by (rule union_loop_ok) (use assms in \<open>auto intro: in_order_by_start\<close>)
  then show ?thesis
    using range_set_difference_ok [OF assms]
    by (auto simp: range_set_union_def check_invariants_iff remainders_def)
qed

theorem range_set_union_difference_witness:
  "\<exists>d. range_set_difference [] [mk_range 1 5, mk_range 8 9] [mk_range 2 3, mk_range 4 4] = Some d \<and>
     covered d = {1, 3, 4, 8}"
proof -
  have "covered [mk_range 1 5, mk_range 8 9] - covered [mk_range 2 3, mk_range 4 4] = {1, 3, 4, 8}"
    by auto
  then show ?thesis
    using range_set_union_difference [of "[mk_range 1 5, mk_range 8 9]" "[mk_range 2 3, mk_range 4 4]"]
    by auto
qed

text \<open>
  C34: Mapping a range set across a diff to the parent: the lines the diff did not add are carried
  to the parent's lines they pair with, which lie outside the parent's side of every hunk, and
  the hunks that reach into a range contribute their parent's side; the result is canonical, the
  hunks reported are exactly the ones touched, and no assertion fails.
\<close>

theorem range_set_map_across_diff_correct:
  assumes "diff_wf d" "aligned (hunks d) 0" "range_set_check_invariants rs" "rs \<noteq> []"
  defines "common \<equiv> covered rs - covered (target d)"
    and "to_parent \<equiv> \<lambda>l. l + offset_at (hunks d) l"
    and "touched \<equiv> filter (\<lambda>h. \<exists>r\<in>set rs. ranges_overlap (snd h) r) (hunks d)"
  shows "to_parent ` common \<inter> covered (parent d) = {} \<and>
    (\<exists>out. range_set_map_across_diff [] rs d =
        Some (out, \<lparr>parent = map fst touched, target = map snd touched\<rparr>) \<and>
      range_set_check_invariants out \<and>
      covered out = to_parent ` common \<union> covered (map fst touched))"
proof -
  have fs: "map fst (hunks d) = parent d" "map snd (hunks d) = target d"
    using assms(1) by (simp_all add: hunks_def diff_wf_def)
  have "to_parent l \<notin> covered (parent d)" if "l \<in> common" for l
    using aligned_starts [OF assms(2), of l] assms(1) that
    by (simp add: fs diff_wf_def common_def to_parent_def)
  moreover have "touched_hunks rs d = touched"
    by (simp add: touched_hunks_def touched_def touches_def)
  ultimately show ?thesis
    using map_across_ok [OF assms(1) _ assms(4)] assms(3)
    unfolding common_def to_parent_def check_invariants_iff by auto
qed

theorem range_set_map_across_diff_correct_witness:
  "\<exists>out. range_set_map_across_diff [] [mk_range 2 6]
      \<lparr>parent = [mk_range 1 3, mk_range 6 6], target = [mk_range 1 1, mk_range 4 5]\<rparr> =
      Some (out, \<lparr>parent = [mk_range 6 6], target = [mk_range 4 5]\<rparr>) \<and> covered out = {4, 5, 6}"
proof -
  have c: "covered [mk_range 2 6] - covered [mk_range 1 1, mk_range 4 5] = {2, 3, 5}" by auto
  show ?thesis
    using range_set_map_across_diff_correct [of
        "\<lparr>parent = [mk_range 1 3, mk_range 6 6], target = [mk_range 1 1, mk_range 4 5]\<rparr>" "[mk_range 2 6]"]
    unfolding diff_ranges.simps c
    by (auto simp: diff_wf_def hunks_def growth_def check_invariants_iff ranges_overlap_def)
qed

end
