(* ===== verification/Merge_Sort.thy ===== *)
theory Merge_Sort
  imports Prelude "HOL-Library.Multiset"
begin

text \<open>
  The two stable merge sorts: of arrays, \<^verbatim>\<open>stable-qsort.c\<close>, behind \<^verbatim>\<open>STABLE_QSORT\<close>, and of linked
  lists, \<^verbatim>\<open>mergesort.h\<close>.  Both implement the interface \<open>stable_sorter\<close>.
\<close>

section \<open>Arrays\<close>

definition st_mult :: "nat \<Rightarrow> nat \<Rightarrow> nat option" where
  "st_mult a b = (if a \<noteq> 0 \<and> b > (2 ^ 64 - 1) div a then None else Some (a * b))"

text \<open>
  The merging loop: \<open>i\<close> and \<open>j\<close> are \<^verbatim>\<open>b1\<close> and \<^verbatim>\<open>b2\<close> as indices of the array, \<open>t\<close> is what has been
  written to the temporary memory.
\<close>

fun msort_merge :: "('a \<Rightarrow> 'a \<Rightarrow> int) \<Rightarrow> 'a list \<Rightarrow> nat \<Rightarrow> nat \<Rightarrow> nat \<Rightarrow> nat \<Rightarrow> 'a list \<Rightarrow> nat \<times> nat \<times> nat \<times> 'a list" where
  "msort_merge compar b i n1 j n2 t =
     (if n1 > 0 \<and> n2 > 0 then
        if compar (b ! i) (b ! j) \<le> 0 then msort_merge compar b (i + 1) (n1 - 1) j n2 (t @ [b ! i])
        else msort_merge compar b i n1 (j + 1) (n2 - 1) (t @ [b ! j])
      else (i, n1, n2, t))"

declare msort_merge.simps [simp del]

function msort_with_tmp :: "('a \<Rightarrow> 'a \<Rightarrow> int) \<Rightarrow> 'a list \<Rightarrow> 'a list" where
  "msort_with_tmp compar b =
     (let n = length b in
      if n \<le> 1 then b
      else
        let n1 = n div 2; n2 = n - n1;
            b = msort_with_tmp compar (take n1 b) @ msort_with_tmp compar (drop n1 b);
            (i, n1, n2, t) = msort_merge compar b 0 n1 n1 n2 [];
            t = (if n1 > 0 then t @ take n1 (drop i b) else t)
        in take (n - n2) t @ drop (n - n2) b)"
  by auto
termination by (relation "measure (length \<circ> snd)") auto

declare msort_with_tmp.simps [simp del]

text \<open>\<open>s\<close> is the size of an element; \<open>None\<close> is the \<^verbatim>\<open>die\<close> of \<^verbatim>\<open>st_mult\<close>.\<close>

definition git_stable_qsort :: "nat \<Rightarrow> ('a \<Rightarrow> 'a \<Rightarrow> int) \<Rightarrow> 'a list \<Rightarrow> 'a list option" where
  "git_stable_qsort s compar b =
     (case st_mult (length b) s of None \<Rightarrow> None | Some n \<Rightarrow> Some (msort_with_tmp compar b))"

section \<open>Linked lists\<close>

text \<open>
  \<open>acc\<close> is the merged list up to \<^verbatim>\<open>tail\<close>; an empty list is the null pointer, and \<open>None\<close> its
  dereference.
\<close>

function list_merge_loop :: "('a \<Rightarrow> 'a \<Rightarrow> int) \<Rightarrow> int \<Rightarrow> 'a list \<Rightarrow> 'a list \<Rightarrow> 'a list \<Rightarrow> 'a list option" where
  "list_merge_loop compare_fn prefer_list list other acc =
     (case list of
        [] \<Rightarrow> None
      | tail # list \<Rightarrow>
          (case (list, other) of
             ([], _) \<Rightarrow> Some (acc @ tail # other)
           | (_, []) \<Rightarrow> None
           | (x # _, y # _) \<Rightarrow>
               if compare_fn x y < prefer_list then list_merge_loop compare_fn prefer_list list other (acc @ [tail])
               else list_merge_loop compare_fn (1 - prefer_list) other list (acc @ [tail])))"
  by pat_completeness auto
termination by (relation "measure (\<lambda>(c, p, l, r, a). length l + length r)") (auto split: list.splits)

declare list_merge_loop.simps [simp del]

definition list_merge :: "('a \<Rightarrow> 'a \<Rightarrow> int) \<Rightarrow> 'a list \<Rightarrow> 'a list \<Rightarrow> 'a list option" where
  "list_merge compare_fn list other =
     (case (list, other) of
        (x # _, y # _) \<Rightarrow>
          if compare_fn x y \<le> 0 then list_merge_loop compare_fn 1 list other []
          else list_merge_loop compare_fn 0 other list []
      | _ \<Rightarrow> None)"

text \<open>
  The array \<^verbatim>\<open>ranks\<close> has an entry per bit of a pointer, the ones that have not been written
  undefined.  The inner loop either finds the free rank of the incoming list, \<open>Inl\<close>, or, when the
  input is exhausted, merges all ranks, \<open>Inr\<close>.
\<close>

function rank_loop :: "('a \<Rightarrow> 'a \<Rightarrow> int) \<Rightarrow> (nat \<Rightarrow> 'a list option) \<Rightarrow> bool \<Rightarrow> nat \<Rightarrow> nat \<Rightarrow> 'a list \<Rightarrow>
    (nat \<times> 'a list + 'a list) option" where
  "rank_loop compare_fn ranks more i m list =
     (if odd m then
        if i < 64 then
          (case ranks i of
             None \<Rightarrow> None
           | Some rank \<Rightarrow>
               (case list_merge compare_fn rank list of
                  None \<Rightarrow> None
                | Some list \<Rightarrow> rank_loop compare_fn ranks more (i + 1) (m div 2) list))
        else None
      else if more then Some (Inl (i, list))
      else if m = 0 then Some (Inr list)
      else rank_loop compare_fn ranks more (i + 1) (m div 2) list)"
  by auto
termination
  by (relation "measure (\<lambda>(c, r, b, i, m, l). m)") (auto elim: oddE)

declare rank_loop.simps [simp del]

fun list_sort_loop :: "('a \<Rightarrow> 'a \<Rightarrow> int) \<Rightarrow> (nat \<Rightarrow> 'a list option) \<Rightarrow> nat \<Rightarrow> 'a list \<Rightarrow> 'a list option" where
  "list_sort_loop compare_fn ranks n [] = None"
| "list_sort_loop compare_fn ranks n (x # next) =
     (case rank_loop compare_fn ranks (next \<noteq> []) 0 n [x] of
        None \<Rightarrow> None
      | Some (Inr list) \<Rightarrow> Some list
      | Some (Inl (i, list)) \<Rightarrow>
          if i < 64 then list_sort_loop compare_fn (ranks(i := Some list)) (n + 1) next else None)"

definition list_sort :: "('a \<Rightarrow> 'a \<Rightarrow> int) \<Rightarrow> 'a list \<Rightarrow> 'a list option" where
  "list_sort compare_fn list = (if list = [] then Some [] else list_sort_loop compare_fn Map.empty 0 list)"

section \<open>Stable sorting\<close>

text \<open>
  What a comparison function has to be on the elements \<open>A\<close>, and what a stable sort of them is:
  elements that compare equal keep their order.
\<close>

definition comparison :: "('a \<Rightarrow> 'a \<Rightarrow> int) \<Rightarrow> 'a set \<Rightarrow> bool" where
  "comparison f A \<longleftrightarrow> (\<forall>a\<in>A. \<forall>b\<in>A. 0 < f a b \<longleftrightarrow> f b a < 0) \<and>
     (\<forall>a\<in>A. \<forall>b\<in>A. \<forall>c\<in>A. f a b \<le> 0 \<longrightarrow> f b c \<le> 0 \<longrightarrow> f a c \<le> 0)"

definition stable_sorted :: "('a \<Rightarrow> 'a \<Rightarrow> int) \<Rightarrow> 'a list \<Rightarrow> 'a list \<Rightarrow> bool" where
  "stable_sorted f xs ys \<longleftrightarrow> sorted_wrt (\<lambda>a b. f a b \<le> 0) ys \<and> mset ys = mset xs \<and>
     (\<forall>a\<in>set xs. filter (\<lambda>b. f a b = 0) ys = filter (\<lambda>b. f a b = 0) xs)"

lemma comparison_subset: "comparison f A \<Longrightarrow> B \<subseteq> A \<Longrightarrow> comparison f B"
  unfolding comparison_def by blast

lemma comparison_total: "comparison f A \<Longrightarrow> a \<in> A \<Longrightarrow> b \<in> A \<Longrightarrow> \<not> f a b \<le> 0 \<longleftrightarrow> f b a < 0"
  unfolding comparison_def by (meson linorder_not_le)

lemma comparison_refl: "comparison f A \<Longrightarrow> a \<in> A \<Longrightarrow> f a a = 0"
  using comparison_total [of f A a a] by linarith

lemma comparison_trans:
  "comparison f A \<Longrightarrow> a \<in> A \<Longrightarrow> b \<in> A \<Longrightarrow> c \<in> A \<Longrightarrow> f a b \<le> 0 \<Longrightarrow> f b c \<le> 0 \<Longrightarrow> f a c \<le> 0"
  unfolding comparison_def by blast

lemma comparison_equal: "comparison f A \<Longrightarrow> a \<in> A \<Longrightarrow> b \<in> A \<Longrightarrow> f a b = 0 \<longleftrightarrow> f a b \<le> 0 \<and> f b a \<le> 0"
  using comparison_total [of f A a b] comparison_total [of f A b a] by linarith

lemma stable_sorted_set: "stable_sorted f xs ys \<Longrightarrow> set ys = set xs"
  unfolding stable_sorted_def by (metis set_mset_mset)

lemma stable_sorted_length: "stable_sorted f xs ys \<Longrightarrow> length ys = length xs"
  unfolding stable_sorted_def by (metis size_mset)

lemma stable_sorted_single: "comparison f {x} \<Longrightarrow> stable_sorted f [x] [x]"
  by (simp add: stable_sorted_def)

fun merge_lists :: "('a \<Rightarrow> 'a \<Rightarrow> int) \<Rightarrow> 'a list \<Rightarrow> 'a list \<Rightarrow> 'a list" where
  "merge_lists f (x # xs) (y # ys) =
     (if f x y \<le> 0 then x # merge_lists f xs (y # ys) else y # merge_lists f (x # xs) ys)"
| "merge_lists f xs [] = xs"
| "merge_lists f [] ys = ys"

lemma merge_lists_Nil [simp]: "merge_lists f [] ys = ys" "merge_lists f xs [] = xs"
  by (cases ys; simp) (cases xs; simp)

lemma mset_merge_lists [simp]: "mset (merge_lists f xs ys) = mset xs + mset ys"
  by (induction f xs ys rule: merge_lists.induct) auto

lemma set_merge_lists [simp]: "set (merge_lists f xs ys) = set xs \<union> set ys"
  using mset_merge_lists [of f xs ys] by (metis set_mset_mset set_mset_union)

lemma sorted_merge_lists:
  assumes "comparison f (set xs \<union> set ys)" "sorted_wrt (\<lambda>a b. f a b \<le> 0) xs" "sorted_wrt (\<lambda>a b. f a b \<le> 0) ys"
  shows "sorted_wrt (\<lambda>a b. f a b \<le> 0) (merge_lists f xs ys)"
  using assms
proof (induction f xs ys rule: merge_lists.induct)
  case (1 f x xs y ys)
  note c = "1.prems"(1)
  show ?case
  proof (cases "f x y \<le> 0")
    case True
    then have "f x z \<le> 0" if "z \<in> set ys" for z
      using comparison_trans [OF c, of x y z] "1.prems"(3) that by auto
    then show ?thesis
      using 1 True comparison_subset [OF c, of "set xs \<union> set (y # ys)"] by auto
  next
    case False
    then have yx: "f y x \<le> 0" using comparison_total [OF c, of x y] by simp
    then have "f y z \<le> 0" if "z \<in> set xs" for z
      using comparison_trans [OF c, of y x z] "1.prems"(2) that by auto
    then show ?thesis
      using 1 False yx comparison_subset [OF c, of "set (x # xs) \<union> set ys"] by auto
  qed
qed auto

lemma filter_merge_lists:
  assumes "comparison f A" "set xs \<union> set ys \<subseteq> A" "a \<in> A" "sorted_wrt (\<lambda>a b. f a b \<le> 0) xs"
  shows "filter (\<lambda>b. f a b = 0) (merge_lists f xs ys) = filter (\<lambda>b. f a b = 0) xs @ filter (\<lambda>b. f a b = 0) ys"
  using assms
proof (induction f xs ys rule: merge_lists.induct)
  case (1 f x xs y ys)
  note c = "1.prems"(1)
  show ?case
  proof (cases "f x y \<le> 0")
    case True
    then show ?thesis using "1.IH"(1) "1.prems" by simp
  next
    case False
    have none: "filter (\<lambda>b. f a b = 0) (x # xs) = []" if ay: "f a y = 0"
    proof -
      have "f a z \<noteq> 0" if z: "z \<in> set (x # xs)" for z
      proof
        have m: "x \<in> A" "y \<in> A" "z \<in> A" "a \<in> A" using "1.prems"(2,3) z by auto
        assume "f a z = 0"
        then have "f z a \<le> 0" using comparison_equal [OF c m(4,3)] by simp
        moreover have "f x z \<le> 0" using "1.prems"(4) z comparison_refl [OF c m(1)] by auto
        ultimately have "f x a \<le> 0" using comparison_trans [OF c m(1,3,4)] by simp
        then show False using comparison_trans [OF c m(1,4,2)] ay False by simp
      qed
      then show ?thesis by (simp only: filter_empty_conv) blast
    qed
    have "filter (\<lambda>b. f a b = 0) (merge_lists f (x # xs) ys) =
        filter (\<lambda>b. f a b = 0) (x # xs) @ filter (\<lambda>b. f a b = 0) ys"
      using "1.IH"(2) "1.prems" False by simp
    then show ?thesis using none False by (cases "f a y = 0") simp_all
  qed
qed auto

lemma stable_sorted_merge_lists:
  assumes "comparison f (set xs \<union> set ys)" "stable_sorted f xs xs'" "stable_sorted f ys ys'"
  shows "stable_sorted f (xs @ ys) (merge_lists f xs' ys')"
proof -
  have s: "set xs' = set xs" "set ys' = set ys" using assms(2,3) by (simp_all add: stable_sorted_set)
  have other: "filter (\<lambda>b. f a b = 0) zs' = filter (\<lambda>b. f a b = 0) zs"
    if "stable_sorted f zs zs'" "set zs \<subseteq> set xs \<union> set ys" "a \<in> set xs \<union> set ys" for a zs zs'
  proof (cases "\<exists>z\<in>set zs. f a z = 0")
    case True
    then obtain z where z: "z \<in> set zs" "f a z = 0" by blast
    note c = assms(1)
    have za: "f a b = 0 \<longleftrightarrow> f z b = 0" if b: "b \<in> set zs" for b
    proof -
      have m: "a \<in> set xs \<union> set ys" "z \<in> set xs \<union> set ys" "b \<in> set xs \<union> set ys"
        using that \<open>a \<in> set xs \<union> set ys\<close> z(1) \<open>set zs \<subseteq> set xs \<union> set ys\<close> b by auto
      show ?thesis
        using comparison_equal [OF c m(1,2)] comparison_equal [OF c m(1,3)] comparison_equal [OF c m(2,3)] z(2)
          comparison_trans [OF c] m by metis
    qed
    have zs': "set zs' = set zs" using that(1) by (rule stable_sorted_set)
    have "filter (\<lambda>b. f a b = 0) zs' = filter (\<lambda>b. f z b = 0) zs'"
      using za zs' by (intro filter_cong) auto
    also have "\<dots> = filter (\<lambda>b. f z b = 0) zs" using that(1) z(1) by (simp add: stable_sorted_def)
    also have "\<dots> = filter (\<lambda>b. f a b = 0) zs" using za by (intro filter_cong) auto
    finally show ?thesis .
  next
    case False
    moreover have "set zs' = set zs" using that(1) by (rule stable_sorted_set)
    ultimately have "filter (\<lambda>b. f a b = 0) zs' = []" "filter (\<lambda>b. f a b = 0) zs = []"
      by (auto simp: filter_empty_conv)
    then show ?thesis by simp
  qed
  have "filter (\<lambda>b. f a b = 0) (merge_lists f xs' ys') = filter (\<lambda>b. f a b = 0) (xs @ ys)"
    if "a \<in> set (xs @ ys)" for a
    using filter_merge_lists [OF assms(1), of xs' ys' a] assms(2) s that other [OF assms(2)] other [OF assms(3)]
    by (simp add: stable_sorted_def)
  then show ?thesis
    using sorted_merge_lists [of f xs' ys'] assms s by (auto simp: stable_sorted_def)
qed

lemma sorted_classes_unique:
  assumes "sorted_wrt (\<lambda>a b. f a b \<le> 0) ys" "sorted_wrt (\<lambda>a b. f a b \<le> 0) zs" "mset ys = mset zs"
    "\<forall>a\<in>set ys. filter (\<lambda>b. f a b = 0) ys = filter (\<lambda>b. f a b = 0) zs" "comparison f (set ys)"
  shows "ys = zs"
  using assms
proof (induction ys arbitrary: zs)
  case (Cons y ys)
  obtain z zs' where zs: "zs = z # zs'" using Cons.prems(3) by (cases zs) auto
  have m: "set (z # zs') = set (y # ys)" using Cons.prems(3) zs by (metis set_mset_mset)
  note c = Cons.prems(5)
  have y: "y \<in> set (y # ys)" by simp
  have z: "z \<in> set (y # ys)" using m by (metis list.set_intros(1))
  have "f y z \<le> 0"
    using Cons.prems(1) comparison_refl [OF c y] z by auto
  moreover have "y \<in> set (z # zs')" using m by simp
  then have "f z y \<le> 0"
    using Cons.prems(2) comparison_refl [OF c z] unfolding zs by auto
  ultimately have yz: "f y z = 0" using comparison_equal [OF c y z] by simp
  have "filter (\<lambda>b. f y b = 0) (y # ys) = filter (\<lambda>b. f y b = 0) zs" using Cons.prems(4) by simp
  then have eq: "z = y" using yz comparison_refl [OF c y] zs by simp
  have "filter (\<lambda>b. f a b = 0) ys = filter (\<lambda>b. f a b = 0) zs'" if "a \<in> set ys" for a
  proof -
    have "filter (\<lambda>b. f a b = 0) (y # ys) = filter (\<lambda>b. f a b = 0) (y # zs')"
      using Cons.prems(4) zs eq that by simp
    then show ?thesis by (cases "f a y = 0") simp_all
  qed
  then have "ys = zs'"
    using Cons.IH [of zs'] Cons.prems zs eq comparison_subset [OF c, of "set ys"] by auto
  then show ?case using zs eq by simp
qed simp

lemma stable_sorted_unique:
  assumes "comparison f (set xs)" "stable_sorted f xs ys" "stable_sorted f xs zs"
  shows "ys = zs"
  using assms(2,3) assms(1) stable_sorted_set [OF assms(2)]
  by (intro sorted_classes_unique [of f]) (simp_all add: stable_sorted_def)

section \<open>The array sort\<close>

lemma msort_merge_lists:
  "msort_merge f b i n1 j n2 t = (i', n1', n2', t') \<Longrightarrow> i + n1 \<le> length b \<Longrightarrow> j + n2 = length b \<Longrightarrow>
   \<exists>k l. i' = i + k \<and> n1' = n1 - k \<and> n2' = n2 - l \<and> k \<le> n1 \<and> l \<le> n2 \<and> length t' = length t + k + l \<and>
     t' @ take n1' (drop i' b) @ drop (length b - n2') b =
       t @ merge_lists f (take n1 (drop i b)) (drop j b) \<and>
     (n1' = 0 \<or> n2' = 0)"
proof (induction f b i n1 j n2 t rule: msort_merge.induct)
  case (1 f b i n1 j n2 t)
  show ?case
  proof (cases "n1 > 0 \<and> n2 > 0")
    case False
    then have "i' = i" "n1' = n1" "n2' = n2" "t' = t" "n1 = 0 \<or> n2 = 0"
      using "1.prems"(1) by (auto simp: msort_merge.simps [of f b i n1 j n2 t])
    moreover have "length b - n2 = j" using "1.prems"(3) by simp
    ultimately show ?thesis using "1.prems"(3) by (intro exI [of _ 0]) auto
  next
    case True
    then have i: "take n1 (drop i b) = b ! i # take (n1 - 1) (drop (i + 1) b)"
      using "1.prems"(2) by (cases n1) (simp_all add: Cons_nth_drop_Suc [symmetric])
    have j: "drop j b = b ! j # drop (j + 1) b"
      using True "1.prems"(3) by (simp add: Cons_nth_drop_Suc)
    show ?thesis
    proof (cases "f (b ! i) (b ! j) \<le> 0")
      case le: True
      have "msort_merge f b (i + 1) (n1 - 1) j n2 (t @ [b ! i]) = (i', n1', n2', t')"
        using "1.prems"(1) True le by (simp add: msort_merge.simps [of f b i n1 j n2 t])
      then obtain k l where "i' = i + 1 + k \<and> n1' = n1 - 1 - k \<and> n2' = n2 - l \<and> k \<le> n1 - 1 \<and> l \<le> n2 \<and>
          length t' = length t + 1 + k + l \<and>
          t' @ take n1' (drop i' b) @ drop (length b - n2') b =
            t @ b ! i # merge_lists f (take (n1 - 1) (drop (i + 1) b)) (drop j b) \<and> (n1' = 0 \<or> n2' = 0)"
        using "1.IH"(1) [OF True le] "1.prems"(2,3) True by fastforce
      then show ?thesis using i j le True by (intro exI [of _ "k + 1"] exI [of _ l]) auto
    next
      case gt: False
      have "msort_merge f b i n1 (j + 1) (n2 - 1) (t @ [b ! j]) = (i', n1', n2', t')"
        using "1.prems"(1) True gt by (simp add: msort_merge.simps [of f b i n1 j n2 t])
      then obtain k l where "i' = i + k \<and> n1' = n1 - k \<and> n2' = n2 - 1 - l \<and> k \<le> n1 \<and> l \<le> n2 - 1 \<and>
          length t' = length t + 1 + k + l \<and>
          t' @ take n1' (drop i' b) @ drop (length b - n2') b =
            t @ b ! j # merge_lists f (take n1 (drop i b)) (drop (j + 1) b) \<and> (n1' = 0 \<or> n2' = 0)"
        using "1.IH"(2) [OF True gt] "1.prems"(2,3) True by fastforce
      then show ?thesis using i j gt True by (intro exI [of _ k] exI [of _ "l + 1"]) auto
    qed
  qed
qed

lemma msort_with_tmp_stable:
  "comparison f (set b) \<Longrightarrow> stable_sorted f b (msort_with_tmp f b)"
proof (induction f b rule: msort_with_tmp.induct)
  case (1 f b)
  show ?case
  proof (cases "length b \<le> 1")
    case True
    then show ?thesis by (simp add: msort_with_tmp.simps [of f b] Let_def stable_sorted_def le_Suc_eq length_Suc_conv) auto
  next
    case False
    let ?n1 = "length b div 2"
    let ?n2 = "length b - ?n1"
    let ?x = "msort_with_tmp f (take ?n1 b)" and ?y = "msort_with_tmp f (drop ?n1 b)"
    have x: "stable_sorted f (take ?n1 b) ?x"
      using False "1.prems" by (intro "1.IH"(1)) (auto intro: comparison_subset dest: in_set_takeD)
    have y: "stable_sorted f (drop ?n1 b) ?y"
      using False "1.prems" by (intro "1.IH"(2)) (auto intro: comparison_subset dest: in_set_dropD)
    obtain i' n1' n2' t' where m: "msort_merge f (?x @ ?y) 0 ?n1 ?n1 ?n2 [] = (i', n1', n2', t')"
      by (metis prod_cases4)
    have lx: "length ?x = ?n1" "length ?y = ?n2" using stable_sorted_length [OF x] stable_sorted_length [OF y] by simp_all
    have pre: "0 + ?n1 \<le> length (?x @ ?y)" "?n1 + ?n2 = length (?x @ ?y)" using lx by simp_all
    have halves: "take ?n1 (drop 0 (?x @ ?y)) = ?x" "drop ?n1 (?x @ ?y) = ?y" using lx(1) by simp_all
    obtain k l where kl: "i' = 0 + k" "n1' = ?n1 - k" "n2' = ?n2 - l" "k \<le> ?n1" "l \<le> ?n2"
      "length t' = length ([] :: 'a list) + k + l"
      "t' @ take n1' (drop i' (?x @ ?y)) @ drop (length (?x @ ?y) - n2') (?x @ ?y) = [] @ merge_lists f ?x ?y"
      using msort_merge_lists [OF m pre] unfolding halves by blast
    have "msort_with_tmp f b = merge_lists f ?x ?y"
    proof -
      let ?t = "if n1' > 0 then t' @ take n1' (drop i' (?x @ ?y)) else t'"
      have t: "?t = t' @ take n1' (drop i' (?x @ ?y))" by simp
      have "k + n1' + l = length b - n2'" using kl(2-5) False by linarith
      moreover have "length (take n1' (drop i' (?x @ ?y))) = n1'" using kl(1-4) lx by simp
      ultimately have len: "length ?t = length b - n2'" unfolding t using kl(6) by simp
      have "take (length b - n2') ?t = t' @ take n1' (drop i' (?x @ ?y))"
        unfolding len [symmetric] t by (rule take_all) (rule order_refl)
      moreover have "length (?x @ ?y) = length b" using lx by simp
      ultimately have "take (length b - n2') ?t @ drop (length b - n2') (?x @ ?y) = merge_lists f ?x ?y"
        using kl(7) by (simp only: append_assoc append_Nil)
      then show ?thesis
        unfolding msort_with_tmp.simps [of f b] Let_def by (simp only: False m prod.case if_False)
    qed
    moreover have "set (take ?n1 b) \<union> set (drop ?n1 b) = set b"
      by (metis append_take_drop_id set_append)
    ultimately show ?thesis
      using stable_sorted_merge_lists [OF _ x y] "1.prems" by simp
  qed
qed

lemma git_stable_qsort_stable:
  assumes "comparison f (set b)" "length b * s < 2 ^ 64"
  shows "\<exists>ys. git_stable_qsort s f b = Some ys \<and> stable_sorted f b ys"
proof -
  have "s \<le> (2 ^ 64 - 1) div length b" if "b \<noteq> []"
  proof -
    have "s * length b \<le> 2 ^ 64 - 1" using assms(2) by (simp add: mult.commute)
    then show ?thesis using that by (subst less_eq_div_iff_mult_less_eq) simp_all
  qed
  then have "st_mult (length b) s \<noteq> None" by (auto simp: st_mult_def)
  then show ?thesis using msort_with_tmp_stable [OF assms(1)] by (auto simp: git_stable_qsort_def)
qed

section \<open>The list sort\<close>

lemma list_merge_loop_lists:
  assumes "comparison f (set list \<union> set other)" "list \<noteq> []" "other \<noteq> []"
  shows "(f (hd list) (hd other) \<le> 0 \<longrightarrow>
      list_merge_loop f 1 list other acc = Some (acc @ merge_lists f list other)) \<and>
    (f (hd list) (hd other) < 0 \<longrightarrow>
      list_merge_loop f 0 list other acc = Some (acc @ merge_lists f other list))"
  using assms
proof (induction "length list + length other" arbitrary: list other acc rule: less_induct)
  case less
  obtain x xs y ys where l: "list = x # xs" "other = y # ys"
    using less.prems(2,3) by (meson neq_Nil_conv)
  note c = less.prems(1)
  have xy: "f x y < 0 \<longrightarrow> \<not> f y x \<le> 0" using comparison_total [OF c, of y x] l by simp
  show ?case
  proof (cases xs)
    case Nil
    then show ?thesis using l xy by (simp add: list_merge_loop.simps)
  next
    case (Cons z zs)
    have step: "list_merge_loop f p list other acc =
        (if f z y < p then list_merge_loop f p xs other (acc @ [x])
         else list_merge_loop f (1 - p) other xs (acc @ [x]))" for p
      using l Cons by (subst list_merge_loop.simps) simp
    have total: "\<not> f z y \<le> 0 \<longleftrightarrow> f y z < 0" "\<not> f y z \<le> 0 \<longleftrightarrow> f z y < 0"
      using comparison_total [OF c] l Cons by simp_all
    have xs: "comparison f (set xs \<union> set other)" "comparison f (set other \<union> set xs)"
      using l by (auto intro: comparison_subset [OF c])
    note same = less.hyps [of xs other "acc @ [x]", OF _ xs(1)]
    note swap = less.hyps [of other xs "acc @ [x]", OF _ xs(2)]
    show ?thesis
    proof (intro conjI impI)
      assume "f (hd list) (hd other) \<le> 0"
      then have "merge_lists f list other = x # merge_lists f xs other" using l by simp
      then show "list_merge_loop f 1 list other acc = Some (acc @ merge_lists f list other)"
        unfolding step using same swap total l Cons by (cases "f z y \<le> 0") simp_all
    next
      assume "f (hd list) (hd other) < 0"
      then have "merge_lists f other list = x # merge_lists f other xs" using l xy by simp
      then show "list_merge_loop f 0 list other acc = Some (acc @ merge_lists f other list)"
        unfolding step using same swap total l Cons by (cases "f z y < 0") simp_all
    qed
  qed
qed

lemma list_merge_lists:
  assumes "comparison f (set list \<union> set other)" "list \<noteq> []" "other \<noteq> []"
  shows "list_merge f list other = Some (merge_lists f list other)"
proof -
  obtain x xs y ys where l: "list = x # xs" "other = y # ys"
    using assms(2,3) by (meson neq_Nil_conv)
  have "f x y \<le> 0 \<or> f y x < 0" using comparison_total [OF assms(1), of x y] l by auto
  moreover have "f y x < 0 \<longrightarrow> \<not> f x y \<le> 0" using comparison_total [OF assms(1), of x y] l by auto
  moreover have "comparison f (set other \<union> set list)" using assms(1) by (simp add: Un_commute)
  ultimately show ?thesis
    using list_merge_loop_lists [of f list other "[]"] list_merge_loop_lists [of f other list "[]"] assms(1) l
    by (cases "f x y \<le> 0") (simp_all add: list_merge_def)
qed

text \<open>The ranks from \<open>i\<close> on, for the bits of \<open>m\<close>, hold the sorted pieces of the list \<open>p\<close>, the last in the lowest.\<close>

fun ranks_hold :: "('a \<Rightarrow> 'a \<Rightarrow> int) \<Rightarrow> (nat \<Rightarrow> 'a list option) \<Rightarrow> nat \<Rightarrow> nat \<Rightarrow> 'a list \<Rightarrow> bool" where
  "ranks_hold f ranks i m p \<longleftrightarrow>
     (if m = 0 then p = []
      else if odd m then \<exists>p1 p2 r. p = p1 @ p2 \<and> ranks i = Some r \<and> r \<noteq> [] \<and> stable_sorted f p2 r \<and>
        ranks_hold f ranks (i + 1) (m div 2) p1
      else ranks_hold f ranks (i + 1) (m div 2) p)"

declare ranks_hold.simps [simp del]

lemma ranks_hold_upd: "j < i \<Longrightarrow> ranks_hold f (ranks(j := x)) i m p \<longleftrightarrow> ranks_hold f ranks i m p"
  by (induction f ranks i m p rule: ranks_hold.induct)
    (subst (1 2) ranks_hold.simps, auto)

lemma merge_into_rank:
  assumes "comparison f (set p \<union> set q)" "stable_sorted f p r" "r \<noteq> []" "stable_sorted f q l" "l \<noteq> []"
  shows "\<exists>l'. list_merge f r l = Some l' \<and> l' \<noteq> [] \<and> stable_sorted f (p @ q) l'"
proof -
  have "comparison f (set r \<union> set l)" using assms by (simp add: stable_sorted_set)
  then have "list_merge f r l = Some (merge_lists f r l)" using assms(3,5) by (rule list_merge_lists)
  moreover have "set (merge_lists f r l) \<noteq> {}" using assms(3) by simp
  then have "merge_lists f r l \<noteq> []" by fastforce
  ultimately show ?thesis using stable_sorted_merge_lists [OF assms(1,2,4)] by simp
qed

lemma rank_loop_more:
  "ranks_hold f ranks i m p \<Longrightarrow> stable_sorted f q l \<Longrightarrow> l \<noteq> [] \<Longrightarrow> comparison f (set p \<union> set q) \<Longrightarrow>
   (m + 1) * 2 ^ i < 2 ^ 64 \<Longrightarrow>
   \<exists>j l'. rank_loop f ranks True i m l = Some (Inl (j, l')) \<and> i \<le> j \<and> j < 64 \<and>
     ranks_hold f (ranks(j := Some l')) i (m + 1) (p @ q)"
proof (induction m arbitrary: i p q l rule: less_induct)
  case (less m)
  have "2 ^ i \<le> (m + 1) * 2 ^ i" by simp
  then have "(2::nat) ^ i < 2 ^ 64" using less.prems(5) by linarith
  then have i: "i < 64" by (simp only: power_strict_increasing_iff)
  show ?case
  proof (cases "odd m")
    case False
    have "ranks_hold f ranks (i + 1) (m div 2) p"
      using less.prems(1) False by (cases "m = 0") (simp_all add: ranks_hold.simps [of f ranks _ m] ranks_hold.simps [of f ranks _ 0])
    then have "ranks_hold f (ranks(i := Some l)) (i + 1) (m div 2) p" by (simp add: ranks_hold_upd)
    moreover have "odd (m + 1)" "(m + 1) div 2 = m div 2" using False by simp_all
    ultimately have "ranks_hold f (ranks(i := Some l)) i (m + 1) (p @ q)"
      using less.prems(2,3) by (subst ranks_hold.simps) auto
    moreover have "rank_loop f ranks True i m l = Some (Inl (i, l))"
      using False by (subst rank_loop.simps) simp
    ultimately show ?thesis using i by blast
  next
    case True
    then obtain p1 p2 r where r: "p = p1 @ p2" "ranks i = Some r" "r \<noteq> []" "stable_sorted f p2 r"
      "ranks_hold f ranks (i + 1) (m div 2) p1"
      using less.prems(1) by (subst (asm) ranks_hold.simps) (auto split: if_splits)
    obtain l' where l': "list_merge f r l = Some l'" "l' \<noteq> []" "stable_sorted f (p2 @ q) l'"
      using merge_into_rank [OF _ r(4,3) less.prems(2,3)] less.prems(4) r(1)
        comparison_subset [OF less.prems(4), of "set p2 \<union> set q"] by auto
    have m: "m div 2 < m" "m + 1 = 2 * (m div 2 + 1)" using True by (auto elim: oddE)
    have "(m div 2 + 1) * 2 ^ (i + 1) < (2::nat) ^ 64"
      using less.prems(5) unfolding m(2) power_add by (simp only: ac_simps power_one_right)
    moreover have "comparison f (set p1 \<union> set (p2 @ q))" using less.prems(4) r(1) by (simp add: Un_assoc)
    ultimately obtain j l'' where j: "rank_loop f ranks True (i + 1) (m div 2) l' = Some (Inl (j, l''))"
      "i + 1 \<le> j" "j < 64" "ranks_hold f (ranks(j := Some l'')) (i + 1) (m div 2 + 1) (p1 @ p2 @ q)"
      using less.IH [OF m(1) r(5) l'(3,2)] by blast
    have "rank_loop f ranks True i m l = Some (Inl (j, l''))"
      using True i r(2) l'(1) j(1) by (subst rank_loop.simps) simp
    moreover have "(m + 1) div 2 = m div 2 + 1" "even (m + 1)" "m + 1 \<noteq> 0" using m(2) True by auto
    then have "ranks_hold f (ranks(j := Some l'')) i (m + 1) (p @ q)"
      using j(4) r(1) unfolding ranks_hold.simps [of f _ i "m + 1"] by (simp only: if_False simp_thms append_assoc)
    ultimately show ?thesis using j(2,3) by (intro exI [of _ j] exI [of _ l'']) (simp del: fun_upd_apply add: fun_upd_def [symmetric])
  qed
qed

lemma rank_loop_last:
  "ranks_hold f ranks i m p \<Longrightarrow> stable_sorted f q l \<Longrightarrow> l \<noteq> [] \<Longrightarrow> comparison f (set p \<union> set q) \<Longrightarrow>
   m * 2 ^ i < 2 ^ 64 \<Longrightarrow>
   \<exists>l'. rank_loop f ranks False i m l = Some (Inr l') \<and> stable_sorted f (p @ q) l'"
proof (induction m arbitrary: i p q l rule: less_induct)
  case (less m)
  consider "m = 0" | "even m" "0 < m" | "odd m" by blast
  then show ?case
  proof cases
    case 1
    then have "p = []" using less.prems(1) by (simp add: ranks_hold.simps)
    then show ?thesis using 1 less.prems(2) by (simp add: rank_loop.simps)
  next
    case 2
    have "ranks_hold f ranks (i + 1) (m div 2) p" using 2 less.prems(1) by (simp add: ranks_hold.simps [of f ranks i])
    moreover have "m div 2 < m" "m div 2 * 2 ^ (i + 1) < (2::nat) ^ 64"
      using 2 less.prems(5) by (auto elim!: evenE simp: algebra_simps)
    ultimately show ?thesis
      using less.IH [of "m div 2" "i + 1" p q l] less.prems(2-4) 2 by (subst rank_loop.simps) simp
  next
    case 3
    have "2 ^ i \<le> m * 2 ^ i" using 3 by (cases m) simp_all
    then have "(2::nat) ^ i < 2 ^ 64" using less.prems(5) by linarith
    then have i: "i < 64" by (simp only: power_strict_increasing_iff)
    obtain p1 p2 r where r: "p = p1 @ p2" "ranks i = Some r" "r \<noteq> []" "stable_sorted f p2 r"
      "ranks_hold f ranks (i + 1) (m div 2) p1"
      using 3 less.prems(1) by (subst (asm) ranks_hold.simps) (auto split: if_splits)
    obtain l' where l': "list_merge f r l = Some l'" "l' \<noteq> []" "stable_sorted f (p2 @ q) l'"
      using merge_into_rank [OF _ r(4,3) less.prems(2,3)] less.prems(4) r(1)
        comparison_subset [OF less.prems(4), of "set p2 \<union> set q"] by auto
    have "m div 2 * 2 \<le> m" "m div 2 < m" using 3 by (auto elim: oddE)
    then have "m div 2 < m" "m div 2 * 2 ^ (i + 1) < (2::nat) ^ 64"
      using le_less_trans [OF mult_le_mono1 [of "m div 2 * 2" m "2 ^ i"] less.prems(5)]
      by (simp_all add: mult.assoc)
    moreover have "comparison f (set p1 \<union> set (p2 @ q))" using less.prems(4) r(1) by (simp add: Un_assoc)
    ultimately show ?thesis
      using less.IH [of "m div 2" "i + 1" p1 "p2 @ q" l'] r l' 3 i by (subst rank_loop.simps) simp
  qed
qed

lemma list_sort_loop_stable:
  "ranks_hold f ranks 0 n p \<Longrightarrow> xs \<noteq> [] \<Longrightarrow> comparison f (set p \<union> set xs) \<Longrightarrow> n + length xs < 2 ^ 64 \<Longrightarrow>
   \<exists>ys. list_sort_loop f ranks n xs = Some ys \<and> stable_sorted f (p @ xs) ys"
proof (induction xs arbitrary: ranks n p)
  case (Cons x xs)
  have "comparison f {x}" using Cons.prems(3) by (rule comparison_subset) simp
  then have x: "stable_sorted f [x] [x]" by (rule stable_sorted_single)
  have x2: "comparison f (set p \<union> set [x])" using Cons.prems(3) by (rule comparison_subset) auto
  show ?case
  proof (cases xs)
    case Nil
    then show ?thesis
      using rank_loop_last [OF Cons.prems(1) x _ x2] Cons.prems(4) Nil by (auto simp del: One_nat_def)
  next
    case (Cons y ys)
    obtain j l' where j: "rank_loop f ranks True 0 n [x] = Some (Inl (j, l'))" "j < 64"
      "ranks_hold f (ranks(j := Some l')) 0 (n + 1) (p @ [x])"
      using rank_loop_more [OF Cons.prems(1) x _ x2] Cons.prems(4) Cons by auto
    have c: "comparison f (set (p @ [x]) \<union> set xs)" using Cons.prems(3) by simp
    have "list_sort_loop f ranks n (x # xs) = list_sort_loop f (ranks(j := Some l')) (n + 1) xs"
      using j(1,2) unfolding list_sort_loop.simps Cons by simp
    moreover have "xs \<noteq> []" "n + 1 + length xs < 2 ^ 64" using Cons.prems(4) Cons by simp_all
    then obtain ys' where "list_sort_loop f (ranks(j := Some l')) (n + 1) xs = Some ys'"
      "stable_sorted f ((p @ [x]) @ xs) ys'" using Cons.IH [OF j(3) _ c] by blast
    ultimately show ?thesis by (simp only: append_assoc append.simps) blast
  qed
qed simp

lemma list_sort_stable:
  assumes "comparison f (set xs)" "length xs < 2 ^ 64"
  shows "\<exists>ys. list_sort f xs = Some ys \<and> stable_sorted f xs ys"
proof (cases "xs = []")
  case True
  then show ?thesis by (simp add: list_sort_def stable_sorted_def)
next
  case False
  have "ranks_hold f Map.empty 0 0 []" by (simp add: ranks_hold.simps)
  then show ?thesis
    using list_sort_loop_stable [of f Map.empty 0 "[]" xs] assms False by (simp add: list_sort_def)
qed

section \<open>The interface of a stable sort\<close>

text \<open>\<open>fits\<close> tells which lengths the implementation accepts.\<close>

locale stable_sorter =
  fixes srt :: "('a \<Rightarrow> 'a \<Rightarrow> int) \<Rightarrow> 'a list \<Rightarrow> 'a list option"
    and fits :: "nat \<Rightarrow> bool"
  assumes stable: "comparison f (set xs) \<Longrightarrow> fits (length xs) \<Longrightarrow> \<exists>ys. srt f xs = Some ys \<and> stable_sorted f xs ys"
begin

lemma unique:
  "comparison f (set xs) \<Longrightarrow> fits (length xs) \<Longrightarrow> stable_sorted f xs ys \<Longrightarrow> srt f xs = Some ys"
  using stable [of f xs] stable_sorted_unique [of f xs ys] by blast

lemma strictly_sorted:
  assumes "comparison f (set xs)" "fits (length xs)" "distinct xs" "\<forall>a\<in>set xs. \<forall>b\<in>set xs. f a b = 0 \<longrightarrow> a = b"
  shows "\<exists>ys. srt f xs = Some ys \<and> sorted_wrt (\<lambda>a b. f a b < 0) ys \<and> distinct ys \<and> set ys = set xs"
proof -
  obtain ys where ys: "srt f xs = Some ys" "stable_sorted f xs ys" using stable [OF assms(1,2)] by blast
  have s: "set ys = set xs" using ys(2) by (rule stable_sorted_set)
  have d: "distinct ys"
    using ys(2) assms(3) by (metis stable_sorted_def mset_eq_imp_distinct_iff)
  have "sorted_wrt (\<lambda>a b. f a b < 0) ys"
    unfolding sorted_wrt_iff_nth_less
  proof (intro allI impI)
    fix i j assume ij: "i < j" "j < length ys"
    have "f (ys ! i) (ys ! j) \<le> 0" using ys(2) ij by (simp add: stable_sorted_def sorted_wrt_iff_nth_less)
    moreover have "ys ! i \<noteq> ys ! j" using d ij by (simp add: nth_eq_iff_index_eq)
    moreover have "ys ! i \<in> set xs" "ys ! j \<in> set xs" using ij s nth_mem by fastforce+
    ultimately show "f (ys ! i) (ys ! j) < 0" using assms(4) by fastforce
  qed
  then show ?thesis using ys(1) d s by blast
qed

end

interpretation array_sort: stable_sorter "git_stable_qsort s" "\<lambda>n. n * s < 2 ^ 64" for s
  by unfold_locales (rule git_stable_qsort_stable)

interpretation linked_sort: stable_sorter list_sort "\<lambda>n. n < 2 ^ 64"
  by unfold_locales (rule list_sort_stable)

section \<open>The properties\<close>

text \<open>
  C40: \<^verbatim>\<open>git_stable_qsort\<close> and the linked list sort of \<^verbatim>\<open>mergesort.h\<close> are the same function, the
  stable sort: for every comparison function that is a total preorder they return a sorted
  permutation in which elements that compare equal keep their order, and there is only one.  The
  array sort does not die on an array that fits into memory, and the list sort never follows a
  null pointer or reads a rank it has not written.
\<close>

theorem merge_sorts_correct:
  assumes "comparison compar (set xs)" "length xs * s < 2 ^ 64" "0 < s"
  shows "git_stable_qsort s compar xs = list_sort compar xs \<and>
    (\<exists>ys. list_sort compar xs = Some ys \<and> sorted_wrt (\<lambda>a b. compar a b \<le> 0) ys \<and> mset ys = mset xs \<and>
      (\<forall>a\<in>set xs. filter (\<lambda>b. compar a b = 0) ys = filter (\<lambda>b. compar a b = 0) xs))"
proof -
  have "length xs * 1 \<le> length xs * s" using assms(3) by (intro mult_le_mono2) simp
  then have n: "length xs < 2 ^ 64" using assms(2) by (simp only: mult_1_right)
  obtain ys where ys: "list_sort compar xs = Some ys" "stable_sorted compar xs ys"
    using linked_sort.stable [OF assms(1) n] by blast
  show ?thesis
    using array_sort.unique [OF assms(1,2) ys(2)] ys by (simp add: stable_sorted_def)
qed

theorem merge_sorts_correct_witness:
  "git_stable_qsort 8 (\<lambda>a b. int (a div 10) - int (b div 10)) [31::nat, 12, 35, 11] =
   list_sort (\<lambda>a b. int (a div 10) - int (b div 10)) [31, 12, 35, 11]"
  using merge_sorts_correct [of "\<lambda>a b. int (a div 10) - int (b div 10)" "[31::nat, 12, 35, 11]" 8]
  by (simp add: comparison_def)

end
