(* ===== verification/Tree_Order.thy ===== *)
theory Tree_Order
  imports Ctype Object_Modes "HOL-Library.Sublist"
begin

text \<open>
  The order of the entries of a tree object: the name comparisons of \<^verbatim>\<open>tree.c\<close> and the check of
  \<^verbatim>\<open>fsck.c\<close> that a tree is sorted and has no two entries of the same name, the second of which is
  not implied by the first: a file \<^verbatim>\<open>foo\<close> and a directory \<^verbatim>\<open>foo\<close> sort apart when \<^verbatim>\<open>foo.bar\<close> is
  between them.  Names are C strings, so they have no NUL; lengths are those of the names.
\<close>

section \<open>Comparing names\<close>

abbreviation uc :: "char \<Rightarrow> nat" where "uc c \<equiv> of_char c"

text \<open>\<^verbatim>\<open>memcmp\<close>: only the sign of its result is specified.\<close>

fun memcmp :: "string \<Rightarrow> string \<Rightarrow> nat \<Rightarrow> int" where
  "memcmp a b 0 = 0"
| "memcmp a b (Suc n) =
     (if cur a = cur b then memcmp (tl a) (tl b) n
      else if uc (cur a) < uc (cur b) then - 1 else 1)"

text \<open>The character after the common length, a slash for the end of a directory's name.\<close>

definition end_char :: "string \<Rightarrow> nat \<Rightarrow> u32 \<Rightarrow> char" where
  "end_char name len mode =
     (let c = cur (drop len name) in if c = NUL \<and> S_ISDIR mode then CHR ''/'' else c)"

definition base_name_compare :: "string \<Rightarrow> u32 \<Rightarrow> string \<Rightarrow> u32 \<Rightarrow> int" where
  "base_name_compare name1 mode1 name2 mode2 =
     (let len = min (length name1) (length name2); cmp = memcmp name1 name2 len in
      if cmp \<noteq> 0 then cmp
      else
        let c1 = end_char name1 len mode1; c2 = end_char name2 len mode2 in
        if uc c1 < uc c2 then - 1 else if uc c1 > uc c2 then 1 else 0)"

definition df_name_compare :: "string \<Rightarrow> u32 \<Rightarrow> string \<Rightarrow> u32 \<Rightarrow> int" where
  "df_name_compare name1 mode1 name2 mode2 =
     (let len = min (length name1) (length name2); cmp = memcmp name1 name2 len in
      if cmp \<noteq> 0 then cmp
      else if length name1 = length name2 then 0
      else
        let c1 = end_char name1 len mode1; c2 = end_char name2 len mode2 in
        if c1 = CHR ''/'' \<and> c2 = NUL then 0
        else if c2 = CHR ''/'' \<and> c1 = NUL then 0
        else int (uc c1) - int (uc c2))"

definition name_compare :: "string \<Rightarrow> string \<Rightarrow> int" where
  "name_compare name1 name2 =
     (let cmp = memcmp name1 name2 (min (length name1) (length name2)) in
      if cmp \<noteq> 0 then cmp
      else if length name1 < length name2 then - 1
      else if length name1 > length name2 then 1 else 0)"

section \<open>The check of fsck\<close>

definition TREE_UNORDERED :: int where "TREE_UNORDERED = - 1"
definition TREE_HAS_DUPS :: int where "TREE_HAS_DUPS = - 2"

definition is_less_than_slash :: "char \<Rightarrow> bool" where
  "is_less_than_slash c \<longleftrightarrow> uc NUL < uc c \<and> uc c < uc (CHR ''/'')"

text \<open>\<^verbatim>\<open>skip_prefix\<close>: what follows the prefix.\<close>

fun skip_prefix :: "string \<Rightarrow> string \<Rightarrow> string option" where
  "skip_prefix str [] = Some str"
| "skip_prefix str (p # ps) = (if cur str = p then skip_prefix (tl str) ps else None)"

text \<open>
  The \<^verbatim>\<open>for (;;)\<close> loop over the stack of candidates, whose top is the head of the list: whether a
  duplicate was found, and the stack.
\<close>

fun pop_candidates :: "string \<Rightarrow> string list \<Rightarrow> bool \<times> string list" where
  "pop_candidates name2 [] = (False, [])"
| "pop_candidates name2 (f # stack) =
     (case skip_prefix name2 f of
        None \<Rightarrow> pop_candidates name2 stack
      | Some p \<Rightarrow>
          if p = [] then (True, stack)
          else if is_less_than_slash (cur p) then (False, f # stack)
          else pop_candidates name2 stack)"

definition verify_ordered ::
  "u32 \<Rightarrow> string \<Rightarrow> u32 \<Rightarrow> string \<Rightarrow> string list \<Rightarrow> int \<times> string list" where
  "verify_ordered mode1 name1 mode2 name2 candidates =
     (let len = min (length name1) (length name2); cmp = memcmp name1 name2 len in
      if cmp < 0 then (0, candidates)
      else if cmp > 0 then (TREE_UNORDERED, candidates)
      else if cur (drop len name1) = NUL \<and> cur (drop len name2) = NUL then (TREE_HAS_DUPS, candidates)
      else
        let c1 = end_char name1 len mode1; c2 = end_char name2 len mode2;
            (dup, candidates) =
              (if c1 = NUL \<and> is_less_than_slash c2 then (False, name1 # candidates)
               else if c2 = CHR ''/'' \<and> is_less_than_slash c1 then pop_candidates name2 candidates
               else (False, candidates))
        in if dup then (TREE_HAS_DUPS, candidates)
           else (if uc c1 < uc c2 then 0 else TREE_UNORDERED, candidates))"

text \<open>
  The part of the loop of \<^verbatim>\<open>fsck_tree\<close> that checks the order: \<open>prev\<close> is \<^verbatim>\<open>o_mode\<close> and \<^verbatim>\<open>o_name\<close>, the
  result \<^verbatim>\<open>not_properly_sorted\<close> and \<^verbatim>\<open>has_dup_entries\<close>.
\<close>

fun fsck_order :: "(u32 \<times> string) option \<Rightarrow> (u32 \<times> string) list \<Rightarrow> string list \<Rightarrow> bool \<times> bool \<Rightarrow> bool \<times> bool" where
  "fsck_order prev [] candidates flags = flags"
| "fsck_order prev ((mode, name) # es) candidates (unsorted, dups) =
     (case prev of
        None \<Rightarrow> fsck_order (Some (mode, name)) es candidates (unsorted, dups)
      | Some (o_mode, o_name) \<Rightarrow>
          (case verify_ordered o_mode o_name mode name candidates of
             (ret, candidates) \<Rightarrow>
               fsck_order (Some (mode, name)) es candidates
                 (unsorted \<or> ret = TREE_UNORDERED, dups \<or> ret = TREE_HAS_DUPS)))"

definition fsck_tree_order :: "(u32 \<times> string) list \<Rightarrow> bool \<times> bool" where
  "fsck_tree_order es = fsck_order None es [] (False, False)"

section \<open>The order as an order of keys\<close>

text \<open>A name with a slash after it if it is a directory's, and NUL otherwise.\<close>

definition tree_key :: "u32 \<times> string \<Rightarrow> nat list" where
  "tree_key e = map uc (snd e) @ [if S_ISDIR (fst e) then uc (CHR ''/'') else uc NUL]"

fun key_less :: "nat list \<Rightarrow> nat list \<Rightarrow> bool" where
  "key_less [] ys = False"
| "key_less (x # xs) [] = False"
| "key_less (x # xs) (y # ys) \<longleftrightarrow> x < y \<or> x = y \<and> key_less xs ys"

lemma key_less_irrefl [simp]: "\<not> key_less xs xs"
  by (induction xs) auto

lemma key_less_trans: "key_less xs ys \<Longrightarrow> key_less ys zs \<Longrightarrow> key_less xs zs"
proof (induction xs ys arbitrary: zs rule: key_less.induct)
  case (3 x xs y ys)
  then show ?case by (cases zs) auto
qed auto

definition entry_name :: "string \<Rightarrow> bool" where
  "entry_name n \<longleftrightarrow> NUL \<notin> set n \<and> CHR ''/'' \<notin> set n"

lemma entry_name_simps [simp]:
  "entry_name []" "entry_name (c # n) \<longleftrightarrow> c \<noteq> NUL \<and> c \<noteq> CHR ''/'' \<and> entry_name n"
  "entry_name (m @ n) \<longleftrightarrow> entry_name m \<and> entry_name n"
  by (auto simp: entry_name_def)

lemma uc_codes: "uc NUL = 0" "uc (CHR ''/'') = 47" "uc c = 0 \<longleftrightarrow> c = NUL" "uc c = 47 \<longleftrightarrow> c = CHR ''/''"
proof -
  show "uc NUL = 0" "uc (CHR ''/'') = 47" by simp_all
  show "uc c = 0 \<longleftrightarrow> c = NUL" using of_char_eq_iff [of c NUL, where 'a = nat] by simp
  show "uc c = 47 \<longleftrightarrow> c = CHR ''/''" using of_char_eq_iff [of c "CHR ''/''", where 'a = nat] by simp
qed

lemma tree_key_simps:
  "tree_key (m, []) = [if S_ISDIR m then 47 else 0]"
  "tree_key (m, c # n) = uc c # tree_key (m, n)"
  by (simp_all add: tree_key_def)

lemma base_name_compare_simps:
  "base_name_compare (c # a) m (d # b) m' =
     (if c = d then base_name_compare a m b m' else if uc c < uc d then - 1 else 1)"
  "base_name_compare [] m [] m' =
     (if S_ISDIR m = S_ISDIR m' then 0 else if S_ISDIR m then 1 else - 1)"
  "c \<noteq> NUL \<Longrightarrow> c \<noteq> CHR ''/'' \<Longrightarrow> base_name_compare [] m (c # b) m' =
     (if (if S_ISDIR m then 47 else 0) < uc c then - 1 else 1)"
  "c \<noteq> NUL \<Longrightarrow> c \<noteq> CHR ''/'' \<Longrightarrow> base_name_compare (c # b) m' [] m =
     (if (if S_ISDIR m then 47 else 0) < uc c then 1 else - 1)"
  using uc_codes(3,4) [of c]
  by (auto simp: base_name_compare_def end_char_def Let_def)

lemma base_name_compare_key:
  assumes "entry_name n1" "entry_name n2"
  shows "(base_name_compare n1 m1 n2 m2 < 0 \<longleftrightarrow> key_less (tree_key (m1, n1)) (tree_key (m2, n2))) \<and>
    (base_name_compare n1 m1 n2 m2 = 0 \<longleftrightarrow> tree_key (m1, n1) = tree_key (m2, n2))"
  using assms
proof (induction n1 arbitrary: n2)
  case Nil
  show ?case
  proof (cases n2)
    case (Cons d b)
    then show ?thesis
      using Nil uc_codes(3,4) [of d]
      by (simp add: base_name_compare_simps tree_key_simps)
  qed (simp add: base_name_compare_simps tree_key_simps)
next
  case (Cons c a)
  show ?case
  proof (cases n2)
    case Nil
    then show ?thesis
      using Cons.prems uc_codes(3,4) [of c]
      by (simp add: base_name_compare_simps tree_key_simps)
  next
    case (Cons d b)
    then show ?thesis
      using Cons.prems Cons.IH [of b] of_char_eq_iff [of c d, where 'a = nat]
      by (auto simp: base_name_compare_simps tree_key_simps simp del: of_char_eq_iff)
  qed
qed

section \<open>The cases of the check\<close>

lemma memcmp_same [simp]: "memcmp (a @ b) (a @ c) (length a) = 0"
  by (induction a) auto

lemma memcmp_zero:
  "n \<le> length a \<Longrightarrow> n \<le> length b \<Longrightarrow> memcmp a b n = 0 \<longleftrightarrow> take n a = take n b"
proof (induction n arbitrary: a b)
  case (Suc n)
  then show ?case by (cases a; cases b) auto
qed simp

lemma memcmp_min_zero:
  "memcmp a b (min (length a) (length b)) = 0 \<longleftrightarrow> prefix a b \<or> prefix b a"
proof -
  have pre: "take (length x) y = x \<longleftrightarrow> prefix x y" for x y :: string
    by (metis append_eq_conv_conj prefix_def)
  have "take (min (length a) (length b)) a = take (min (length a) (length b)) b \<longleftrightarrow> prefix a b \<or> prefix b a"
  proof (cases "length a \<le> length b")
    case True
    then show ?thesis
      using pre [of a b] by (auto simp: min_def prefix_def)
  next
    case False
    then show ?thesis
      using pre [of b a] by (auto simp: min_def prefix_def)
  qed
  then show ?thesis
    using memcmp_zero [OF min.cobounded1 min.cobounded2, of a b] by simp
qed

lemma end_char_proper:
  "end_char n (length n) m = (if S_ISDIR m then CHR ''/'' else NUL)"
  "c \<noteq> NUL \<Longrightarrow> end_char (n @ c # r) (length n) m = c"
  by (simp_all add: end_char_def)

lemma is_less_than_slash_neq: "is_less_than_slash c \<Longrightarrow> c \<noteq> NUL \<and> c \<noteq> CHR ''/''"
  by (auto simp: is_less_than_slash_def)

lemma verify_ordered_same: "verify_ordered m1 n m2 n st = (TREE_HAS_DUPS, st)"
  using memcmp_same [of n "[]" "[]"] by (simp add: verify_ordered_def)

lemma verify_ordered_push:
  assumes "n2 = n1 @ c # r" "is_less_than_slash c" "\<not> S_ISDIR m1"
  shows "verify_ordered m1 n1 m2 n2 st = (0, n1 # st)"
  using assms(2,3) memcmp_same [of n1 "[]" "c # r"] is_less_than_slash_neq [OF assms(2)]
  by (simp add: verify_ordered_def assms(1) end_char_proper is_less_than_slash_def min_def)

lemma verify_ordered_pop:
  assumes "n1 = n2 @ c # r" "is_less_than_slash c" "S_ISDIR m2"
  shows "verify_ordered m1 n1 m2 n2 st =
    (case pop_candidates n2 st of (dup, st') \<Rightarrow> (if dup then TREE_HAS_DUPS else 0, st'))"
  using assms(2,3) memcmp_same [of n2 "c # r" "[]"] is_less_than_slash_neq [OF assms(2)]
  by (auto simp: verify_ordered_def assms(1) end_char_proper is_less_than_slash_def Let_def split: prod.splits)

lemma verify_ordered_other:
  assumes "entry_name n1" "entry_name n2" "n1 \<noteq> n2"
    "\<not> (\<exists>c r. n2 = n1 @ c # r \<and> is_less_than_slash c \<and> \<not> S_ISDIR m1)"
    "\<not> (\<exists>c r. n1 = n2 @ c # r \<and> is_less_than_slash c \<and> S_ISDIR m2)"
  shows "verify_ordered m1 n1 m2 n2 st =
    (if base_name_compare n1 m1 n2 m2 < 0 then 0 else TREE_UNORDERED, st)"
proof (cases "memcmp n1 n2 (min (length n1) (length n2)) = 0")
  case False
  then consider "memcmp n1 n2 (min (length n1) (length n2)) < 0" | "memcmp n1 n2 (min (length n1) (length n2)) > 0"
    by linarith
  then show ?thesis by cases (simp_all add: verify_ordered_def base_name_compare_def)
next
  case True
  then consider (ext) c r where "n2 = n1 @ c # r" | (pre) c r where "n1 = n2 @ c # r"
  proof -
    have ex: "\<exists>c r. y = x @ c # r" if "prefix x y" "x \<noteq> y" for x y :: string
    proof -
      from that(1) obtain zs where "y = x @ zs" by (auto simp: prefix_def)
      with that(2) show ?thesis by (cases zs) auto
    qed
    from True have "prefix n1 n2 \<or> prefix n2 n1" by (simp only: memcmp_min_zero)
    with ex [of n1 n2] ex [of n2 n1] assms(3) show thesis using that by blast
  qed
  then show ?thesis
  proof cases
    case ext
    then have c: "c \<noteq> NUL" "c \<noteq> CHR ''/''" using assms(2) by auto
    have no: "\<not> (is_less_than_slash c \<and> \<not> S_ISDIR m1)" using assms(4) ext by blast
    have len: "min (length n1) (length n2) = length n1" by (simp add: ext)
    have m: "memcmp n1 n2 (length n1) = 0" using memcmp_same [of n1 "[]" "c # r"] by (simp add: ext)
    have e: "end_char n2 (length n1) m2 = c" "cur (drop (length n1) n2) = c"
      using c by (simp_all add: ext end_char_proper)
    show ?thesis
      unfolding verify_ordered_def base_name_compare_def len m Let_def e end_char_proper(1)
      using c no by (cases "S_ISDIR m1") simp_all
  next
    case pre
    then have c: "c \<noteq> NUL" "c \<noteq> CHR ''/''" using assms(1) by auto
    have no: "\<not> (is_less_than_slash c \<and> S_ISDIR m2)" using assms(5) pre by blast
    have len: "min (length n1) (length n2) = length n2" by (simp add: pre)
    have m: "memcmp n1 n2 (length n2) = 0" using memcmp_same [of n2 "c # r" "[]"] by (simp add: pre)
    have e: "end_char n1 (length n2) m1 = c" "cur (drop (length n2) n1) = c"
      using c by (simp_all add: pre end_char_proper)
    show ?thesis
      unfolding verify_ordered_def base_name_compare_def len m Let_def e end_char_proper(1)
      using c no uc_codes(3) [of c] by (cases "S_ISDIR m2") simp_all
  qed
qed

text \<open>All the ways the check of one pair can go.\<close>

lemma verify_ordered_cases:
  assumes "entry_name n1" "entry_name n2"
  obtains (same) "n1 = n2" "verify_ordered m1 n1 m2 n2 st = (TREE_HAS_DUPS, st)"
  | (push) c r where "n2 = n1 @ c # r" "is_less_than_slash c" "\<not> S_ISDIR m1"
      "verify_ordered m1 n1 m2 n2 st = (0, n1 # st)"
  | (pop) c r dup st' where "n1 = n2 @ c # r" "is_less_than_slash c" "S_ISDIR m2"
      "pop_candidates n2 st = (dup, st')"
      "verify_ordered m1 n1 m2 n2 st = (if dup then TREE_HAS_DUPS else 0, st')"
  | (other) "n1 \<noteq> n2" "verify_ordered m1 n1 m2 n2 st =
      (if base_name_compare n1 m1 n2 m2 < 0 then 0 else TREE_UNORDERED, st)"
      "\<not> (\<exists>c r. n2 = n1 @ c # r \<and> is_less_than_slash c \<and> \<not> S_ISDIR m1)"
      "\<not> (\<exists>c r. n1 = n2 @ c # r \<and> is_less_than_slash c \<and> S_ISDIR m2)"
proof -
  consider (a) "n1 = n2"
    | (b) c r where "n2 = n1 @ c # r" "is_less_than_slash c" "\<not> S_ISDIR m1"
    | (c) c r where "n1 = n2 @ c # r" "is_less_than_slash c" "S_ISDIR m2"
    | (d) "n1 \<noteq> n2" "\<not> (\<exists>c r. n2 = n1 @ c # r \<and> is_less_than_slash c \<and> \<not> S_ISDIR m1)"
      "\<not> (\<exists>c r. n1 = n2 @ c # r \<and> is_less_than_slash c \<and> S_ISDIR m2)"
    by blast
  then show ?thesis
  proof cases
    case a
    then show ?thesis using same verify_ordered_same by simp
  next
    case b
    then show ?thesis using push verify_ordered_push by blast
  next
    case c
    obtain dup st' where "pop_candidates n2 st = (dup, st')" by (cases "pop_candidates n2 st")
    with c show ?thesis using pop verify_ordered_pop [of n1 n2 _ _ m2 m1 st] by fastforce
  next
    case d
    then show ?thesis using other verify_ordered_other [OF assms d(1) d(2,3)] by blast
  qed
qed

lemma verify_ordered_less:
  assumes "entry_name n1" "entry_name n2" "verify_ordered m1 n1 m2 n2 st = (0, st')"
  shows "base_name_compare n1 m1 n2 m2 < 0"
  using assms(1,2)
proof (cases rule: verify_ordered_cases [of n1 n2 m1 m2 st])
  case (push c r)
  then show ?thesis
    using assms(1,2) memcmp_same [of n1 "[]" "c # r"] is_less_than_slash_neq
    by (auto simp: base_name_compare_def Let_def end_char_proper is_less_than_slash_def)
next
  case (pop c r dup st'')
  then show ?thesis
    using assms(1,2) memcmp_same [of n2 "c # r" "[]"] is_less_than_slash_neq
    by (auto simp: base_name_compare_def Let_def end_char_proper is_less_than_slash_def)
qed (use assms(3) in \<open>auto simp: TREE_HAS_DUPS_def TREE_UNORDERED_def split: if_splits\<close>)

section \<open>The candidates\<close>

lemma skip_prefix_append [simp]: "skip_prefix (f @ p) f = Some p"
  by (induction f) auto

lemma skip_prefix_Some: "NUL \<notin> set f \<Longrightarrow> skip_prefix n f = Some p \<longleftrightarrow> n = f @ p"
proof (induction f arbitrary: n)
  case (Cons c f)
  then show ?case by (cases n) auto
qed auto

lemma skip_prefix_longer: "entry_name f \<Longrightarrow> c \<noteq> NUL \<Longrightarrow> skip_prefix f (f @ c # r) = None"
  by (induction f) auto

lemma pop_candidates_subset: "pop_candidates n st = (dup, st') \<Longrightarrow> set st' \<subseteq> set st"
  by (induction n st rule: pop_candidates.induct) (fastforce split: option.splits if_splits)+

lemma pop_candidates_dup:
  "pop_candidates n st = (True, st') \<Longrightarrow> \<forall>f\<in>set st. entry_name f \<Longrightarrow> n \<in> set st"
proof (induction n st rule: pop_candidates.induct)
  case (2 n f st)
  then show ?case
    by (auto simp: skip_prefix_Some entry_name_def split: option.splits if_splits)
qed simp

text \<open>
  The file \<open>f\<close> is a candidate, and all above it on the stack are longer names that begin with it.
\<close>

definition tracks :: "string \<Rightarrow> string list \<Rightarrow> bool" where
  "tracks f st \<longleftrightarrow> (\<exists>above below. st = above @ f # below \<and>
     (\<forall>g\<in>set above. entry_name g \<and> (\<exists>c r. g = f @ c # r)))"

lemma tracks_top: "tracks f (f # st)"
  unfolding tracks_def by (rule exI [of _ "[]"]) simp

lemma tracks_push: "tracks f st \<Longrightarrow> entry_name (f @ c # r) \<Longrightarrow> tracks f ((f @ c # r) # st)"
proof -
  assume "tracks f st" "entry_name (f @ c # r)"
  then obtain above below where "st = above @ f # below"
    "\<forall>g\<in>set above. entry_name g \<and> (\<exists>c r. g = f @ c # r)" by (auto simp: tracks_def)
  with \<open>entry_name (f @ c # r)\<close> show ?thesis
    unfolding tracks_def by (intro exI [of _ "(f @ c # r) # above"] exI [of _ below]) auto
qed

text \<open>A directory between the file and its double may discard the names above, but not the file.\<close>

lemma tracks_pop:
  assumes "tracks f st" "entry_name f" "is_less_than_slash c" "pop_candidates (f @ c # r) st = (False, st')"
  shows "tracks f st'"
proof -
  obtain above below where "st = above @ f # below"
    "\<forall>g\<in>set above. entry_name g \<and> (\<exists>c r. g = f @ c # r)" using assms(1) by (auto simp: tracks_def)
  then show ?thesis
    using assms(4)
  proof (induction above arbitrary: st)
    case Nil
    then show ?case using assms(3) tracks_top by auto
  next
    case (Cons g above)
    have IH: "pop_candidates (f @ c # r) (above @ f # below) = (False, st') \<Longrightarrow> tracks f st'"
      using Cons.IH Cons.prems by auto
    show ?case
    proof (cases "skip_prefix (f @ c # r) g")
      case None
      then show ?thesis using IH Cons.prems by simp
    next
      case (Some p)
      show ?thesis
      proof (cases "p \<noteq> [] \<and> is_less_than_slash (cur p)")
        case True
        then have "st' = (g # above) @ f # below" using Some Cons.prems by auto
        then show ?thesis using Cons.prems(2) unfolding tracks_def by blast
      next
        case False
        then show ?thesis using IH Some Cons.prems by (auto split: if_splits)
      qed
    qed
  qed
qed

text \<open>The directory itself finds the file.\<close>

lemma tracks_found:
  assumes "tracks f st" "entry_name f"
  shows "fst (pop_candidates f st)"
proof -
  obtain above below where "st = above @ f # below"
    "\<forall>g\<in>set above. entry_name g \<and> (\<exists>c r. g = f @ c # r)" using assms(1) by (auto simp: tracks_def)
  then show ?thesis
  proof (induction above arbitrary: st)
    case Nil
    then show ?case using skip_prefix_append [of f "[]"] by simp
  next
    case (Cons g above)
    then obtain c r where g: "g = f @ c # r" "c \<noteq> NUL" by auto
    then show ?case using Cons skip_prefix_longer [OF assms(2) g(2)] by simp
  qed
qed

section \<open>Between a file and a directory of the same name\<close>

lemma key_between:
  assumes "entry_name n" "\<not> S_ISDIR fm" "S_ISDIR dm"
    "key_less (tree_key (fm, f)) (tree_key (m, n))" "key_less (tree_key (m, n)) (tree_key (dm, f))"
  shows "\<exists>c r. n = f @ c # r \<and> is_less_than_slash c"
  using assms(1,4,5)
proof (induction f arbitrary: n)
  case Nil
  then show ?case
  proof (cases n)
    case Nil
    with Nil.prems Nil.prems(2,3) assms(2,3) show ?thesis by (auto simp: tree_key_simps split: if_splits)
  next
    case (Cons c r)
    with Nil.prems assms(2,3) have "0 < uc c" "uc c < 47" by (auto simp: tree_key_simps uc_codes(3,4))
    then show ?thesis using Cons by (auto simp: is_less_than_slash_def)
  qed
next
  case (Cons a f)
  show ?case
  proof (cases n)
    case Nil
    with Cons.prems show ?thesis by (auto simp: tree_key_simps uc_codes split: if_splits)
  next
    case (Cons b n')
    have "a = b"
      using Cons.prems Cons of_char_eq_iff [of a b, where 'a = nat]
      by (auto simp: tree_key_simps simp del: of_char_eq_iff)
    then show ?thesis
      using Cons.IH [of n'] Cons.prems Cons by (auto simp: tree_key_simps)
  qed
qed

section \<open>The loop\<close>

definition entry_less :: "u32 \<times> string \<Rightarrow> u32 \<times> string \<Rightarrow> bool" where
  "entry_less e d \<longleftrightarrow> base_name_compare (snd e) (fst e) (snd d) (fst d) < 0"

lemma entry_less_key:
  "entry_name (snd e) \<Longrightarrow> entry_name (snd d) \<Longrightarrow> entry_less e d \<longleftrightarrow> key_less (tree_key e) (tree_key d)"
  using base_name_compare_key [of "snd e" "snd d" "fst e" "fst d"] by (simp add: entry_less_def)

lemma fsck_order_flags: "fsck_order prev es st (u, d) = (False, False) \<Longrightarrow> \<not> u \<and> \<not> d"
proof (induction es arbitrary: prev st u d)
  case (Cons e es)
  obtain mode name where e: "e = (mode, name)" by fastforce
  show ?case
  proof (cases prev)
    case None
    with Cons.prems have "fsck_order (Some e) es st (u, d) = (False, False)" by (simp add: e)
    then show ?thesis by (rule Cons.IH)
  next
    case (Some p)
    obtain ret st' where "verify_ordered (fst p) (snd p) mode name st = (ret, st')" by fastforce
    with Cons.prems Some have "fsck_order (Some e) es st' (u \<or> ret = TREE_UNORDERED, d \<or> ret = TREE_HAS_DUPS) =
        (False, False)" by (cases p) (simp add: e)
    then show ?thesis using Cons.IH by blast
  qed
qed simp

lemma fsck_order_step:
  assumes "fsck_order (Some (m1, n1)) ((m2, n2) # es) st (False, False) = (False, False)"
    "entry_name n1" "entry_name n2"
  obtains st' where "verify_ordered m1 n1 m2 n2 st = (0, st')"
    "fsck_order (Some (m2, n2)) es st' (False, False) = (False, False)"
proof -
  obtain ret st' where v: "verify_ordered m1 n1 m2 n2 st = (ret, st')" by fastforce
  have rest: "fsck_order (Some (m2, n2)) es st' (ret = TREE_UNORDERED, ret = TREE_HAS_DUPS) = (False, False)"
    using assms(1) v by simp
  then have ret: "ret \<noteq> TREE_UNORDERED" "ret \<noteq> TREE_HAS_DUPS"
    using fsck_order_flags by blast+
  have "ret \<in> {0, TREE_UNORDERED, TREE_HAS_DUPS}"
    using assms(2,3) v by (cases rule: verify_ordered_cases [of n1 n2 m1 m2 st]) auto
  with ret rest v show ?thesis using that by auto
qed

lemma fsck_order_sorted:
  assumes "fsck_order (Some e) es st (False, False) = (False, False)" "\<forall>x\<in>set (e # es). entry_name (snd x)"
  shows "sorted_wrt (\<lambda>x y. key_less (tree_key x) (tree_key y)) (e # es)"
  using assms
proof (induction es arbitrary: e st)
  case (Cons d es)
  obtain st' where v: "verify_ordered (fst e) (snd e) (fst d) (snd d) st = (0, st')"
    "fsck_order (Some d) es st' (False, False) = (False, False)"
    using fsck_order_step [of "fst e" "snd e" "fst d" "snd d" es st] Cons.prems by auto
  have "entry_less e d"
    using verify_ordered_less [OF _ _ v(1)] Cons.prems(2) by (simp add: entry_less_def)
  then have "key_less (tree_key e) (tree_key d)" using entry_less_key Cons.prems(2) by simp
  moreover have "sorted_wrt (\<lambda>x y. key_less (tree_key x) (tree_key y)) (d # es)"
    using Cons.IH [OF v(2)] Cons.prems(2) by simp
  ultimately show ?case by (auto intro: key_less_trans)
qed simp

text \<open>A tracked file and a later directory of its name cannot both pass.\<close>

lemma tracked_double:
  assumes "fsck_order (Some (m, f @ c # r)) es st (False, False) = (False, False)"
    "\<forall>x\<in>set es. entry_name (snd x)" "entry_name (f @ c # r)" "is_less_than_slash c" "tracks f st"
    "\<not> S_ISDIR fm" "S_ISDIR dm" "(dm, f) \<in> set es"
  shows False
  using assms(1-5,8)
proof (induction es arbitrary: m c r st)
  case (Cons d es)
  let ?n = "f @ c # r"
  have ent: "entry_name f" "entry_name (snd d)" using Cons.prems by auto
  obtain st' where v: "verify_ordered m ?n (fst d) (snd d) st = (0, st')"
    "fsck_order (Some d) es st' (False, False) = (False, False)"
    using fsck_order_step [of m ?n "fst d" "snd d" es st] Cons.prems(1,3) ent(2) by auto
  have srt: "sorted_wrt (\<lambda>x y. key_less (tree_key x) (tree_key y)) ((m, ?n) # d # es)"
    using fsck_order_sorted [OF Cons.prems(1)] Cons.prems(2,3) by simp
  show False
  proof (cases "d = (dm, f)")
    case True
    have "fst (pop_candidates f st)" by (rule tracks_found [OF Cons.prems(5) ent(1)])
    then have "verify_ordered m ?n dm f st = (TREE_HAS_DUPS, snd (pop_candidates f st))"
      using verify_ordered_pop [OF refl Cons.prems(4) assms(7), of m f r st]
      by (simp add: case_prod_beta)
    then show False using v(1) True by (simp add: TREE_HAS_DUPS_def)
  next
    case False
    then have later: "(dm, f) \<in> set es" using Cons.prems(6) by auto
    have "uc c < 47" "0 < uc c" using Cons.prems(4) by (simp_all add: is_less_than_slash_def)
    then have "key_less (tree_key (fm, f)) (tree_key (m, ?n))"
      using assms(6) by (induction f) (simp_all add: tree_key_simps)
    then have "key_less (tree_key (fm, f)) (tree_key d)" "key_less (tree_key d) (tree_key (dm, f))"
      using srt later by (auto intro: key_less_trans)
    then obtain c' r' where d: "snd d = f @ c' # r'" "is_less_than_slash c'"
      using key_between [OF ent(2) assms(6,7), of f "fst d"] by auto
    have d': "d = (fst d, f @ c' # r')" using d(1) by (metis prod.collapse)
    have "tracks f st'"
      using Cons.prems(3) ent(2)
    proof (cases rule: verify_ordered_cases [of ?n "snd d" m "fst d" st])
      case same
      then show ?thesis using v(1) by (simp add: TREE_HAS_DUPS_def)
    next
      case (push c2 r2)
      then show ?thesis using v(1) tracks_push [OF Cons.prems(5,3)] by simp
    next
      case (pop c2 r2 dup st2)
      then have "pop_candidates (f @ c' # r') st = (False, st')"
        using v(1) d(1) by (auto simp: TREE_HAS_DUPS_def split: if_splits)
      then show ?thesis by (rule tracks_pop [OF Cons.prems(5) ent(1) d(2)])
    next
      case other
      then show ?thesis using v(1) Cons.prems(5) by auto
    qed
    then show False
      using Cons.IH [of "fst d" c' r' st'] v(2) d' Cons.prems(2) ent(2) d later by auto
  qed
qed simp

lemma fsck_order_no_double:
  assumes "fsck_order (Some e) es st (False, False) = (False, False)" "\<forall>x\<in>set (e # es). entry_name (snd x)"
  shows "\<not> (\<exists>i j. i < j \<and> j < length (e # es) \<and> \<not> S_ISDIR (fst ((e # es) ! i)) \<and>
    S_ISDIR (fst ((e # es) ! j)) \<and> snd ((e # es) ! i) = snd ((e # es) ! j))"
  using assms
proof (induction es arbitrary: e st)
  case Nil
  then show ?case by auto
next
  case (Cons d es)
  obtain st' where v: "verify_ordered (fst e) (snd e) (fst d) (snd d) st = (0, st')"
    "fsck_order (Some d) es st' (False, False) = (False, False)"
    using fsck_order_step [of "fst e" "snd e" "fst d" "snd d" es st] Cons.prems by auto
  note IH = Cons.IH [OF v(2)]
  have first: False if x: "x \<in> set (d # es)" "\<not> S_ISDIR (fst e)" "S_ISDIR (fst x)" "snd e = snd x" for x
  proof (cases "x = d")
    case True
    then show False using v(1) x(4) verify_ordered_same by (simp add: TREE_HAS_DUPS_def)
  next
    case False
    then have later: "x \<in> set es" using x(1) by simp
    have srt: "sorted_wrt (\<lambda>x y. key_less (tree_key x) (tree_key y)) (e # d # es)"
      by (rule fsck_order_sorted [OF Cons.prems])
    have xe: "x = (fst x, snd e)" "e = (fst e, snd e)" using x(4) by (metis prod.collapse)+
    have "key_less (tree_key e) (tree_key d)" "key_less (tree_key d) (tree_key x)"
      using srt later by auto
    then obtain c r where d: "snd d = snd e @ c # r" "is_less_than_slash c"
      using key_between [of "snd d" "fst e" "fst x" "snd e" "fst d"] Cons.prems(2) x(2,3) xe by auto
    have "verify_ordered (fst e) (snd e) (fst d) (snd d) st = (0, snd e # st)"
      by (rule verify_ordered_push [OF d x(2)])
    then have "tracks (snd e) st'" using v(1) tracks_top by simp
    moreover have "d = (fst d, snd e @ c # r)" using d(1) by (metis prod.collapse)
    ultimately show False
      using tracked_double [of "fst d" "snd e" c r es st' "fst e" "fst x"] v(2) Cons.prems(2) d x(2,3) later xe
      by auto
  qed
  show ?case
  proof
    assume "\<exists>i j. i < j \<and> j < length (e # d # es) \<and> \<not> S_ISDIR (fst ((e # d # es) ! i)) \<and>
      S_ISDIR (fst ((e # d # es) ! j)) \<and> snd ((e # d # es) ! i) = snd ((e # d # es) ! j)"
    then obtain i j where ij: "i < j" "j < length (e # d # es)" "\<not> S_ISDIR (fst ((e # d # es) ! i))"
      "S_ISDIR (fst ((e # d # es) ! j))" "snd ((e # d # es) ! i) = snd ((e # d # es) ! j)" by blast
    obtain j' where j: "j = Suc j'" using ij(1) by (cases j) auto
    show False
    proof (cases i)
      case 0
      then show False using first [of "(d # es) ! j'"] nth_mem [of j' "d # es"] ij j by simp
    next
      case (Suc i')
      have "i' < j' \<and> j' < length (d # es) \<and> \<not> S_ISDIR (fst ((d # es) ! i')) \<and>
        S_ISDIR (fst ((d # es) ! j')) \<and> snd ((d # es) ! i') = snd ((d # es) ! j')"
        using ij unfolding j Suc by (simp only: nth_Cons_Suc length_Cons Suc_less_eq simp_thms)
      then show False using IH Cons.prems(2) by (meson list.set_intros(2))
    qed
  qed
qed

lemma disjoint_insert: "A \<subseteq> insert x B \<Longrightarrow> x \<notin> X \<Longrightarrow> B \<inter> X = {} \<Longrightarrow> A \<inter> X = {}"
  by blast

text \<open>Completeness: a sorted tree with distinct names passes.\<close>

lemma fsck_order_passes:
  assumes "sorted_wrt entry_less (e # es)" "distinct (map snd (e # es))"
    "\<forall>x\<in>set (e # es). entry_name (snd x)" "\<forall>f\<in>set st. entry_name f" "set st \<inter> snd ` set (e # es) = {}"
  shows "fsck_order (Some e) es st (False, False) = (False, False)"
  using assms
proof (induction es arbitrary: e st)
  case (Cons d es)
  have less: "base_name_compare (snd e) (fst e) (snd d) (fst d) < 0" and ne: "snd e \<noteq> snd d"
    using Cons.prems(1,2) by (simp_all add: entry_less_def)
  have ent: "entry_name (snd e)" "entry_name (snd d)" using Cons.prems(3) by auto
  have "\<exists>st'. verify_ordered (fst e) (snd e) (fst d) (snd d) st = (0, st') \<and> set st' \<subseteq> insert (snd e) (set st)"
    using ent
  proof (cases rule: verify_ordered_cases [of "snd e" "snd d" "fst e" "fst d" st])
    case same
    then show ?thesis using ne by simp
  next
    case (push c r)
    then show ?thesis by (intro exI [of _ "snd e # st"]) simp
  next
    case (pop c r dup st')
    have "snd d \<notin> set st" using Cons.prems(5) by auto
    then have "pop_candidates (snd d) st \<noteq> (True, st')"
      using pop_candidates_dup Cons.prems(4) by blast
    then have "\<not> dup" using pop(4) by auto
    moreover have "set st' \<subseteq> insert (snd e) (set st)"
      using pop_candidates_subset [OF pop(4)] by blast
    ultimately show ?thesis using pop(5) by simp
  next
    case other
    then show ?thesis using less by (intro exI [of _ st]) auto
  qed
  then obtain st' where st': "verify_ordered (fst e) (snd e) (fst d) (snd d) st = (0, st')"
    "set st' \<subseteq> insert (snd e) (set st)" by blast
  have "snd e \<notin> snd ` set (d # es)" "set st \<inter> snd ` set (d # es) = {}"
    using Cons.prems(2,5) by auto
  then have "set st' \<inter> snd ` set (d # es) = {}" by (rule disjoint_insert [OF st'(2)])
  moreover have "\<forall>f\<in>set st'. entry_name f" using Cons.prems(4) st'(2) ent(1) by blast
  moreover have "sorted_wrt entry_less (d # es)" "distinct (map snd (d # es))"
    using Cons.prems(1,2) by simp_all
  moreover have "\<forall>x\<in>set (d # es). entry_name (snd x)" using Cons.prems(3) by simp
  ultimately have "fsck_order (Some d) es st' (False, False) = (False, False)"
    by (intro Cons.IH)
  moreover have "fsck_order (Some e) (d # es) st (False, False) = fsck_order (Some d) es st' (False, False)"
    using st'(1) by (cases e, cases d) (simp add: TREE_UNORDERED_def TREE_HAS_DUPS_def)
  ultimately show ?case by (simp only:)
qed simp

text \<open>
  \<^verbatim>\<open>base_name_compare\<close> is a strict total order on the entries of trees whose names have no
  slash: it is transitive, exactly one of less, equal and greater holds, and it agrees with the
  order of the paths the entries stand for, a directory's with its slash.
\<close>

lemma base_name_compare_order:
  assumes "entry_name a" "entry_name b" "entry_name c"
  shows "(base_name_compare a m b n < 0 \<longleftrightarrow> key_less (tree_key (m, a)) (tree_key (n, b))) \<and>
    (base_name_compare a m b n = 0 \<longleftrightarrow> a = b \<and> S_ISDIR m = S_ISDIR n) \<and>
    (base_name_compare a m b n > 0 \<longleftrightarrow> base_name_compare b n a m < 0) \<and>
    (base_name_compare a m b n < 0 \<longrightarrow> base_name_compare b n c k < 0 \<longrightarrow> base_name_compare a m c k < 0)"
proof -
  note key = base_name_compare_key
  have inj: "tree_key (m, a) = tree_key (n, b) \<longleftrightarrow> a = b \<and> S_ISDIR m = S_ISDIR n"
    by (auto simp: tree_key_def inj_map_eq_map [OF inj_of_char])
  have total: "base_name_compare a m b n > 0 \<longleftrightarrow> base_name_compare b n a m < 0"
    using assms(1,2)
  proof (induction a arbitrary: b)
    case Nil
    then show ?case by (cases b) (auto simp: base_name_compare_simps split: if_splits)
  next
    case (Cons x xs)
    then show ?case
      by (cases b) (auto simp: base_name_compare_simps split: if_splits)
  qed
  show ?thesis
    using key [of a b m n] key [of b c n k] key [of a c m k] assms total inj
      key_less_trans [of "tree_key (m, a)" "tree_key (n, b)" "tree_key (k, c)"] by auto
qed

lemma fsck_tree_order_iff:
  assumes "\<forall>e\<in>set es. entry_name (snd e)"
  shows "fsck_tree_order es = (False, False) \<longleftrightarrow>
    sorted_wrt (\<lambda>e d. base_name_compare (snd e) (fst e) (snd d) (fst d) < 0) es \<and> distinct (map snd es)"
proof (cases es)
  case Nil
  then show ?thesis by (simp add: fsck_tree_order_def)
next
  case (Cons e ds)
  have first: "fsck_tree_order es = fsck_order (Some e) ds [] (False, False)"
    by (cases e) (simp add: fsck_tree_order_def Cons)
  have less: "(\<lambda>e d. base_name_compare (snd e) (fst e) (snd d) (fst d) < 0) = entry_less"
    by (intro ext) (simp add: entry_less_def)
  have sound: "sorted_wrt entry_less es \<and> distinct (map snd es)"
    if ok: "fsck_order (Some e) ds [] (False, False) = (False, False)"
  proof
    have srt: "sorted_wrt (\<lambda>x y. key_less (tree_key x) (tree_key y)) es"
      using fsck_order_sorted [OF ok] assms Cons by simp
    then show "sorted_wrt entry_less es"
      using assms by (intro sorted_wrt_mono_rel [OF _ srt]) (simp add: entry_less_key)
    have "snd (es ! i) \<noteq> snd (es ! j)" if ij: "i < j" "j < length es" for i j
    proof
      assume same: "snd (es ! i) = snd (es ! j)"
      have "key_less (tree_key (es ! i)) (tree_key (es ! j))"
        using srt ij by (simp add: sorted_wrt_iff_nth_less)
      moreover have "tree_key (es ! i) = map uc (snd (es ! j)) @ [if S_ISDIR (fst (es ! i)) then 47 else 0]"
        "tree_key (es ! j) = map uc (snd (es ! j)) @ [if S_ISDIR (fst (es ! j)) then 47 else 0]"
        using same by (simp_all add: tree_key_def)
      moreover have "key_less (xs @ [x]) (xs @ [y]) \<longleftrightarrow> x < y" for xs x y by (induction xs) auto
      ultimately have "\<not> S_ISDIR (fst (es ! i))" "S_ISDIR (fst (es ! j))" by (auto split: if_splits)
      then show False
        using fsck_order_no_double [OF ok] assms Cons ij same by blast
    qed
    then show "distinct (map snd es)"
      unfolding distinct_conv_nth by (metis length_map linorder_neqE_nat nth_map)
  qed
  have complete: "fsck_order (Some e) ds [] (False, False) = (False, False)"
    if "sorted_wrt entry_less es" "distinct (map snd es)"
    using fsck_order_passes [of e ds "[]"] that assms Cons by simp
  show ?thesis unfolding first less using sound complete by blast
qed

section \<open>The property\<close>

text \<open>
  C38: For names without slashes, which \<^verbatim>\<open>fsck_tree\<close> reports separately, the check raises neither
  \<^verbatim>\<open>not_properly_sorted\<close> nor \<^verbatim>\<open>has_dup_entries\<close> exactly if the entries are strictly sorted by
  \<^verbatim>\<open>base_name_compare\<close> and no two of them, wherever they are in the tree and whatever their modes,
  have the same name.
\<close>

theorem fsck_tree_order_correct:
  assumes "\<forall>e\<in>set es. entry_name (snd e)"
  shows "fsck_tree_order es = (False, False) \<longleftrightarrow>
    sorted_wrt (\<lambda>e d. base_name_compare (snd e) (fst e) (snd d) (fst d) < 0) es \<and> distinct (map snd es)"
  using assms by (rule fsck_tree_order_iff)

theorem fsck_tree_order_correct_witness:
  "fsck_tree_order [(0x81a4, ''foo''), (0x81a4, ''foo.bar''), (0x4000, ''foo'')] \<noteq> (False, False)"
  using fsck_tree_order_correct [of "[(0x81a4, ''foo''), (0x81a4, ''foo.bar''), (0x4000, ''foo'')]"]
  by simp

end
