(* ===== verification/Tree_Walk.thy ===== *)
theory Tree_Walk
  imports Tree_Order Hex "HOL-Library.Multiset"
begin

text \<open>
  Reading a tree object entry by entry, \<^verbatim>\<open>tree-walk.c\<close>, and writing one as \<^verbatim>\<open>git mktree\<close> does.

  A tree is the memory of its object: the list of its characters from the current entry on, whose
  length is \<^verbatim>\<open>desc->size\<close>.  A read past its end is an outcome of its own.  An entry's path is kept
  with its position in the buffer.  The code keeps the size in an \<^verbatim>\<open>unsigned int\<close> and the length of a
  path in an \<^verbatim>\<open>int\<close>; the model is of trees below 2 GiB, where neither overflows.
\<close>

section \<open>Reading\<close>

datatype tree_err = Tree_overrun | Tree_bad string | Tree_die string

text \<open>
  \<^verbatim>\<open>parse_mode\<close>: the loop counts the characters it has read in \<open>n\<close>; \<open>None\<close> is its NULL.
\<close>

fun parse_mode_loop :: "string \<Rightarrow> nat \<Rightarrow> u32 \<Rightarrow> tree_err + (nat \<times> u32) option" where
  "parse_mode_loop [] n mode = Inl Tree_overrun"
| "parse_mode_loop (c # str) n mode =
     (if c = CHR '' '' then Inr (Some (n + 1, mode))
      else if uc c < uc (CHR ''0'') \<or> uc c > uc (CHR ''7'') then Inr None
      else parse_mode_loop str (n + 1) (push_bit 3 mode + word_of_nat (uc c - uc (CHR ''0''))))"

definition parse_mode :: "string \<Rightarrow> tree_err + (nat \<times> 16 word) option" where
  "parse_mode str =
     (case str of
        [] \<Rightarrow> Inl Tree_overrun
      | c # _ \<Rightarrow>
          if c = CHR '' '' then Inr None
          else (case parse_mode_loop str 0 0 of
                  Inl e \<Rightarrow> Inl e
                | Inr None \<Rightarrow> Inr None
                | Inr (Some (n, mode)) \<Rightarrow> Inr (Some (n, ucast mode))))"

fun mem_strlen :: "string \<Rightarrow> tree_err + nat" where
  "mem_strlen [] = Inl Tree_overrun"
| "mem_strlen (c # str) =
     (if c = NUL then Inr 0
      else case mem_strlen str of Inl e \<Rightarrow> Inl e | Inr n \<Rightarrow> Inr (Suc n))"

record name_entry =
  ne_oid :: object_id
  ne_pos :: nat
  ne_path :: string
  ne_mode :: u32

record tree_desc =
  td_algo :: nat
  td_buffer :: string
  td_entry :: name_entry
  td_raw_modes :: bool

definition decode_tree_entry :: "tree_desc \<Rightarrow> string \<Rightarrow> tree_err + name_entry" where
  "decode_tree_entry desc buf =
     (let size = length buf; hashsz = rawsz (hash_algos ! td_algo desc) in
      if size < hashsz + 3 \<or> buf ! (size - (hashsz + 1)) \<noteq> NUL then Inl (Tree_bad ''too-short tree object'')
      else
        (case parse_mode buf of
           Inl e \<Rightarrow> Inl e
         | Inr None \<Rightarrow> Inl (Tree_bad ''malformed mode in tree entry'')
         | Inr (Some (pos, mode)) \<Rightarrow>
             (case drop pos buf of
                [] \<Rightarrow> Inl Tree_overrun
              | c # _ \<Rightarrow>
                  if c = NUL then Inl (Tree_bad ''empty filename in tree entry'')
                  else
                    (case mem_strlen (drop pos buf) of
                       Inl e \<Rightarrow> Inl e
                     | Inr pathlen \<Rightarrow>
                         let hash = drop (pos + pathlen + 1) buf in
                         if length hash < hashsz then Inl Tree_overrun
                         else Inr \<lparr>ne_oid = oidread (ne_oid (td_entry desc)) (map of_char (take hashsz hash)) (td_algo desc),
                                ne_pos = pos, ne_path = take pathlen (drop pos buf),
                                ne_mode = (if td_raw_modes desc then ucast mode else canon_mode (ucast mode))\<rparr>))))"

text \<open>
  \<open>algo\<close> is the index of the algorithm that the object name or the repository gives; the entry
  of a fresh descriptor is whatever it was.
\<close>

definition init_tree_desc :: "tree_desc \<Rightarrow> nat \<Rightarrow> string \<Rightarrow> bool \<Rightarrow> tree_err + tree_desc" where
  "init_tree_desc desc algo buffer raw =
     (let desc = desc\<lparr>td_algo := algo, td_buffer := buffer, td_raw_modes := raw\<rparr> in
      if buffer \<noteq> [] then
        (case decode_tree_entry desc buffer of
           Inl e \<Rightarrow> Inl e | Inr entry \<Rightarrow> Inr (desc\<lparr>td_entry := entry\<rparr>))
      else Inr desc)"

text \<open>The distance from the entry to the next.\<close>

definition entry_len :: "tree_desc \<Rightarrow> nat" where
  "entry_len desc =
     ne_pos (td_entry desc) + length (ne_path (td_entry desc)) + 1 + rawsz (hash_algos ! td_algo desc)"

definition update_tree_entry :: "tree_desc \<Rightarrow> tree_err + tree_desc" where
  "update_tree_entry desc =
     (let len = entry_len desc in
      if length (td_buffer desc) < len then Inl (Tree_die ''too-short tree file'')
      else
        let buf = drop len (td_buffer desc); desc = desc\<lparr>td_buffer := buf\<rparr> in
        if buf \<noteq> [] then
          (case decode_tree_entry desc buf of
             Inl e \<Rightarrow> Inl e | Inr entry \<Rightarrow> Inr (desc\<lparr>td_entry := entry\<rparr>))
        else Inr desc)"

text \<open>One step of \<^verbatim>\<open>tree_entry\<close>, and the entries it delivers until the tree is used up.\<close>

definition tree_entry :: "tree_desc \<Rightarrow> tree_err + (name_entry \<times> tree_desc) option" where
  "tree_entry desc =
     (if td_buffer desc = [] then Inr None
      else case update_tree_entry desc of
             Inl e \<Rightarrow> Inl e | Inr desc' \<Rightarrow> Inr (Some (td_entry desc, desc')))"

lemma tree_entry_shrinks:
  "tree_entry desc = Inr (Some (e, desc')) \<Longrightarrow> length (td_buffer desc') < length (td_buffer desc)"
  by (auto simp: tree_entry_def update_tree_entry_def entry_len_def Let_def split: if_splits sum.splits)

function tree_entries :: "tree_desc \<Rightarrow> tree_err + name_entry list" where
  "tree_entries desc =
     (case tree_entry desc of
        Inl e \<Rightarrow> Inl e
      | Inr None \<Rightarrow> Inr []
      | Inr (Some (e, desc')) \<Rightarrow>
          (case tree_entries desc' of Inl e \<Rightarrow> Inl e | Inr es \<Rightarrow> Inr (e # es)))"
  by pat_completeness auto
termination
  by (relation "measure (\<lambda>desc. length (td_buffer desc))") (auto dest: tree_entry_shrinks)

declare tree_entries.simps [simp del]

section \<open>Writing\<close>

text \<open>The conversion \<^verbatim>\<open>%o\<close>, and the buffer \<^verbatim>\<open>write_tree\<close> fills from sorted entries.\<close>

fun octal_digits :: "nat \<Rightarrow> nat list" where
  "octal_digits n = (if n < 8 then [n] else octal_digits (n div 8) @ [n mod 8])"

declare octal_digits.simps [simp del]

definition octal_string :: "nat \<Rightarrow> string" where
  "octal_string n = map (\<lambda>d. char_of (48 + d)) (octal_digits n)"

record treeent =
  te_mode :: u32
  te_name :: string
  te_hash :: "byte list"

definition tree_line :: "treeent \<Rightarrow> string" where
  "tree_line e = octal_string (unat (te_mode e)) @ CHR '' '' # te_name e @ NUL # map (\<lambda>b. char_of (unat b)) (te_hash e)"

text \<open>
  The entries collected so far are the program's variable \<^verbatim>\<open>entries\<close>.  \<open>qsort\<close> is the sort of the
  standard library, which leaves the order of equal entries open and, built with
  \<^verbatim>\<open>INTERNAL_QSORT\<close>, is git's own; it gets the comparison function.
\<close>

definition append_to_tree :: "u32 \<Rightarrow> byte list \<Rightarrow> string \<Rightarrow> treeent list \<Rightarrow> tree_err + treeent list" where
  "append_to_tree mode oid path entries =
     (if CHR ''/'' \<in> set path then Inl (Tree_die (''path '' @ path @ '' contains slash''))
      else Inr (entries @ [\<lparr>te_mode = mode, te_name = path, te_hash = oid\<rparr>]))"

definition ent_compare :: "treeent \<Rightarrow> treeent \<Rightarrow> int" where
  "ent_compare a b = base_name_compare (te_name a) (te_mode a) (te_name b) (te_mode b)"

type_synonym qsort = "(treeent \<Rightarrow> treeent \<Rightarrow> int) \<Rightarrow> treeent list \<Rightarrow> treeent list"

definition write_tree :: "qsort \<Rightarrow> treeent list \<Rightarrow> string" where
  "write_tree qsort entries = concat (map tree_line (qsort ent_compare entries))"

section \<open>No read outside the tree\<close>

lemma parse_mode_loop_stops:
  assumes "z < length str" "str ! z = NUL"
  shows "\<exists>r. parse_mode_loop str n m = Inr r \<and> (\<forall>k mode. r = Some (k, mode) \<longrightarrow> n < k \<and> k \<le> n + z)"
  using assms
proof (induction str arbitrary: z n m)
  case (Cons c str)
  show ?case
  proof (cases z)
    case 0
    then show ?thesis using Cons.prems by (simp add: uc_codes)
  next
    case (Suc y)
    then show ?thesis
      using Cons.prems Cons.IH [of y "n + 1" "push_bit 3 m + word_of_nat (uc c - uc (CHR ''0''))"]
      by (force simp: uc_codes)
  qed
qed simp

lemma mem_strlen_stops:
  "z < length str \<Longrightarrow> str ! z = NUL \<Longrightarrow> \<exists>l. mem_strlen str = Inr l \<and> l \<le> z"
proof (induction str arbitrary: z)
  case (Cons c str)
  show ?case
  proof (cases z)
    case (Suc y)
    then show ?thesis using Cons.prems Cons.IH [of y] by auto
  qed (use Cons.prems in simp)
qed simp

lemma decode_tree_entry_bounds:
  "decode_tree_entry desc buf \<noteq> Inl Tree_overrun"
  "decode_tree_entry desc buf \<noteq> Inl (Tree_die msg)"
  "decode_tree_entry desc buf = Inr e \<Longrightarrow>
     ne_pos e + length (ne_path e) + 1 + rawsz (hash_algos ! td_algo desc) \<le> length buf"
proof -
  let ?h = "rawsz (hash_algos ! td_algo desc)"
  have "decode_tree_entry desc buf \<noteq> Inl Tree_overrun \<and> decode_tree_entry desc buf \<noteq> Inl (Tree_die msg) \<and>
    (decode_tree_entry desc buf = Inr e \<longrightarrow> ne_pos e + length (ne_path e) + 1 + ?h \<le> length buf)"
  proof (cases "length buf < ?h + 3 \<or> buf ! (length buf - (?h + 1)) \<noteq> NUL")
    case True
    then show ?thesis by (auto simp: decode_tree_entry_def Let_def)
  next
    case False
    define z where "z = length buf - (?h + 1)"
    have z: "z < length buf" "buf ! z = NUL" "z + 1 + ?h = length buf"
      using False by (auto simp: z_def)
    obtain r0 where r0: "parse_mode_loop buf 0 0 = Inr r0" "\<forall>k mode. r0 = Some (k, mode) \<longrightarrow> k \<le> z"
      using parse_mode_loop_stops [OF z(1,2), of 0 0] by auto
    obtain r where r: "parse_mode buf = Inr r" "\<forall>k mode. r = Some (k, mode) \<longrightarrow> k \<le> z"
    proof -
      obtain c cs where buf: "buf = c # cs" using z(1) by (cases buf) auto
      show ?thesis
      proof (cases "c = CHR '' ''")
        case True
        then show ?thesis using that [of None] by (simp add: parse_mode_def buf)
      next
        case False
        have "parse_mode buf = Inr (case r0 of None \<Rightarrow> None | Some (n, mode) \<Rightarrow> Some (n, ucast mode))"
          using False r0(1) by (simp add: parse_mode_def buf split: option.splits)
        then show ?thesis using that r0(2) by (auto split: option.splits)
      qed
    qed
    show ?thesis
    proof (cases r)
      case None
      then show ?thesis using False r by (auto simp: decode_tree_entry_def Let_def)
    next
      case (Some pm)
      obtain pos mode where pm: "pm = (pos, mode)" by (cases pm)
      have pos: "pos \<le> z" using r(2) Some pm by simp
      have at: "z - pos < length (drop pos buf)" "drop pos buf ! (z - pos) = NUL"
        using z pos by simp_all
      obtain l where l: "mem_strlen (drop pos buf) = Inr l" "l \<le> z - pos"
        using mem_strlen_stops [OF at] by blast
      have "drop pos buf \<noteq> []" using at(1) by auto
      then obtain c cs where c: "drop pos buf = c # cs" by (cases "drop pos buf") auto
      have len: "pos + l + 1 + ?h \<le> length buf" using l(2) pos z(3) by simp
      then have room: "\<not> length buf - Suc (pos + l) < ?h" by simp
      show ?thesis
        using False r Some pm l(1) c len room
        by (auto simp: decode_tree_entry_def Let_def min_def)
    qed
  qed
  then show "decode_tree_entry desc buf \<noteq> Inl Tree_overrun"
    "decode_tree_entry desc buf \<noteq> Inl (Tree_die msg)"
    "decode_tree_entry desc buf = Inr e \<Longrightarrow>
     ne_pos e + length (ne_path e) + 1 + ?h \<le> length buf" by blast+
qed

text \<open>A descriptor whose entry, if there is one, lies within its buffer.\<close>

definition desc_ok :: "tree_desc \<Rightarrow> bool" where
  "desc_ok desc \<longleftrightarrow> td_buffer desc = [] \<or> entry_len desc \<le> length (td_buffer desc)"

lemma init_tree_desc_ok: "init_tree_desc desc algo buffer raw = Inr desc' \<Longrightarrow> desc_ok desc'"
  using decode_tree_entry_bounds(3) [of "desc\<lparr>td_algo := algo, td_buffer := buffer, td_raw_modes := raw\<rparr>" buffer]
  by (auto simp: init_tree_desc_def Let_def desc_ok_def entry_len_def split: if_splits sum.splits)

lemma tree_entry_ok:
  assumes "desc_ok desc"
  shows "tree_entry desc \<noteq> Inl Tree_overrun" "tree_entry desc \<noteq> Inl (Tree_die msg)"
    "tree_entry desc = Inr (Some (e, desc')) \<Longrightarrow> desc_ok desc'"
proof -
  let ?d = "desc\<lparr>td_buffer := drop (entry_len desc) (td_buffer desc)\<rparr>"
  note b = decode_tree_entry_bounds [of ?d "drop (entry_len desc) (td_buffer desc)"]
  show "tree_entry desc \<noteq> Inl Tree_overrun" "tree_entry desc \<noteq> Inl (Tree_die msg)"
    using assms b(1) b(2) [of msg]
    by (auto simp: tree_entry_def update_tree_entry_def Let_def desc_ok_def split: sum.splits if_splits)
  show "tree_entry desc = Inr (Some (e, desc')) \<Longrightarrow> desc_ok desc'"
    using b(3)
    by (auto simp: tree_entry_def update_tree_entry_def Let_def desc_ok_def entry_len_def
        split: sum.splits if_splits)
qed

lemma tree_entries_ok:
  "desc_ok desc \<Longrightarrow> tree_entries desc \<noteq> Inl Tree_overrun \<and> tree_entries desc \<noteq> Inl (Tree_die msg)"
proof (induction desc rule: tree_entries.induct)
  case (1 desc)
  note ok = tree_entry_ok [OF 1(2)]
  show ?case
  proof (cases "tree_entry desc")
    case (Inl e)
    then show ?thesis using ok(1) ok(2) [of msg] by (simp add: tree_entries.simps [of desc])
  next
    case (Inr r)
    show ?thesis
    proof (cases r)
      case None
      then show ?thesis using Inr by (simp add: tree_entries.simps [of desc])
    next
      case (Some p)
      obtain e desc' where p: "p = (e, desc')" by (cases p)
      have "desc_ok desc'" using ok(3) [of e desc'] Inr Some p by simp
      then have "tree_entries desc' \<noteq> Inl Tree_overrun \<and> tree_entries desc' \<noteq> Inl (Tree_die msg)"
        using "1.IH" [OF Inr Some p [symmetric]] by blast
      then show ?thesis
        using Inr Some p by (auto simp: tree_entries.simps [of desc] split: sum.splits)
    qed
  qed
qed

section \<open>What is written is read back\<close>

lemma octal_digits_lt: "d \<in> set (octal_digits n) \<Longrightarrow> d < 8"
proof (induction n rule: octal_digits.induct)
  case (1 n)
  then show ?case using octal_digits.simps [of n] by (auto split: if_splits)
qed

lemma octal_digits_Nil [simp]: "octal_digits n \<noteq> []"
  using octal_digits.simps [of n] by (auto split: if_splits)

lemma octal_digits_value:
  "foldl (\<lambda>m d. push_bit 3 m + word_of_nat d) (0 :: u32) (octal_digits n) = word_of_nat n"
proof (induction n rule: octal_digits.induct)
  case (1 n)
  show ?case
  proof (cases "n < 8")
    case True
    then show ?thesis using octal_digits.simps [of n] by simp
  next
    case False
    have "foldl (\<lambda>m d. push_bit 3 m + word_of_nat d) (0 :: u32) (octal_digits n) =
        push_bit 3 (word_of_nat (n div 8)) + word_of_nat (n mod 8)"
      using False 1 octal_digits.simps [of n] by simp
    also have "\<dots> = word_of_nat (8 * (n div 8) + n mod 8)"
      by (simp only: push_bit_eq_mult of_nat_add of_nat_mult) (simp add: mult.commute)
    finally show ?thesis by (simp only: mult_div_mod_eq)
  qed
qed

lemma octal_char: "d < 8 \<Longrightarrow> uc (char_of (48 + d)) = 48 + d"
  by (simp add: of_char_of)

lemma octal_space: "(d::nat) < 8 \<Longrightarrow> char_of (48 + d) \<noteq> CHR '' ''"
proof
  assume d: "d < 8" "char_of (48 + d) = CHR '' ''"
  have "uc (char_of (48 + d)) = 32" unfolding d(2) by simp
  with octal_char [OF d(1)] show False by simp
qed

lemma parse_mode_loop_digits:
  assumes "\<forall>d\<in>set ds. d < 8"
  shows "parse_mode_loop (map (\<lambda>d. char_of (48 + d)) ds @ CHR '' '' # rest) n m =
    Inr (Some (n + length ds + 1, foldl (\<lambda>m d. push_bit 3 m + word_of_nat d) m ds))"
  using assms
proof (induction ds arbitrary: n m)
  case (Cons d ds)
  have u: "uc (char_of (48 + d)) = 48 + d" using Cons.prems by (simp add: octal_char)
  have "char_of (48 + d) \<noteq> CHR '' ''" using Cons.prems by (intro octal_space) simp
  then show ?case
    using Cons u by (simp add: push_bit_eq_mult)
qed simp

text \<open>Entries that can stand in a tree of the hash algorithm \<open>algo\<close>.\<close>

definition treeent_ok :: "nat \<Rightarrow> treeent \<Rightarrow> bool" where
  "treeent_ok algo e \<longleftrightarrow> unat (te_mode e) < 65536 \<and> te_name e \<noteq> [] \<and> NUL \<notin> set (te_name e) \<and>
     length (te_hash e) = rawsz (hash_algos ! algo)"

definition lines_of :: "treeent list \<Rightarrow> string" where
  "lines_of es = concat (map tree_line es)"

lemma lines_of_simps [simp]: "lines_of [] = []" "lines_of (e # es) = tree_line e @ lines_of es"
  by (simp_all add: lines_of_def)

lemma mem_strlen_name: "NUL \<notin> set n \<Longrightarrow> mem_strlen (n @ NUL # r) = Inr (length n)"
  by (induction n) auto

lemma tree_line_last_NUL:
  assumes "es \<noteq> []" "\<forall>e\<in>set es. treeent_ok algo e"
  defines "h \<equiv> rawsz (hash_algos ! algo)"
  shows "h + 3 \<le> length (lines_of es) \<and> lines_of es ! (length (lines_of es) - (h + 1)) = NUL"
proof -
  obtain ds e where es: "es = ds @ [e]" using assms(1) by (metis rev_exhaust)
  have e: "te_name e \<noteq> []" "length (te_hash e) = h" using assms(2) by (simp_all add: es treeent_ok_def h_def)
  let ?a = "lines_of ds @ octal_string (unat (te_mode e)) @ CHR '' '' # te_name e"
  have "lines_of es = ?a @ NUL # map (\<lambda>b. char_of (unat b)) (te_hash e)"
    by (simp add: lines_of_def es tree_line_def)
  moreover have "2 \<le> length ?a" using e(1) by (cases "te_name e") simp_all
  ultimately show ?thesis using e(2) by (simp add: nth_append)
qed

definition read_entry :: "nat \<Rightarrow> bool \<Rightarrow> object_id \<Rightarrow> treeent \<Rightarrow> name_entry" where
  "read_entry algo raw oid e =
     \<lparr>ne_oid = oidread oid (te_hash e) algo, ne_pos = length (octal_string (unat (te_mode e))) + 1,
      ne_path = te_name e, ne_mode = (if raw then te_mode e else canon_mode (te_mode e))\<rparr>"

lemma char_byte_map: "map of_char (map (\<lambda>b. char_of (unat (b :: byte))) bs) = bs"
proof -
  have "of_char (char_of (unat b) :: char) = b" for b :: byte
  proof -
    have "(of_char (char_of (unat b) :: char) :: byte) = word_of_nat (uc (char_of (unat b)))"
      by (simp only: of_nat_of_char)
    also have "uc (char_of (unat b)) = unat b" by (simp add: of_char_of)
    finally show ?thesis by simp
  qed
  then show ?thesis by (induction bs) simp_all
qed

lemma decode_tree_line:
  assumes "\<forall>x\<in>set (e # es). treeent_ok (td_algo desc) x"
  shows "decode_tree_entry desc (lines_of (e # es)) =
    Inr (read_entry (td_algo desc) (td_raw_modes desc) (ne_oid (td_entry desc)) e)"
proof -
  let ?o = "octal_string (unat (te_mode e))"
  let ?h = "rawsz (hash_algos ! td_algo desc)"
  let ?hash = "map (\<lambda>b. char_of (unat b)) (te_hash e) :: string"
  let ?buf = "lines_of (e # es)"
  have e: "treeent_ok (td_algo desc) e" using assms by simp
  have buf: "?buf = ?o @ CHR '' '' # te_name e @ NUL # ?hash @ lines_of es"
    by (simp add: tree_line_def)
  have mode: "ucast (ucast (te_mode e) :: 16 word) = te_mode e"
    using e by (intro word_unat_eqI) (simp add: treeent_ok_def take_bit_nat_eq_self unsigned_ucast_eq unsigned_take_bit_eq)
  have "parse_mode_loop ?buf 0 0 = Inr (Some (length ?o + 1, te_mode e))"
    unfolding buf octal_string_def
    by (subst parse_mode_loop_digits) (auto dest: octal_digits_lt simp: octal_digits_value)
  moreover have "\<exists>c cs. ?buf = c # cs \<and> c \<noteq> CHR '' ''"
  proof -
    obtain d ds where "octal_digits (unat (te_mode e)) = d # ds" by (cases "octal_digits (unat (te_mode e))") auto
    then show ?thesis unfolding buf octal_string_def using octal_space octal_digits_lt
      by (metis append_Cons list.set_intros(1) list.simps(9))
  qed
  ultimately have pm: "parse_mode ?buf = Inr (Some (length ?o + 1, ucast (te_mode e)))"
    by (auto simp: parse_mode_def simp del: lines_of_simps)
  have dr: "drop (length ?o + 1) ?buf = te_name e @ NUL # ?hash @ lines_of es"
    unfolding buf by simp
  have sl: "mem_strlen (te_name e @ NUL # ?hash @ lines_of es) = Inr (length (te_name e))"
    using e by (intro mem_strlen_name) (simp add: treeent_ok_def)
  have hs: "drop (length ?o + 1 + length (te_name e) + 1) ?buf = ?hash @ lines_of es"
    unfolding buf by simp
  have lh: "length ?hash = ?h" using e by (simp add: treeent_ok_def)
  obtain c cs where name: "te_name e = c # cs" "c \<noteq> NUL"
    using e by (cases "te_name e") (auto simp: treeent_ok_def)
  note last = tree_line_last_NUL [of "e # es", OF _ assms]
  have "\<not> (length ?buf < ?h + 3 \<or> ?buf ! (length ?buf - (?h + 1)) \<noteq> NUL)" using last by simp
  then show ?thesis
    unfolding decode_tree_entry_def Let_def pm sum.case option.case prod.case dr sl hs
    using lh name by (simp add: read_entry_def mode char_byte_map del: lines_of_simps map_map)
qed

text \<open>What a client takes from an entry: name, mode, and the hash.\<close>

definition entry_view :: "nat \<Rightarrow> name_entry \<Rightarrow> string \<times> u32 \<times> byte list" where
  "entry_view algo x = (ne_path x, ne_mode x, take (rawsz (hash_algos ! algo)) (oid_hash (ne_oid x)))"

definition written_view :: "bool \<Rightarrow> treeent \<Rightarrow> string \<times> u32 \<times> byte list" where
  "written_view raw e = (te_name e, if raw then te_mode e else canon_mode (te_mode e), te_hash e)"

lemma read_entry_view:
  assumes "treeent_ok algo e"
  shows "entry_view algo (read_entry algo raw oid e) = written_view raw e"
proof -
  have "take (rawsz (hash_algos ! algo)) (oid_hash (oidread oid (te_hash e) algo)) = te_hash e"
    using assms by (simp add: oidread_def treeent_ok_def Let_def)
  then show ?thesis by (simp add: entry_view_def read_entry_def written_view_def)
qed

lemma tree_entries_lines:
  assumes "\<forall>x\<in>set es. treeent_ok (td_algo desc) x" "td_buffer desc = lines_of es"
    "es \<noteq> [] \<Longrightarrow> \<exists>oid. td_entry desc = read_entry (td_algo desc) (td_raw_modes desc) oid (hd es)"
  shows "\<exists>xs. tree_entries desc = Inr xs \<and>
    map (entry_view (td_algo desc)) xs = map (written_view (td_raw_modes desc)) es"
  using assms
proof (induction es arbitrary: desc)
  case Nil
  then show ?case by (subst tree_entries.simps) (simp add: tree_entry_def)
next
  case (Cons e es)
  let ?a = "td_algo desc" and ?raw = "td_raw_modes desc"
  have e: "treeent_ok ?a e" and buf: "td_buffer desc = tree_line e @ lines_of es" and ne: "tree_line e \<noteq> []"
    using Cons.prems(1,2) by (simp_all add: tree_line_def)
  obtain oid where oid: "td_entry desc = read_entry ?a ?raw oid e" using Cons.prems(3) by auto
  have len: "entry_len desc = length (tree_line e)"
    using e by (simp add: entry_len_def oid read_entry_def tree_line_def treeent_ok_def)
  let ?d = "desc\<lparr>td_buffer := lines_of es\<rparr>"
  obtain desc' where d': "tree_entry desc = Inr (Some (td_entry desc, desc'))" "td_buffer desc' = lines_of es"
    "td_algo desc' = ?a" "td_raw_modes desc' = ?raw"
    "es \<noteq> [] \<Longrightarrow> \<exists>oid. td_entry desc' = read_entry ?a ?raw oid (hd es)"
  proof (cases es)
    case Nil
    then have "tree_entry desc = Inr (Some (td_entry desc, ?d))"
      using ne by (simp add: tree_entry_def update_tree_entry_def buf len)
    then show ?thesis using that [of ?d] Nil by simp
  next
    case (Cons f fs)
    have "decode_tree_entry ?d (lines_of es) = Inr (read_entry ?a ?raw (ne_oid (td_entry desc)) f)"
      using decode_tree_line [of f fs ?d] Cons.prems(1) Cons by simp
    moreover have "lines_of es \<noteq> []" by (simp add: Cons tree_line_def)
    ultimately have "tree_entry desc =
        Inr (Some (td_entry desc, ?d\<lparr>td_entry := read_entry ?a ?raw (ne_oid (td_entry desc)) f\<rparr>))"
      using ne by (simp add: tree_entry_def update_tree_entry_def buf len)
    then show ?thesis
      using that [of "?d\<lparr>td_entry := read_entry ?a ?raw (ne_oid (td_entry desc)) f\<rparr>"] Cons by auto
  qed
  obtain xs where "tree_entries desc' = Inr xs" "map (entry_view ?a) xs = map (written_view ?raw) es"
    using Cons.IH [of desc'] Cons.prems(1) d' by auto
  then show ?case
    using d'(1) read_entry_view [OF e, of ?raw oid] by (subst tree_entries.simps) (simp add: oid)
qed

lemma init_tree_desc_lines:
  assumes "\<forall>x\<in>set es. treeent_ok algo x"
  shows "\<exists>desc'. init_tree_desc desc algo (lines_of es) raw = Inr desc' \<and> td_algo desc' = algo \<and>
    td_raw_modes desc' = raw \<and> td_buffer desc' = lines_of es \<and>
    (es \<noteq> [] \<longrightarrow> (\<exists>oid. td_entry desc' = read_entry algo raw oid (hd es)))"
proof (cases es)
  case Nil
  then show ?thesis by (simp add: init_tree_desc_def Let_def)
next
  case (Cons e es')
  let ?d = "desc\<lparr>td_algo := algo, td_buffer := lines_of es, td_raw_modes := raw\<rparr>"
  have "decode_tree_entry ?d (lines_of es) = Inr (read_entry algo raw (ne_oid (td_entry desc)) e)"
    using decode_tree_line [of e es' ?d] assms Cons by simp
  moreover have "lines_of es \<noteq> []" by (simp add: Cons tree_line_def)
  ultimately show ?thesis using Cons by (auto simp: init_tree_desc_def Let_def simp del: lines_of_simps)
qed

lemma tree_lines_read_back:
  assumes "\<forall>e\<in>set es. treeent_ok algo e"
  shows "\<exists>desc' xs. init_tree_desc desc algo (lines_of es) raw = Inr desc' \<and>
    tree_entries desc' = Inr xs \<and>
    map (\<lambda>x. (ne_path x, ne_mode x, take (rawsz (hash_algos ! algo)) (oid_hash (ne_oid x)))) xs =
    map (\<lambda>e. (te_name e, if raw then te_mode e else canon_mode (te_mode e), te_hash e)) es"
proof -
  obtain desc' where d: "init_tree_desc desc algo (lines_of es) raw = Inr desc'"
    "td_algo desc' = algo" "td_raw_modes desc' = raw" "td_buffer desc' = lines_of es"
    "es \<noteq> [] \<longrightarrow> (\<exists>oid. td_entry desc' = read_entry algo raw oid (hd es))"
    using init_tree_desc_lines [OF assms] by blast
  obtain xs where "tree_entries desc' = Inr xs" "map (entry_view algo) xs = map (written_view raw) es"
    using tree_entries_lines [of es desc'] assms d by auto
  then show ?thesis
    using d(1) unfolding entry_view_def [abs_def] written_view_def [abs_def] by blast
qed

section \<open>The properties\<close>

text \<open>
  C39: Whatever bytes a tree object of less than 2 GiB has, decoding its entries one after the other never reads
  outside the object and never reaches the \<^verbatim>\<open>die\<close> of \<^verbatim>\<open>update_tree_entry\<close>: either every entry is
  delivered or a malformed one is reported.
\<close>

theorem tree_walk_in_bounds:
  assumes "length buffer < 2 ^ 31"
  shows "case init_tree_desc desc algo buffer raw of
      Inl e \<Rightarrow> \<exists>msg. e = Tree_bad msg
    | Inr desc' \<Rightarrow> (case tree_entries desc' of Inl e \<Rightarrow> \<exists>msg. e = Tree_bad msg | Inr es \<Rightarrow> True)"
proof (cases "init_tree_desc desc algo buffer raw")
  case (Inl e)
  then have "e \<noteq> Tree_overrun" "\<And>msg. e \<noteq> Tree_die msg"
    using decode_tree_entry_bounds(1,2)
    by (auto simp: init_tree_desc_def Let_def split: if_splits sum.splits)
  then show ?thesis using Inl by (cases e) auto
next
  case (Inr desc')
  have "tree_entries desc' \<noteq> Inl Tree_overrun" "\<And>msg. tree_entries desc' \<noteq> Inl (Tree_die msg)"
    using tree_entries_ok [OF init_tree_desc_ok [OF Inr]] by blast+
  then show ?thesis using Inr by (auto split: sum.splits) (metis tree_err.exhaust)
qed

theorem tree_walk_in_bounds_witness:
  "\<forall>d. \<exists>r. init_tree_desc d GIT_HASH_SHA1 ''100644 no hash'' True = r \<and>
    (case r of Inl e \<Rightarrow> \<exists>msg. e = Tree_bad msg
     | Inr d' \<Rightarrow> (case tree_entries d' of Inl e \<Rightarrow> \<exists>msg. e = Tree_bad msg | Inr es \<Rightarrow> True))"
  using tree_walk_in_bounds [of "''100644 no hash''" _ GIT_HASH_SHA1 True] by simp

text \<open>What a sort that orders by the comparison function returns for entries with distinct names.\<close>

lemma sorted_entries:
  assumes "mset ys = mset es" "sorted_wrt (\<lambda>a b. ent_compare a b \<le> 0) ys"
    "\<forall>e\<in>set es. CHR ''/'' \<notin> set (te_name e) \<and> NUL \<notin> set (te_name e)" "distinct (map te_name es)"
  shows "set ys = set es" "fsck_tree_order (map (\<lambda>e. (te_mode e, te_name e)) ys) = (False, False)"
proof -
  show s: "set ys = set es" using assms(1) by (metis set_mset_mset)
  have "mset (map te_name ys) = mset (map te_name es)" using assms(1) by simp
  then have d: "distinct (map te_name ys)" using assms(4) by (metis mset_eq_imp_distinct_iff)
  have "base_name_compare (te_name a) (te_mode a) (te_name b) (te_mode b) < 0"
    if "i < j" "j < length ys" "a = ys ! i" "b = ys ! j" for i j a b
  proof -
    have "te_name a \<noteq> te_name b" using d that by (simp add: distinct_conv_nth)
    moreover have "ent_compare a b \<le> 0" using assms(2) that by (simp add: sorted_wrt_iff_nth_less)
    moreover have "a \<in> set es" "b \<in> set es" using that s nth_mem by fastforce+
    then have "entry_name (te_name a)" "entry_name (te_name b)" using assms(3) by (simp_all add: entry_name_def)
    then have "base_name_compare (te_name a) (te_mode a) (te_name b) (te_mode b) = 0 \<longleftrightarrow>
        te_name a = te_name b \<and> S_ISDIR (te_mode a) = S_ISDIR (te_mode b)"
      using base_name_compare_order [of "te_name a" "te_name b" "te_name a" "te_mode a" "te_mode b" 0] by blast
    ultimately show ?thesis by (simp add: ent_compare_def less_le)
  qed
  then have "sorted_wrt (\<lambda>e d. base_name_compare (snd e) (fst e) (snd d) (fst d) < 0)
      (map (\<lambda>e. (te_mode e, te_name e)) ys)"
    by (simp add: sorted_wrt_iff_nth_less)
  moreover have "\<forall>e\<in>set (map (\<lambda>e. (te_mode e, te_name e)) ys). entry_name (snd e)"
    using assms(3) s by (auto simp: entry_name_def)
  ultimately show "fsck_tree_order (map (\<lambda>e. (te_mode e, te_name e)) ys) = (False, False)"
    using d by (subst fsck_tree_order_iff) (simp_all add: o_def)
qed

text \<open>
  C37: A tree that \<^verbatim>\<open>git mktree\<close> writes from entries with different names is read back entry by
  entry, with their names, modes and hashes, nothing lost and nothing invented, and passes the
  order check of \<^verbatim>\<open>git fsck\<close>, which reads it with raw modes; without \<^verbatim>\<open>TREE_DESC_RAW_MODES\<close> the modes
  come back in canonical form.  This holds for every sort of the standard library that sorts by
  the comparison function.
\<close>

theorem mktree_trees_valid:
  assumes "mset (qsort ent_compare es) = mset es" "sorted_wrt (\<lambda>a b. ent_compare a b \<le> 0) (qsort ent_compare es)"
    "\<forall>e\<in>set es. unat (te_mode e) < 65536 \<and> te_name e \<noteq> [] \<and> NUL \<notin> set (te_name e) \<and>
       CHR ''/'' \<notin> set (te_name e) \<and> length (te_hash e) = rawsz (hash_algos ! algo)"
    "distinct (map te_name es)" "length (write_tree qsort es) < 2 ^ 31"
  shows "\<exists>desc' xs. init_tree_desc desc algo (write_tree qsort es) raw = Inr desc' \<and>
    tree_entries desc' = Inr xs \<and>
    map (\<lambda>x. (ne_path x, ne_mode x, take (rawsz (hash_algos ! algo)) (oid_hash (ne_oid x)))) xs =
    map (\<lambda>e. (te_name e, if raw then te_mode e else canon_mode (te_mode e), te_hash e)) (qsort ent_compare es) \<and>
    (raw \<longrightarrow> set (map (\<lambda>x. (ne_path x, ne_mode x)) xs) = set (map (\<lambda>e. (te_name e, te_mode e)) es) \<and>
       fsck_tree_order (map (\<lambda>x. (ne_mode x, ne_path x)) xs) = (False, False))"
proof -
  let ?ys = "qsort ent_compare es"
  have ys: "set ?ys = set es" "fsck_tree_order (map (\<lambda>e. (te_mode e, te_name e)) ?ys) = (False, False)"
    using sorted_entries [OF assms(1,2) _ assms(4)] assms(3) by blast+
  have ok: "\<forall>e\<in>set ?ys. treeent_ok algo e" using ys(1) assms(3) by (simp add: treeent_ok_def)
  obtain desc' xs where xs: "init_tree_desc desc algo (write_tree qsort es) raw = Inr desc'"
    "tree_entries desc' = Inr xs"
    "map (\<lambda>x. (ne_path x, ne_mode x, take (rawsz (hash_algos ! algo)) (oid_hash (ne_oid x)))) xs =
     map (\<lambda>e. (te_name e, if raw then te_mode e else canon_mode (te_mode e), te_hash e)) ?ys"
    using tree_lines_read_back [OF ok, of desc raw] by (auto simp: write_tree_def lines_of_def)
  have "map (\<lambda>x. (ne_path x, ne_mode x)) xs = map (\<lambda>e. (te_name e, te_mode e)) ?ys" if raw
    using arg_cong [OF xs(3), of "map (\<lambda>(p, m, h). (p, m))"] that by (simp add: o_def)
  moreover have "map (\<lambda>x. (ne_mode x, ne_path x)) xs = map (\<lambda>e. (te_mode e, te_name e)) ?ys" if raw
    using arg_cong [OF xs(3), of "map (\<lambda>(p, m, h). (m, p))"] that by (simp add: o_def)
  moreover have "set (map (\<lambda>e. (te_name e, te_mode e)) ?ys) = set (map (\<lambda>e. (te_name e, te_mode e)) es)"
    using ys(1) by simp
  ultimately show ?thesis using xs ys(2) by (intro exI [of _ desc'] exI [of _ xs]) simp
qed

definition two_entries :: "treeent list" where
  "two_entries = [\<lparr>te_mode = 0x4000, te_name = ''a'', te_hash = replicate 20 7\<rparr>,
     \<lparr>te_mode = 0x81a4, te_name = ''a.b'', te_hash = replicate 20 9\<rparr>]"

theorem mktree_trees_valid_witness:
  "\<forall>d. \<exists>desc' xs. init_tree_desc d GIT_HASH_SHA1 (write_tree (\<lambda>_. rev) two_entries) True = Inr desc' \<and>
    tree_entries desc' = Inr xs \<and> set (map ne_path xs) = {''a'', ''a.b''} \<and>
    fsck_tree_order (map (\<lambda>x. (ne_mode x, ne_path x)) xs) = (False, False)"
proof
  fix d
  have path: "set (map ne_path xs) = fst ` set (map (\<lambda>x. (ne_path x, ne_mode x)) xs)" for xs by force
  have "ent_compare (two_entries ! 1) (two_entries ! 0) \<le> 0" by (simp add: two_entries_def) code_simp
  then have "sorted_wrt (\<lambda>a b. ent_compare a b \<le> 0) (rev two_entries)" by (simp add: two_entries_def)
  then show "\<exists>desc' xs. init_tree_desc d GIT_HASH_SHA1 (write_tree (\<lambda>_. rev) two_entries) True = Inr desc' \<and>
    tree_entries desc' = Inr xs \<and> set (map ne_path xs) = {''a'', ''a.b''} \<and>
    fsck_tree_order (map (\<lambda>x. (ne_mode x, ne_path x)) xs) = (False, False)"
    using mktree_trees_valid [where qsort = "\<lambda>_. rev" and es = two_entries and algo = GIT_HASH_SHA1 and desc = d and raw = True] unfolding path
    by (auto simp: two_entries_def GIT_HASH_SHA1_def hash_algos_def GIT_SHA1_RAWSZ_def
        write_tree_def tree_line_def octal_string_def octal_digits.simps)
qed

end
