(* ===== verification/Spec2Isabelle.thy ===== *)
theory Spec2Isabelle
  imports Varint Base85 Rabin Patch_Delta Delta_Index Create_Delta Prio_Queue Topo_Sort Unpack_Trees Ctype Hex Quote Quote_C Refname Wildmatch Pretty_Utf8 Diff_Pretty Pretty_Protocol Log_Pager Pkt_Line Range_Set Object_Modes Merge_Sort Tree_Order Tree_Walk
begin

text \<open>
  A verification development for git.
\<close>

end
